(* ===== verification/Btc_Prelude.thy ===== *)
theory Btc_Prelude
  imports Main "HOL-Library.Word"
begin

text \<open>
  Shared vocabulary of the development: the machine types of the C++ sources, the exceptions
  they throw, sequencing of computations that may throw, arithmetic on \<open>size_t\<close>, and the
  generic lemmas on lists, words and results that the component theories use.
\<close>

unbundle bit_operations_syntax

section \<open>Machine types\<close>

type_synonym byte = "8 word"
type_synonym u16 = "16 word"
type_synonym u32 = "32 word"
type_synonym u64 = "64 word"
type_synonym bytes = "byte list"

named_theorems res_simps \<open>rewriting of sequenced computations that may throw\<close>
named_theorems codec_simps \<open>round trips of the byte-level encoders and decoders\<close>
named_theorems length_simps \<open>lengths of encoded values\<close>

section \<open>Exceptions\<close>

text \<open>
  A C++ function that may throw returns a value of \<open>err + 'a\<close>. \<open>Undefined_Behaviour\<close> is not an
  exception of the sources: it marks an execution that reads or writes outside its buffer, which
  C++ leaves undefined. The safety theorems show on which inputs it cannot occur.
\<close>

datatype err =
    Runtime_Error string
  | Range_Error string
  | Length_Error string
  | Block_Deserializing string
  | DER_Error string
  | Coin_Selection_Error string
  | Undefined_Behaviour

type_synonym 'a res = "err + 'a"

definition bind_res :: "'a res \<Rightarrow> ('a \<Rightarrow> 'b res) \<Rightarrow> 'b res" where
  "bind_res m f = (case m of Inl e \<Rightarrow> Inl e | Inr x \<Rightarrow> f x)"

definition guard_res :: "bool \<Rightarrow> err \<Rightarrow> unit res" where
  "guard_res b e = (if b then Inr () else Inl e)"

definition no_ub :: "'a res \<Rightarrow> bool" where
  "no_ub r \<longleftrightarrow> r \<noteq> Inl Undefined_Behaviour"

lemma bind_res_Inr [simp, res_simps]: "bind_res (Inr x) f = f x"
  by (simp add: bind_res_def)

lemma bind_res_Inl [simp, res_simps]: "bind_res (Inl e) f = Inl e"
  by (simp add: bind_res_def)

lemma bind_res_eq_Inr: "bind_res m f = Inr y \<longleftrightarrow> (\<exists>x. m = Inr x \<and> f x = Inr y)"
  by (cases m) auto

lemma bind_res_eq_Inl:
  "bind_res m f = Inl e \<longleftrightarrow> m = Inl e \<or> (\<exists>x. m = Inr x \<and> f x = Inl e)"
  by (cases m) auto

lemma bind_res_assoc: "bind_res (bind_res m f) g = bind_res m (\<lambda>x. bind_res (f x) g)"
  by (cases m) auto

lemma bind_res_cong [fundef_cong]:
  "m = m' \<Longrightarrow> (\<And>x. m' = Inr x \<Longrightarrow> f x = f' x) \<Longrightarrow> bind_res m f = bind_res m' f'"
  by (cases m') auto

lemma guard_res_True [simp, res_simps]: "guard_res True e = Inr ()"
  by (simp add: guard_res_def)

lemma guard_res_False [simp, res_simps]: "guard_res False e = Inl e"
  by (simp add: guard_res_def)

lemma guard_res_eq_Inr [simp]: "guard_res b e = Inr u \<longleftrightarrow> b"
  by (cases u) (simp add: guard_res_def)

lemma no_ub_Inr [simp, intro]: "no_ub (Inr x)"
  by (simp add: no_ub_def)

lemma no_ub_Inl [simp]: "no_ub (Inl e) \<longleftrightarrow> e \<noteq> Undefined_Behaviour"
  by (simp add: no_ub_def)

lemma no_ub_bind:
  "no_ub m \<Longrightarrow> (\<And>x. m = Inr x \<Longrightarrow> no_ub (f x)) \<Longrightarrow> no_ub (bind_res m f)"
  by (cases m) auto

section \<open>Arithmetic on \<open>size_t\<close>\<close>

text \<open>
  Sizes and positions are \<open>size_t\<close>, 64 bits wide. They are natural numbers below \<open>size_t_mod\<close>
  here, with the wrap-around of additions and subtractions written out.
\<close>

abbreviation size_t_mod :: nat where
  "size_t_mod \<equiv> 2 ^ 64"

definition sz_add :: "nat \<Rightarrow> nat \<Rightarrow> nat" where
  "sz_add a b = (a + b) mod size_t_mod"

definition sz_sub :: "nat \<Rightarrow> nat \<Rightarrow> nat" where
  "sz_sub a b = (a + (size_t_mod - b mod size_t_mod)) mod size_t_mod"

lemma sz_add_small [simp]: "a + b < size_t_mod \<Longrightarrow> sz_add a b = a + b"
  by (simp add: sz_add_def)

lemma sz_sub_small [simp]: "b \<le> a \<Longrightarrow> a < size_t_mod \<Longrightarrow> sz_sub a b = a - b"
proof -
  assume le: "b \<le> a" and lt: "a < size_t_mod"
  have "a + (size_t_mod - b mod size_t_mod) = (a - b) + size_t_mod"
    using le lt by simp
  then have "sz_sub a b = ((a - b) + size_t_mod) mod size_t_mod"
    by (simp only: sz_sub_def)
  then show ?thesis
    using lt by simp
qed

lemma sz_sub_wraps: "a < b \<Longrightarrow> b < size_t_mod \<Longrightarrow> sz_sub a b = size_t_mod - (b - a)"
  by (simp add: sz_sub_def)

lemma sz_sub_less: "sz_sub a b < size_t_mod"
  by (simp add: sz_sub_def)

section \<open>Lists\<close>

definition bslice :: "nat \<Rightarrow> nat \<Rightarrow> 'a list \<Rightarrow> 'a list" where
  "bslice i n xs = take n (drop i xs)"

lemma length_bslice [simp]: "length (bslice i n xs) = min n (length xs - i)"
  by (simp add: bslice_def)

lemma bslice_0 [simp]: "bslice 0 n xs = take n xs"
  by (simp add: bslice_def)

lemma bslice_append_left: "length xs = i \<Longrightarrow> bslice i n (xs @ ys) = take n ys"
  by (simp add: bslice_def)

lemma bslice_append_middle [simp]:
  "length xs = i \<Longrightarrow> length ys = n \<Longrightarrow> bslice i n (xs @ ys @ zs) = ys"
  by (simp add: bslice_def)

lemma bslice_nth: "k < n \<Longrightarrow> i + k < length xs \<Longrightarrow> bslice i n xs ! k = xs ! (i + k)"
  by (simp add: bslice_def)

lemma take_eq_append_drop: "take n xs = ys \<Longrightarrow> xs = ys @ drop n xs"
  by (metis append_take_drop_id)

section \<open>Words\<close>

lemma unat_bound: "unat (w :: 'a::len word) < 2 ^ LENGTH('a)"
  by (rule unsigned_less)

end
