(* ===== verification/Std_Containers.thy ===== *)
theory Std_Containers
  imports Btc_Prelude "HOL-Library.Multiset"
begin

text \<open>
  The ordered containers of the C++ standard library that the sources use, as sorted lists: an
  iteration over a \<open>std::map\<close> or \<open>std::set\<close> visits the elements in the order of the comparator, and
  the code depends on that order. The comparator's contract is the locale \<open>strict_weak\<close>, and
  \<open>total_comparator\<close> where incomparable keys are equal. The laws of find, insert, assign and erase
  are proved once from the contract.
\<close>

section \<open>Operations\<close>

fun set_insert :: "('k \<Rightarrow> 'k \<Rightarrow> bool) \<Rightarrow> 'k \<Rightarrow> 'k list \<Rightarrow> 'k list" where
  "set_insert lt x [] = [x]"
| "set_insert lt x (y # ys) =
     (if lt x y then x # y # ys
      else if lt y x then y # set_insert lt x ys
      else y # ys)"

fun set_find :: "('k \<Rightarrow> 'k \<Rightarrow> bool) \<Rightarrow> 'k \<Rightarrow> 'k list \<Rightarrow> 'k option" where
  "set_find lt x [] = None"
| "set_find lt x (y # ys) =
     (if lt x y then None else if lt y x then set_find lt x ys else Some y)"

fun set_erase :: "('k \<Rightarrow> 'k \<Rightarrow> bool) \<Rightarrow> 'k \<Rightarrow> 'k list \<Rightarrow> 'k list" where
  "set_erase lt x [] = []"
| "set_erase lt x (y # ys) =
     (if lt x y then y # ys else if lt y x then y # set_erase lt x ys else ys)"

fun map_find :: "('k \<Rightarrow> 'k \<Rightarrow> bool) \<Rightarrow> 'k \<Rightarrow> ('k \<times> 'v) list \<Rightarrow> 'v option" where
  "map_find lt k [] = None"
| "map_find lt k ((k', v) # m) =
     (if lt k k' then None else if lt k' k then map_find lt k m else Some v)"

text \<open>\<open>std::map::insert\<close> and \<open>emplace\<close> leave an element that is already there unchanged.\<close>

fun map_insert :: "('k \<Rightarrow> 'k \<Rightarrow> bool) \<Rightarrow> 'k \<Rightarrow> 'v \<Rightarrow> ('k \<times> 'v) list \<Rightarrow> ('k \<times> 'v) list" where
  "map_insert lt k v [] = [(k, v)]"
| "map_insert lt k v ((k', v') # m) =
     (if lt k k' then (k, v) # (k', v') # m
      else if lt k' k then (k', v') # map_insert lt k v m
      else (k', v') # m)"

text \<open>\<open>m[k] = v\<close> overwrites it.\<close>

fun map_assign :: "('k \<Rightarrow> 'k \<Rightarrow> bool) \<Rightarrow> 'k \<Rightarrow> 'v \<Rightarrow> ('k \<times> 'v) list \<Rightarrow> ('k \<times> 'v) list" where
  "map_assign lt k v [] = [(k, v)]"
| "map_assign lt k v ((k', v') # m) =
     (if lt k k' then (k, v) # (k', v') # m
      else if lt k' k then (k', v') # map_assign lt k v m
      else (k', v) # m)"

fun map_erase :: "('k \<Rightarrow> 'k \<Rightarrow> bool) \<Rightarrow> 'k \<Rightarrow> ('k \<times> 'v) list \<Rightarrow> ('k \<times> 'v) list" where
  "map_erase lt k [] = []"
| "map_erase lt k ((k', v') # m) =
     (if lt k k' then (k', v') # m
      else if lt k' k then (k', v') # map_erase lt k m
      else m)"

definition map_insert_all ::
  "('k \<Rightarrow> 'k \<Rightarrow> bool) \<Rightarrow> ('k \<times> 'v) list \<Rightarrow> ('k \<times> 'v) list \<Rightarrow> ('k \<times> 'v) list" where
  "map_insert_all lt xs m = fold (\<lambda>(k, v) m. map_insert lt k v m) xs m"

definition set_insert_all :: "('k \<Rightarrow> 'k \<Rightarrow> bool) \<Rightarrow> 'k list \<Rightarrow> 'k list \<Rightarrow> 'k list" where
  "set_insert_all lt xs s = fold (set_insert lt) xs s"

section \<open>The comparator's contract\<close>

locale strict_weak =
  fixes lt :: "'k \<Rightarrow> 'k \<Rightarrow> bool"
  assumes lt_irrefl: "\<not> lt a a"
    and lt_trans: "lt a b \<Longrightarrow> lt b c \<Longrightarrow> lt a c"
    and lt_split: "lt a b \<Longrightarrow> lt a c \<or> lt c b"
begin

lemma lt_asym: "lt a b \<Longrightarrow> \<not> lt b a"
  using lt_irrefl lt_trans by blast

lemma set_set_insert_subset: "set (set_insert lt x xs) \<subseteq> insert x (set xs)"
  by (induction xs) auto

lemma set_subset_set_insert: "set xs \<subseteq> set (set_insert lt x xs)"
  by (induction xs) auto

lemma set_insert_sorted: "sorted_wrt lt xs \<Longrightarrow> sorted_wrt lt (set_insert lt x xs)"
proof (induction xs)
  case Nil
  then show ?case by simp
next
  case (Cons y ys)
  have "\<forall>z \<in> set ys. lt x z" if "lt x y"
    using Cons.prems that lt_trans by auto
  moreover have "\<forall>z \<in> set (set_insert lt x ys). lt y z" if "lt y x"
    using Cons.prems that set_set_insert_subset [of x ys] by auto
  ultimately show ?case
    using Cons by auto
qed

lemma mset_set_insert_fresh:
  "\<forall>y \<in> set xs. lt x y \<or> lt y x \<Longrightarrow> mset (set_insert lt x xs) = add_mset x (mset xs)"
  by (induction xs) auto

lemma set_insert_all_sorted:
  "sorted_wrt lt s \<Longrightarrow> sorted_wrt lt (set_insert_all lt xs s)"
  unfolding set_insert_all_def by (induction xs arbitrary: s) (auto simp: set_insert_sorted)

text \<open>When the inserted elements are pairwise comparable, nothing is lost: the container holds
  exactly the elements inserted, in ascending order.\<close>

lemma mset_set_insert_all:
  assumes "\<forall>y \<in> set s. \<forall>x \<in> set xs. lt x y \<or> lt y x"
    and "sorted_wrt (\<lambda>a b. lt a b \<or> lt b a) xs"
  shows "mset (set_insert_all lt xs s) = mset xs + mset s"
  using assms
proof (induction xs arbitrary: s)
  case Nil
  then show ?case by (simp add: set_insert_all_def)
next
  case (Cons x xs)
  have m: "mset (set_insert lt x s) = add_mset x (mset s)"
    using Cons.prems by (intro mset_set_insert_fresh) auto
  have st: "set (set_insert lt x s) = insert x (set s)"
    using m by (metis set_mset_add_mset_insert set_mset_mset)
  have "mset (set_insert_all lt xs (set_insert lt x s)) = mset xs + mset (set_insert lt x s)"
    using Cons.prems by (intro Cons.IH) (auto simp: st)
  then show ?case
    by (simp add: set_insert_all_def m)
qed

end

locale total_comparator =
  fixes lt :: "'k \<Rightarrow> 'k \<Rightarrow> bool"
  assumes cmp_irrefl: "\<not> lt a a"
    and cmp_trans: "lt a b \<Longrightarrow> lt b c \<Longrightarrow> lt a c"
    and cmp_total: "a \<noteq> b \<Longrightarrow> lt a b \<or> lt b a"

sublocale total_comparator \<subseteq> strict_weak
proof unfold_locales
  fix a b c
  show "\<not> lt a a" by (rule cmp_irrefl)
  show "lt a b \<Longrightarrow> lt b c \<Longrightarrow> lt a c" by (rule cmp_trans)
  show "lt a b \<Longrightarrow> lt a c \<or> lt c b" by (metis cmp_total cmp_trans)
qed

context total_comparator
begin

definition map_wf :: "('k \<times> 'v) list \<Rightarrow> bool" where
  "map_wf m \<longleftrightarrow> sorted_wrt lt (map fst m)"

lemma map_wf_Nil [simp]: "map_wf []"
  by (simp add: map_wf_def)

lemma map_wf_Cons [simp]: "map_wf ((k, v) # m) \<longleftrightarrow> (\<forall>k' \<in> fst ` set m. lt k k') \<and> map_wf m"
  by (simp add: map_wf_def)

lemma cmp_cases [case_names less equal greater]:
  obtains "lt a b" "\<not> lt b a" "a \<noteq> b" | "a = b" | "lt b a" "\<not> lt a b" "a \<noteq> b"
  by (metis cmp_irrefl cmp_total lt_asym)

lemma map_wf_distinct: "map_wf m \<Longrightarrow> distinct (map fst m)"
proof (induction m)
  case Nil
  then show ?case by simp
next
  case (Cons p m)
  obtain k v where p: "p = (k, v)" by (cases p)
  have "k \<notin> fst ` set m"
    using Cons.prems cmp_irrefl [of k] unfolding p map_wf_Cons by blast
  then show ?case
    using Cons p by simp
qed

lemma map_find_below: "map_wf ((k, v) # m) \<Longrightarrow> lt j k \<Longrightarrow> map_find lt j m = None"
proof (cases m)
  case (Cons p m')
  obtain k' v' where p: "p = (k', v')" by (cases p)
  assume "map_wf ((k, v) # m)" "lt j k"
  then have "lt j k'"
    using cmp_trans [of j k k'] by (simp add: Cons p)
  then show ?thesis
    by (simp add: Cons p)
qed simp

lemma map_find_map_of: "map_wf m \<Longrightarrow> map_find lt k m = map_of m k"
proof (induction m)
  case Nil
  then show ?case by simp
next
  case (Cons p m)
  obtain k' v where p: "p = (k', v)" by (cases p)
  have IH: "map_find lt k m = map_of m k"
    using Cons p by simp
  show ?case
  proof (cases k k' rule: cmp_cases)
    case less
    then show ?thesis
      using IH map_find_below [OF Cons.prems [unfolded p] less(1)] p by simp
  qed (use IH p cmp_irrefl in auto)
qed

lemma keys_map_insert: "k' \<in> fst ` set (map_insert lt k v m) \<Longrightarrow> k' = k \<or> k' \<in> fst ` set m"
  by (induction m) (force split: if_splits)+

lemma keys_map_assign: "k' \<in> fst ` set (map_assign lt k v m) \<Longrightarrow> k' = k \<or> k' \<in> fst ` set m"
  by (induction m) (force split: if_splits)+

lemma map_insert_wf: "map_wf m \<Longrightarrow> map_wf (map_insert lt k v m)"
proof (induction m)
  case Nil
  then show ?case by simp
next
  case (Cons p m)
  obtain k' v' where p: "p = (k', v')" by (cases p)
  have below: "\<forall>x \<in> fst ` set m. lt k' x" and wf: "map_wf m"
    using Cons.prems p by simp_all
  have 1: "\<forall>x \<in> fst ` set m. lt k x" if "lt k k'"
    using below cmp_trans [OF that] by (metis (no_types))
  have 2: "\<forall>x \<in> fst ` set (map_insert lt k v m). lt k' x" if "lt k' k"
    using below that keys_map_insert by (metis (no_types))
  show ?case
  proof (cases k k' rule: cmp_cases)
    case less
    with 1 [OF less(1)] below wf show ?thesis by (simp add: p)
  next
    case equal
    with below wf show ?thesis by (simp add: p cmp_irrefl)
  next
    case greater
    with 2 [OF greater(1)] Cons.IH [OF wf] show ?thesis by (simp add: p)
  qed
qed

lemma map_assign_wf: "map_wf m \<Longrightarrow> map_wf (map_assign lt k v m)"
proof (induction m)
  case Nil
  then show ?case by simp
next
  case (Cons p m)
  obtain k' v' where p: "p = (k', v')" by (cases p)
  have below: "\<forall>x \<in> fst ` set m. lt k' x" and wf: "map_wf m"
    using Cons.prems p by simp_all
  have 1: "\<forall>x \<in> fst ` set m. lt k x" if "lt k k'"
    using below cmp_trans [OF that] by (metis (no_types))
  have 2: "\<forall>x \<in> fst ` set (map_assign lt k v m). lt k' x" if "lt k' k"
    using below that keys_map_assign by (metis (no_types))
  show ?case
  proof (cases k k' rule: cmp_cases)
    case less
    with 1 [OF less(1)] below wf show ?thesis by (simp add: p)
  next
    case equal
    with below wf show ?thesis by (simp add: p cmp_irrefl)
  next
    case greater
    with 2 [OF greater(1)] Cons.IH [OF wf] show ?thesis by (simp add: p)
  qed
qed

lemma map_erase_subset: "set (map_erase lt k m) \<subseteq> set m"
  by (induction m) (auto split: if_splits)

lemma map_erase_wf: "map_wf m \<Longrightarrow> map_wf (map_erase lt k m)"
proof (induction m)
  case Nil
  then show ?case by simp
next
  case (Cons p m)
  obtain k' v' where p: "p = (k', v')" by (cases p)
  have "\<forall>x \<in> fst ` set (map_erase lt k m). lt k' x"
    using Cons.prems p map_erase_subset [of k m] by auto
  then show ?case
    using Cons p by simp
qed

lemma map_find_insert:
  "map_wf m \<Longrightarrow> map_find lt j (map_insert lt k v m) =
     (if j = k \<and> map_find lt k m = None then Some v else map_find lt j m)"
proof (induction m)
  case Nil
  then show ?case
    by (cases j k rule: cmp_cases) (auto simp: cmp_irrefl)
next
  case (Cons p m)
  obtain k' v' where p: "p = (k', v')" by (cases p)
  note IH = Cons.IH [OF Cons.prems [unfolded p map_wf_Cons, THEN conjunct2]]
  have below: "map_find lt i m = None" if "lt i k'" for i
    using map_find_below [OF Cons.prems [unfolded p] that] .
  show ?case
  proof (cases k k' rule: cmp_cases)
    case less
    then show ?thesis
      using cmp_trans [of j k k'] by (cases j k rule: cmp_cases) (auto simp: p cmp_irrefl)
  next
    case equal
    then show ?thesis
      by (auto simp: p cmp_irrefl)
  next
    case greater
    then show ?thesis
      using IH below by (cases j k' rule: cmp_cases) (auto simp: p cmp_irrefl)
  qed
qed

lemma map_find_assign:
  "map_wf m \<Longrightarrow> map_find lt j (map_assign lt k v m) =
     (if j = k then Some v else map_find lt j m)"
proof (induction m)
  case Nil
  then show ?case
    by (cases j k rule: cmp_cases) (auto simp: cmp_irrefl)
next
  case (Cons p m)
  obtain k' v' where p: "p = (k', v')" by (cases p)
  note IH = Cons.IH [OF Cons.prems [unfolded p map_wf_Cons, THEN conjunct2]]
  show ?case
  proof (cases k k' rule: cmp_cases)
    case less
    then show ?thesis
      using cmp_trans [of j k k'] by (cases j k rule: cmp_cases) (auto simp: p cmp_irrefl)
  next
    case equal
    then show ?thesis
      by (cases j k rule: cmp_cases) (auto simp: p cmp_irrefl)
  next
    case greater
    then show ?thesis
      using IH by (cases j k' rule: cmp_cases) (auto simp: p cmp_irrefl)
  qed
qed

lemma map_find_erase:
  "map_wf m \<Longrightarrow> map_find lt j (map_erase lt k m) = (if j = k then None else map_find lt j m)"
proof (induction m)
  case Nil
  then show ?case by simp
next
  case (Cons p m)
  obtain k' v' where p: "p = (k', v')" by (cases p)
  note IH = Cons.IH [OF Cons.prems [unfolded p map_wf_Cons, THEN conjunct2]]
  have below: "map_find lt i m = None" if "lt i k'" for i
    using map_find_below [OF Cons.prems [unfolded p] that] .
  have none: "map_find lt k' m = None"
    using Cons.prems p cmp_irrefl by (cases m) auto
  show ?case
  proof (cases k k' rule: cmp_cases)
    case equal
    then show ?thesis
      using below none by (cases j k' rule: cmp_cases) (auto simp: p cmp_irrefl)
  next
    case less
    then show ?thesis
      by (auto simp: p)
  next
    case greater
    then show ?thesis
      using IH by (cases j k' rule: cmp_cases) (auto simp: p cmp_irrefl)
  qed
qed

lemma map_insert_all_wf: "map_wf m \<Longrightarrow> map_wf (map_insert_all lt xs m)"
  unfolding map_insert_all_def
  by (induction xs arbitrary: m) (auto simp: map_insert_wf split: prod.splits)

lemma map_find_insert_all:
  "map_wf m \<Longrightarrow> map_find lt j (map_insert_all lt xs m) =
     (case map_find lt j m of None \<Rightarrow> map_of xs j | Some v \<Rightarrow> Some v)"
  unfolding map_insert_all_def
proof (induction xs arbitrary: m)
  case Nil
  then show ?case by (simp split: option.splits)
next
  case (Cons p xs)
  obtain k v where p: "p = (k, v)" by (cases p)
  have IH: "map_find lt j (fold (\<lambda>(k, v). map_insert lt k v) xs (map_insert lt k v m)) =
      (case map_find lt j (map_insert lt k v m) of None \<Rightarrow> map_of xs j | Some v \<Rightarrow> Some v)"
    by (rule Cons.IH [OF map_insert_wf [OF Cons.prems]])
  show ?case
    unfolding p fold.simps comp_apply prod.case IH map_find_insert [OF Cons.prems]
    by (cases "j = k"; cases "map_find lt j m") auto
qed

lemma map_find_None_iff: "map_wf m \<Longrightarrow> map_find lt k m = None \<longleftrightarrow> k \<notin> fst ` set m"
  by (simp add: map_find_map_of map_of_eq_None_iff)

lemma map_find_Some_iff: "map_wf m \<Longrightarrow> map_find lt k m = Some v \<longleftrightarrow> (k, v) \<in> set m"
  by (simp add: map_find_map_of map_wf_distinct)

lemma map_insert_all_Nil: "map_wf m \<Longrightarrow> map_find lt j (map_insert_all lt m []) = map_find lt j m"
  by (simp add: map_find_insert_all map_find_map_of)

lemma card_dom_map_find: "map_wf m \<Longrightarrow> card (dom (\<lambda>k. map_find lt k m)) = length m"
proof -
  assume wf: "map_wf m"
  have "dom (\<lambda>k. map_find lt k m) = fst ` set m"
    using map_find_None_iff [OF wf] by (auto simp: dom_def)
  then show ?thesis
    using map_wf_distinct [OF wf] distinct_card by fastforce
qed

lemma set_find_iff: "sorted_wrt lt xs \<Longrightarrow> set_find lt x xs = (if x \<in> set xs then Some x else None)"
proof (induction xs)
  case (Cons y ys)
  have "x \<notin> set ys" if "lt x y"
    using Cons.prems that lt_asym by auto
  then show ?case
    using Cons by (cases x y rule: cmp_cases) (auto simp: cmp_irrefl)
qed simp

lemma set_set_insert: "set (set_insert lt x xs) = insert x (set xs)"
proof (induction xs)
  case (Cons y ys)
  then show ?case
    by (cases x y rule: cmp_cases) (auto simp: cmp_irrefl)
qed simp

lemma set_set_insert_all: "set (set_insert_all lt xs s) = set xs \<union> set s"
  unfolding set_insert_all_def by (induction xs arbitrary: s) (auto simp: set_set_insert)

lemma set_erase_subset: "set (set_erase lt x xs) \<subseteq> set xs"
  by (induction xs) auto

lemma set_erase_sorted: "sorted_wrt lt xs \<Longrightarrow> sorted_wrt lt (set_erase lt x xs)"
proof (induction xs)
  case (Cons y ys)
  then show ?case
    using set_erase_subset [of x ys] by auto
qed simp

lemma set_set_erase: "sorted_wrt lt xs \<Longrightarrow> set (set_erase lt x xs) = set xs - {x}"
proof (induction xs)
  case (Cons y ys)
  have "x \<notin> set ys" if "x = y \<or> lt x y"
    using Cons.prems that lt_asym cmp_irrefl by auto
  then show ?case
    using Cons by (cases x y rule: cmp_cases) (auto simp: cmp_irrefl)
qed simp

lemma sorted_distinct: "sorted_wrt lt xs \<Longrightarrow> distinct xs"
  using cmp_irrefl by (induction xs) auto

lemmas map_laws = map_find_insert map_find_assign map_find_erase map_find_insert_all

lemmas map_wf_intros = map_insert_wf map_assign_wf map_erase_wf map_insert_all_wf

end

end
