(* ===== verification/Binary_Data.thy ===== *)
theory Binary_Data
  imports Std_Containers
begin

text \<open>
  \<open>BinaryData\<close> and \<open>BinaryDataRef\<close> (BinaryData.h, BinaryData.cpp): byte strings, their integer and
  hexadecimal encodings, searching, slicing and comparison. A value of either class is the list of
  its bytes; a C++ \<open>std::string\<close> is the list of its character codes. Integers are read through a
  pointer cast on a little-endian host, so \<open>StrToIntLE\<close> is the little-endian value of the bytes.
\<close>

section \<open>Integers as bytes\<close>

datatype endian = ENDIAN_LITTLE | ENDIAN_BIG

fun IntToStrLE_loop :: "nat \<Rightarrow> 'a::len word \<Rightarrow> bytes" where
  "IntToStrLE_loop 0 val = []"
| "IntToStrLE_loop (Suc i) val = ucast (take_bit 8 val) # IntToStrLE_loop i (drop_bit 8 val)"

definition IntToStrLE :: "'a::len word \<Rightarrow> bytes" where
  "IntToStrLE val = IntToStrLE_loop (LENGTH('a) div 8) val"

text \<open>The big-endian loop writes \<open>out[(SZ-1)-i]\<close>: each byte goes in front of those written before.\<close>

fun IntToStrBE_loop :: "nat \<Rightarrow> 'a::len word \<Rightarrow> bytes \<Rightarrow> bytes" where
  "IntToStrBE_loop 0 val out = out"
| "IntToStrBE_loop (Suc i) val out =
     IntToStrBE_loop i (drop_bit 8 val) (ucast (take_bit 8 val) # out)"

definition IntToStrBE :: "'a::len word \<Rightarrow> bytes" where
  "IntToStrBE val = IntToStrBE_loop (LENGTH('a) div 8) val []"

fun le_value :: "bytes \<Rightarrow> 'a::len word" where
  "le_value [] = 0"
| "le_value (b # bs) = ucast b OR push_bit 8 (le_value bs)"

text \<open>A string of the wrong size is logged and read as 0.\<close>

definition StrToIntLE :: "bytes \<Rightarrow> 'a::len word" where
  "StrToIntLE bs = (if length bs \<noteq> LENGTH('a) div 8 then 0 else le_value bs)"

fun StrToIntBE_loop :: "bytes \<Rightarrow> 'a::len word \<Rightarrow> 'a word" where
  "StrToIntBE_loop [] out = out"
| "StrToIntBE_loop (b # bs) out = StrToIntBE_loop bs (out OR push_bit (8 * length bs) (ucast b))"

definition StrToIntBE :: "bytes \<Rightarrow> 'a::len word" where
  "StrToIntBE bs = (if length bs \<noteq> LENGTH('a) div 8 then 0 else StrToIntBE_loop bs 0)"

lemma length_IntToStrLE_loop [simp]: "length (IntToStrLE_loop n v) = n"
  by (induction n arbitrary: v) auto

lemma length_IntToStrLE [simp, length_simps]:
  "length (IntToStrLE (v :: 'a::len word)) = LENGTH('a) div 8"
  by (simp add: IntToStrLE_def)

lemma IntToStrBE_loop_eq: "IntToStrBE_loop n v out = rev (IntToStrLE_loop n v) @ out"
  by (induction n arbitrary: v out) auto

lemma IntToStrBE_eq: "IntToStrBE v = rev (IntToStrLE v)"
  by (simp add: IntToStrBE_def IntToStrLE_def IntToStrBE_loop_eq)

lemma length_IntToStrBE [simp, length_simps]:
  "length (IntToStrBE (v :: 'a::len word)) = LENGTH('a) div 8"
  by (simp add: IntToStrBE_eq)

lemma ucast_take_bit_8:
  "8 \<le> LENGTH('a) \<Longrightarrow> (ucast (ucast (take_bit 8 v :: 'a::len word) :: byte) :: 'a word) = take_bit 8 v"
  by (rule bit_eqI) (auto simp: bit_simps)

lemma le_value_loop:
  "8 * n \<le> LENGTH('a) \<Longrightarrow> le_value (IntToStrLE_loop n (v :: 'a::len word)) = take_bit (8 * n) v"
proof (induction n arbitrary: v)
  case 0
  then show ?case by simp
next
  case (Suc n)
  have IH: "le_value (IntToStrLE_loop n (drop_bit 8 v)) = take_bit (8 * n) (drop_bit 8 v)"
    using Suc by simp
  have "take_bit 8 v OR push_bit 8 (take_bit (8 * n) (drop_bit 8 v)) = take_bit (8 * Suc n) v"
    using Suc.prems by (intro bit_eqI) (auto simp: bit_simps)
  then show ?case
    using Suc.prems by (simp add: IH ucast_take_bit_8)
qed

lemma StrToIntLE_IntToStrLE [simp, codec_simps]:
  assumes "8 dvd LENGTH('a)"
  shows "StrToIntLE (IntToStrLE (v :: 'a::len word)) = v"
  using assms by (simp add: StrToIntLE_def) (simp add: IntToStrLE_def le_value_loop)

lemma le_value_append:
  "le_value (xs @ ys) = (le_value xs :: 'a::len word) OR push_bit (8 * length xs) (le_value ys)"
  by (induction xs) (auto simp: or.assoc push_bit_or push_bit_push_bit add.commute)

lemma StrToIntBE_loop_eq: "StrToIntBE_loop bs out = out OR le_value (rev bs)"
  by (induction bs arbitrary: out) (auto simp: le_value_append or.assoc or.commute or.left_commute)

lemma StrToIntBE_eq: "StrToIntBE bs = StrToIntLE (rev bs)"
  by (simp add: StrToIntBE_def StrToIntLE_def StrToIntBE_loop_eq)

lemma StrToIntBE_IntToStrBE [simp, codec_simps]:
  assumes "8 dvd LENGTH('a)"
  shows "StrToIntBE (IntToStrBE (v :: 'a::len word)) = v"
  using assms by (simp add: StrToIntBE_eq IntToStrBE_eq)

lemma IntToStrLE_loop_le_value:
  "length bs = n \<Longrightarrow> 8 * n \<le> LENGTH('a) \<Longrightarrow> IntToStrLE_loop n (le_value bs :: 'a::len word) = bs"
proof (induction n arbitrary: bs)
  case 0
  then show ?case by simp
next
  case (Suc n)
  then obtain b bs' where bs: "bs = b # bs'" "length bs' = n"
    by (cases bs) auto
  let ?v = "le_value bs' :: 'a word"
  have wide: "8 * Suc n \<le> LENGTH('a)" by fact
  have hd: "(ucast (take_bit 8 (ucast b OR push_bit 8 ?v)) :: byte) = b"
    using wide by (intro bit_eqI) (auto simp: bit_simps)
  have small: "take_bit (8 * n) ?v = ?v"
  proof -
    have "IntToStrLE_loop n ?v = bs'"
      using Suc bs by simp
    then show ?thesis
      using le_value_loop [of n ?v] wide by simp
  qed
  have "drop_bit 8 (ucast b OR push_bit 8 ?v) = ?v"
  proof (rule bit_eqI)
    fix k assume k: "possible_bit TYPE('a word) k"
    have "bit ?v k \<longrightarrow> k < 8 * n"
      using small by (metis bit_take_bit_iff)
    moreover have "k < LENGTH('a)" using k by simp
    moreover have "\<not> bit b (8 + k)" using bit_imp_le_length [of b "8 + k"] by auto
    ultimately show "bit (drop_bit 8 (ucast b OR push_bit 8 ?v)) k = bit ?v k"
      using wide by (auto simp: bit_simps)
  qed
  then show ?case
    using Suc bs hd by simp
qed

lemma IntToStrLE_StrToIntLE [codec_simps]:
  assumes "8 dvd LENGTH('a)" and "length bs = LENGTH('a) div 8"
  shows "IntToStrLE (StrToIntLE bs :: 'a::len word) = bs"
  using assms by (simp add: StrToIntLE_def IntToStrLE_def IntToStrLE_loop_le_value)

lemma IntToStrBE_StrToIntBE [codec_simps]:
  assumes "8 dvd LENGTH('a)" and "length bs = LENGTH('a) div 8"
  shows "IntToStrBE (StrToIntBE bs :: 'a::len word) = bs"
  using assms by (simp add: StrToIntBE_eq IntToStrBE_eq IntToStrLE_StrToIntLE)

section \<open>Indexing and slicing\<close>

text \<open>\<open>operator[]\<close> counts a negative index from the end.\<close>

definition byte_at :: "bytes \<Rightarrow> int \<Rightarrow> byte res" where
  "byte_at bs i =
     (let j = (if i < 0 then int (length bs) + i else i)
      in if 0 \<le> j \<and> j < int (length bs) then Inr (bs ! nat j) else Inl Undefined_Behaviour)"

text \<open>A comparison \<open>s[i] == b\<close> at an index that the preceding size tests put in range.\<close>

definition byte_is :: "bytes \<Rightarrow> int \<Rightarrow> byte \<Rightarrow> bool" where
  "byte_is bs i b \<longleftrightarrow> byte_at bs i = Inr b"

definition getSliceCopy :: "bytes \<Rightarrow> int \<Rightarrow> nat \<Rightarrow> bytes res" where
  "getSliceCopy bs start_pos nChar =
     (let start = (if start_pos < 0 then int (length bs) + start_pos else start_pos)
      in if sz_add (nat (start mod int size_t_mod)) nChar > length bs then Inr []
         else if start < 0 \<or> nat start + nChar > length bs then Inl Undefined_Behaviour
         else Inr (bslice (nat start) nChar bs))"

lemma getSliceCopy_in_range [simp]:
  assumes "i + n \<le> length bs" and "length bs < size_t_mod"
  shows "getSliceCopy bs (int i) n = Inr (bslice i n bs)"
proof -
  have "int i mod int size_t_mod = int i"
    using assms by simp
  then show ?thesis
    using assms by (simp add: getSliceCopy_def Let_def)
qed

section \<open>Byte order reversal\<close>

fun swap_loop :: "nat \<Rightarrow> nat \<Rightarrow> nat \<Rightarrow> nat \<Rightarrow> 'a list \<Rightarrow> 'a list" where
  "swap_loop 0 i pos1 pos2 data = data"
| "swap_loop (Suc n) i pos1 pos2 data =
     swap_loop n (Suc i) pos1 pos2
       (data[pos1 + i := data ! (pos2 - (i + 1)), pos2 - (i + 1) := data ! (pos1 + i)])"

definition swapEndian :: "bytes \<Rightarrow> nat \<Rightarrow> nat \<Rightarrow> bytes res" where
  "swapEndian data pos1 pos2' =
     (if data = [] then Inr data
      else let pos2 = (if pos2' \<le> pos1 then length data else pos2');
               totalBytes = sz_sub pos2 pos1
           in if totalBytes div 2 = 0 then Inr data
              else if pos2 > length data \<or> pos1 > pos2 then Inl Undefined_Behaviour
              else Inr (swap_loop (totalBytes div 2) 0 pos1 pos2 data))"

lemma length_swap_loop [simp]: "length (swap_loop n i p q xs) = length xs"
  by (induction n i p q xs rule: swap_loop.induct) auto

lemma swap_ends:
  assumes "j = length A" "k = length A + Suc (length M)"
  shows "(A @ x # M @ y # B)[j := (A @ x # M @ y # B) ! k, k := (A @ x # M @ y # B) ! j] = A @ y # M @ x # B"
  using assms by (simp add: nth_append list_update_append)

text \<open>The loop works inwards from both ends of the range, so what it leaves is the reversed range.\<close>

lemma swap_loop_middle:
  assumes "length A = p + i" and "length M = n + n + r" and "r < 2" and "q = p + i + length M + i"
  shows "swap_loop n i p q (A @ M @ B) = A @ rev M @ B"
  using assms
proof (induction n arbitrary: A M B i)
  case 0
  then have "rev M = M"
    by (cases M; cases "tl M") auto
  then show ?case by simp
next
  case (Suc n)
  then have two: "2 \<le> length M" by simp
  then obtain x N where N: "M = x # N"
    by (cases M) auto
  with two obtain M' y where M: "M = x # M' @ [y]"
    by (cases N rule: rev_cases) auto
  have k: "q - (i + 1) = length A + Suc (length M')" and j: "p + i = length A"
    using Suc.prems M by auto
  have "swap_loop (Suc n) i p q (A @ M @ B) = swap_loop n (Suc i) p q ((A @ [y]) @ M' @ x # B)"
    using swap_ends [OF j k, of x y B] M by (simp only: swap_loop.simps append_assoc append_Cons append_Nil)
  also have "\<dots> = (A @ [y]) @ rev M' @ x # B"
    using Suc.prems M by (intro Suc.IH) auto
  finally show ?case
    using M by simp
qed

lemma swap_loop_rev:
  assumes "q \<le> length xs" and "p \<le> q"
  shows "swap_loop ((q - p) div 2) 0 p q xs = take p xs @ rev (bslice p (q - p) xs) @ drop q xs"
proof -
  have halves: "m = m div 2 + m div 2 + m mod 2" for m :: nat
    by presburger
  have "drop q xs = drop (q - p) (drop p xs)"
    using assms by simp
  then have "xs = take p xs @ bslice p (q - p) xs @ drop q xs"
    by (simp only: bslice_def append_take_drop_id)
  moreover have "swap_loop ((q - p) div 2) 0 p q (take p xs @ bslice p (q - p) xs @ drop q xs) =
      take p xs @ rev (bslice p (q - p) xs) @ drop q xs"
    using assms halves [of "q - p"] by (intro swap_loop_middle [where r = "(q - p) mod 2"]) simp_all
  ultimately show ?thesis by simp
qed

lemma swapEndian_range:
  assumes "p < q" "q \<le> length bs" "length bs < size_t_mod"
  shows "swapEndian bs p q = Inr (take p bs @ rev (bslice p (q - p) bs) @ drop q bs)"
proof -
  have total: "sz_sub q p = q - p"
    using assms by simp
  have "swapEndian bs p q = Inr (swap_loop ((q - p) div 2) 0 p q bs)"
    using assms by (auto simp: swapEndian_def Let_def total)
  then show ?thesis
    using assms swap_loop_rev [of q bs p] by simp
qed

lemma swapEndian_all: "length bs < size_t_mod \<Longrightarrow> swapEndian bs 0 0 = Inr (rev bs)"
proof -
  assume small: "length bs < size_t_mod"
  then have total: "sz_sub (length bs) 0 = length bs"
    by simp
  have "swapEndian bs 0 0 = Inr (swap_loop (length bs div 2) 0 0 (length bs) bs)"
    by (auto simp: swapEndian_def Let_def total)
  then show ?thesis
    using swap_loop_rev [of "length bs" bs 0] by simp
qed

section \<open>Hexadecimal text\<close>

definition hexLookupTable :: bytes where
  "hexLookupTable = [48, 49, 50, 51, 52, 53, 54, 55, 56, 57, 97, 98, 99, 100, 101, 102]"

text \<open>\<open>binLookupTable\<close> maps the codes of \<open>0-9\<close>, \<open>A-F\<close> and \<open>a-f\<close> to their values, all others to 0.\<close>

definition binLookupTable :: "byte \<Rightarrow> byte" where
  "binLookupTable c =
     (if 48 \<le> c \<and> c \<le> 57 then c - 48
      else if 65 \<le> c \<and> c \<le> 70 then c - 55
      else if 97 \<le> c \<and> c \<le> 102 then c - 87
      else 0)"

fun hex_loop :: "bytes \<Rightarrow> bytes" where
  "hex_loop [] = []"
| "hex_loop (nextByte # bs) =
     hexLookupTable ! unat (drop_bit 4 nextByte AND 0x0F)
     # hexLookupTable ! unat (nextByte AND 0x0F)
     # hex_loop bs"

definition toHexStr :: "bytes \<Rightarrow> bool \<Rightarrow> bytes res" where
  "toHexStr bs bigEndian =
     (if bs = [] then Inr []
      else bind_res (if bigEndian then swapEndian bs 0 0 else Inr bs) (\<lambda>d. Inr (hex_loop d)))"

fun unhex_loop :: "bytes \<Rightarrow> bytes" where
  "unhex_loop (c1 # c2 # cs) =
     (push_bit 4 (binLookupTable c1) OR binLookupTable c2) # unhex_loop cs"
| "unhex_loop _ = []"

definition createFromHex :: "bytes \<Rightarrow> bytes res" where
  "createFromHex str =
     (if length str mod 2 \<noteq> 0 then Inl (Runtime_Error ''odd hexit count'')
      else Inr (unhex_loop str))"

lemma hex_digit_value:
  assumes "n < 16"
  shows "binLookupTable (hexLookupTable ! n) = of_nat n"
proof -
  from assms have "n \<in> {0, 1, 2, 3, 4, 5, 6, 7, 8, 9, 10, 11, 12, 13, 14, 15}"
    unfolding insert_iff empty_iff by presburger
  then show ?thesis
    by (elim insertE emptyE) (simp_all add: binLookupTable_def hexLookupTable_def)
qed

lemma and_0F: "x AND 0x0F = take_bit 4 (x :: byte)"
  by (simp add: take_bit_eq_mask mask_eq_exp_minus_1)

lemma hex_nibble_value:
  "binLookupTable (hexLookupTable ! unat (x AND 0x0F :: byte)) = take_bit 4 x"
proof -
  have "unat (take_bit 4 x) < 16"
    by (subst unsigned_take_bit_eq) (simp add: take_bit_eq_mod)
  then show ?thesis
    by (subst hex_digit_value) (simp_all add: and_0F)
qed

lemma nibbles: "push_bit 4 (take_bit 4 (drop_bit 4 b)) OR take_bit 4 b = (b :: byte)"
proof (rule bit_eqI)
  fix k assume "possible_bit TYPE(8 word) k"
  then have "k < 8" by simp
  then show "bit (push_bit 4 (take_bit 4 (drop_bit 4 b)) OR take_bit 4 b) k = bit b k"
    by (auto simp: bit_simps)
qed

lemma unhex_hex [codec_simps]: "unhex_loop (hex_loop bs) = bs"
  by (induction bs) (simp_all only: hex_loop.simps unhex_loop.simps hex_nibble_value nibbles)

lemma length_hex_loop [simp]: "length (hex_loop bs) = 2 * length bs"
  by (induction bs) auto

lemma createFromHex_toHexStr:
  assumes "length bs < size_t_mod"
  shows "bind_res (toHexStr bs e) createFromHex = Inr (if e then rev bs else bs)"
  using assms by (auto simp: toHexStr_def createFromHex_def swapEndian_all unhex_hex)

section \<open>Searching\<close>

fun match_loop :: "bytes \<Rightarrow> bytes \<Rightarrow> bool" where
  "match_loop [] ys = True"
| "match_loop (x # xs) [] = False"
| "match_loop (x # xs) (y # ys) = (if x \<noteq> y then False else match_loop xs ys)"

text \<open>The index and the bound are \<open>int32_t\<close>. A start position that reads as negative makes the
  first comparison read before the buffer.\<close>

function find_loop :: "bytes \<Rightarrow> bytes \<Rightarrow> int \<Rightarrow> int \<Rightarrow> int" where
  "find_loop bs matchStr i bound =
     (if i \<le> bound
      then if match_loop matchStr (drop (nat i) bs) then i else find_loop bs matchStr (i + 1) bound
      else -1)"
  by pat_completeness auto
termination
  by (relation "measure (\<lambda>(bs, m, i, bound). nat (bound + 1 - i))") auto

declare find_loop.simps [simp del]

definition to_int32 :: "nat \<Rightarrow> int" where
  "to_int32 n = sint (of_nat n :: u32)"

definition bd_find :: "bytes \<Rightarrow> bytes \<Rightarrow> nat \<Rightarrow> int res" where
  "bd_find bs matchStr startPos =
     (if matchStr = [] then Inr (to_int32 startPos)
      else let i = to_int32 startPos; bound = to_int32 (length bs) - to_int32 (length matchStr)
           in if i \<le> bound \<and> i < 0 then Inl Undefined_Behaviour
              else Inr (find_loop bs matchStr i bound))"

definition bd_contains :: "bytes \<Rightarrow> bytes \<Rightarrow> nat \<Rightarrow> bool res" where
  "bd_contains bs matchStr startPos =
     bind_res (bd_find bs matchStr startPos) (\<lambda>i. Inr (i \<noteq> -1))"

lemma to_int32_small [simp]: "n < 2 ^ 31 \<Longrightarrow> to_int32 n = int n"
  by (simp add: to_int32_def signed_of_nat signed_take_bit_int_eq_self)

lemma match_loop_iff: "match_loop xs ys \<longleftrightarrow> take (length xs) ys = xs"
  by (induction xs ys rule: match_loop.induct) auto

definition occurs_at :: "bytes \<Rightarrow> bytes \<Rightarrow> nat \<Rightarrow> bool" where
  "occurs_at bs m j \<longleftrightarrow> bslice j (length m) bs = m"

lemma occurs_at_bound: "occurs_at bs m j \<Longrightarrow> m \<noteq> [] \<Longrightarrow> j + length m \<le> length bs"
proof -
  assume "occurs_at bs m j" "m \<noteq> []"
  then have "min (length m) (length bs - j) = length m"
    by (metis length_bslice occurs_at_def)
  then show ?thesis
    using \<open>m \<noteq> []\<close> by (cases "j \<le> length bs") auto
qed

lemma find_loop_result:
  assumes "0 \<le> i" and "m \<noteq> []" and "bound = int (length bs) - int (length m)"
  shows "find_loop bs m i bound = -1 \<and> (\<forall>j \<ge> nat i. \<not> occurs_at bs m j) \<or>
     (\<exists>j. find_loop bs m i bound = int j \<and> nat i \<le> j \<and> occurs_at bs m j \<and>
        (\<forall>k. nat i \<le> k \<and> k < j \<longrightarrow> \<not> occurs_at bs m k))"
  using assms
proof (induction bs m i bound rule: find_loop.induct)
  case (1 bs m i bound)
  have occ: "match_loop m (drop (nat i) bs) = occurs_at bs m (nat i)"
    by (simp add: match_loop_iff occurs_at_def bslice_def)
  consider (stop) "\<not> i \<le> bound" | (here) "i \<le> bound" "occurs_at bs m (nat i)"
    | (step) "i \<le> bound" "\<not> occurs_at bs m (nat i)"
    by blast
  then show ?case
  proof cases
    case stop
    have "\<not> occurs_at bs m j" if "nat i \<le> j" for j
    proof
      assume "occurs_at bs m j"
      then have "int j + int (length m) \<le> int (length bs)"
        using occurs_at_bound [of bs m j] "1.prems" by linarith
      then show False
        using stop that "1.prems" by linarith
    qed
    with stop show ?thesis by (simp add: find_loop.simps [of bs m i bound])
  next
    case here
    then have "find_loop bs m i bound = int (nat i)"
      unfolding find_loop.simps [of bs m i bound] occ using "1.prems"(1) by simp
    with here show ?thesis by (intro disjI2 exI [of _ "nat i"]) auto
  next
    case step
    have eq: "find_loop bs m i bound = find_loop bs m (i + 1) bound"
      using step by (simp add: find_loop.simps [of bs m i bound] occ)
    have split: "nat i \<le> k \<longleftrightarrow> k = nat i \<or> nat (i + 1) \<le> k" for k
      using "1.prems"(1) by linarith
    have "find_loop bs m (i + 1) bound = -1 \<and> (\<forall>j \<ge> nat (i + 1). \<not> occurs_at bs m j) \<or>
     (\<exists>j. find_loop bs m (i + 1) bound = int j \<and> nat (i + 1) \<le> j \<and> occurs_at bs m j \<and>
        (\<forall>k. nat (i + 1) \<le> k \<and> k < j \<longrightarrow> \<not> occurs_at bs m k))"
      using step "1.prems" by (intro "1.IH") (auto simp: occ)
    then show ?thesis
      unfolding eq split using step(2) by auto
  qed
qed

definition startsWith :: "bytes \<Rightarrow> bytes \<Rightarrow> bool" where
  "startsWith bs matchStr =
     (if length matchStr > length bs then False else match_loop matchStr bs)"

definition endsWith :: "bytes \<Rightarrow> bytes \<Rightarrow> bool" where
  "endsWith bs matchStr =
     (if length matchStr > length bs then False else match_loop (rev matchStr) (rev bs))"

lemma startsWith_iff: "startsWith bs m \<longleftrightarrow> (\<exists>rest. bs = m @ rest)"
  by (auto simp: startsWith_def match_loop_iff) (metis append_take_drop_id)

lemma endsWith_iff: "endsWith bs m \<longleftrightarrow> (\<exists>front. bs = front @ m)"
proof -
  have "endsWith bs m \<longleftrightarrow> startsWith (rev bs) (rev m)"
    by (simp add: endsWith_def startsWith_def)
  also have "\<dots> \<longleftrightarrow> (\<exists>rest. rev bs = rev m @ rest)"
    by (rule startsWith_iff)
  also have "\<dots> \<longleftrightarrow> (\<exists>front. bs = front @ m)"
    by (metis rev_append rev_rev_ident)
  finally show ?thesis .
qed

fun isZero :: "bytes \<Rightarrow> bool" where
  "isZero [] = True"
| "isZero (b # bs) = (if b \<noteq> 0 then False else isZero bs)"

lemma isZero_iff: "isZero bs \<longleftrightarrow> set bs \<subseteq> {0}"
  by (induction bs) auto

section \<open>Comparison\<close>

text \<open>The first differing byte decides, then the sizes: \<open>operator<\<close> and \<open>operator>\<close>.\<close>

fun bd_less :: "bytes \<Rightarrow> bytes \<Rightarrow> bool" where
  "bd_less (x # xs) (y # ys) = (if x = y then bd_less xs ys else x < y)"
| "bd_less xs ys = (length xs < length ys)"

fun bd_greater :: "bytes \<Rightarrow> bytes \<Rightarrow> bool" where
  "bd_greater (x # xs) (y # ys) = (if x = y then bd_greater xs ys else x > y)"
| "bd_greater xs ys = (length xs > length ys)"

definition bd_equal :: "bytes \<Rightarrow> bytes \<Rightarrow> bool" where
  "bd_equal xs ys = (if length xs \<noteq> length ys then False else xs = ys)"

lemma bd_greater_iff: "bd_greater xs ys \<longleftrightarrow> bd_less ys xs"
  by (induction xs ys rule: bd_greater.induct) auto

lemma bd_less_irrefl: "\<not> bd_less xs xs"
  by (induction xs) auto

lemma bd_less_trans: "bd_less xs ys \<Longrightarrow> bd_less ys zs \<Longrightarrow> bd_less xs zs"
proof (induction xs ys arbitrary: zs rule: bd_less.induct)
  case (1 x xs y ys)
  then show ?case
    by (cases zs) (auto split: if_splits)
qed (auto elim: bd_less.elims)

lemma bd_less_total: "xs \<noteq> ys \<Longrightarrow> bd_less xs ys \<or> bd_less ys xs"
  by (induction xs ys rule: bd_less.induct) auto

interpretation bd: total_comparator bd_less
  by unfold_locales (fact bd_less_irrefl bd_less_trans bd_less_total)+

lemma bd_less_append: "bd_less (ps @ xs) (ps @ ys) = bd_less xs ys"
  by (induction ps) auto

text \<open>The number a byte string denotes, most significant byte first.\<close>

fun be_nat :: "bytes \<Rightarrow> nat" where
  "be_nat [] = 0"
| "be_nat (b # bs) = unat b * 256 ^ length bs + be_nat bs"

lemma be_nat_bound: "be_nat bs < 256 ^ length bs"
proof (induction bs)
  case (Cons b bs)
  have "unat b \<le> 255"
    using unat_bound [of b] by simp
  then have "unat b * 256 ^ length bs \<le> 255 * 256 ^ length bs"
    by (rule mult_le_mono1)
  then show ?case
    using Cons unfolding be_nat.simps length_Cons power_Suc by linarith
qed simp

lemma be_nat_append: "be_nat (xs @ ys) = be_nat xs * 256 ^ length ys + be_nat ys"
  by (induction xs) (auto simp: power_add algebra_simps)

lemma bd_less_be_nat: "length xs = length ys \<Longrightarrow> bd_less xs ys \<longleftrightarrow> be_nat xs < be_nat ys"
proof (induction xs ys rule: list_induct2)
  case (Cons x xs y ys)
  have gap: "unat a * n + k < unat b * n + l" if "a < b" "k < n" for a b :: byte and n k l :: nat
  proof -
    have "unat a * n + n \<le> unat b * n"
      using that(1) by (metis Suc_leI add.commute mult_Suc mult_le_mono1 word_less_nat_alt)
    then show ?thesis
      using that(2) by linarith
  qed
  have "be_nat xs < 256 ^ length ys" "be_nat ys < 256 ^ length ys"
    using be_nat_bound [of xs] be_nat_bound [of ys] Cons.hyps by auto
  then show ?case
    using Cons gap [of x y "be_nat xs" "256 ^ length ys" "be_nat ys"]
      gap [of y x "be_nat ys" "256 ^ length ys" "be_nat xs"]
    by (cases x y rule: linorder_cases) auto
qed simp

lemma be_nat_IntToStrLE_loop:
  "8 * n \<le> LENGTH('a) \<Longrightarrow> be_nat (rev (IntToStrLE_loop n (v :: 'a::len word))) = unat v mod 256 ^ n"
proof (induction n arbitrary: v)
  case (Suc n)
  have "unat (ucast (take_bit 8 v) :: byte) = unat v mod 256"
    using Suc.prems by (simp add: unsigned_ucast_eq unsigned_take_bit_eq min_def) (simp add: take_bit_eq_mod)
  moreover have "unat (drop_bit 8 v) = unat v div 256"
    by (simp add: unsigned_drop_bit_eq) (simp add: drop_bit_eq_div take_bit_nat_eq_self unat_bound)
  moreover have "unat v mod 256 ^ Suc n = 256 * (unat v div 256 mod 256 ^ n) + unat v mod 256"
    by (simp add: mod_mult2_eq mult.commute)
  ultimately show ?case
    using Suc by (simp add: be_nat_append)
qed simp

lemma be_nat_IntToStrBE:
  assumes "8 dvd LENGTH('a)"
  shows "be_nat (IntToStrBE (v :: 'a::len word)) = unat v"
proof -
  have "(256 :: nat) ^ (LENGTH('a) div 8) = 2 ^ LENGTH('a)"
    using assms power_mult [of "2 :: nat" 8 "LENGTH('a) div 8"] by simp
  then show ?thesis
    using assms unat_bound [of v] by (simp add: IntToStrBE_eq IntToStrLE_def be_nat_IntToStrLE_loop)
qed

lemma bd_less_IntToStrBE:
  assumes "8 dvd LENGTH('a)"
  shows "bd_less (IntToStrBE v) (IntToStrBE w) \<longleftrightarrow> (v :: 'a::len word) < w"
  by (simp add: bd_less_be_nat be_nat_IntToStrBE assms word_less_nat_alt)

section \<open>Properties\<close>

text \<open>
  C14: Hex output and input are inverse: \<open>createFromHex(toHexStr(b))\<close> is \<open>b\<close>, and its bytes reversed
  when the big-endian form was asked for.
\<close>

theorem hex_roundtrip:
  assumes "length bs < size_t_mod"
  shows "bind_res (toHexStr bs bigEndian) createFromHex = Inr (if bigEndian then rev bs else bs)"
  using assms by (rule createFromHex_toHexStr)

theorem hex_roundtrip_witness:
  "bind_res (toHexStr [0xde, 0xad, 0x01] True) createFromHex = Inr [0x01, 0xad, 0xde]"
  using hex_roundtrip [of "[0xde, 0xad, 0x01]" True] by simp

text \<open>
  C13: \<open>BinaryData::find\<close> returns the first position from the start position on at which the string
  occurs, and -1 exactly when it occurs nowhere; it never reads outside either string.
\<close>

theorem bd_find_first:
  assumes "matchStr \<noteq> []" "length bs < 2 ^ 31" "length matchStr < 2 ^ 31" "startPos < 2 ^ 31"
  shows "bd_find bs matchStr startPos = Inr (-1) \<and> (\<forall>j \<ge> startPos. \<not> occurs_at bs matchStr j) \<or>
     (\<exists>j. bd_find bs matchStr startPos = Inr (int j) \<and> startPos \<le> j \<and> occurs_at bs matchStr j \<and>
        (\<forall>k. startPos \<le> k \<and> k < j \<longrightarrow> \<not> occurs_at bs matchStr k))"
  using assms find_loop_result [of "int startPos" matchStr "int (length bs) - int (length matchStr)" bs]
  by (auto simp: bd_find_def Let_def)

theorem bd_find_first_witness:
  "\<exists>j. bd_find [1, 2, 1, 2, 3] [1, 2] 1 = Inr (int j) \<and> 1 \<le> j \<and> occurs_at [1, 2, 1, 2, 3] [1, 2] j"
  using bd_find_first [of "[1, 2]" "[1, 2, 1, 2, 3]" 1]
  by (auto simp: occurs_at_def bslice_def dest: spec [of _ 2])

end
