(* ===== verification/Transactional.thy ===== *)
theory Transactional
  imports Binary_Data
begin

text \<open>
  \<open>TransactionalMap\<close> and \<open>TransactionalSet\<close> (ThreadSafeClasses.h): copy-on-write containers. Writers
  hold the mutex and so run one after the other; each builds a new container object and publishes its
  pointer, and readers take the published pointer without a lock. The objects live in a store indexed by
  their allocation number, so that what a reader holds can be compared before and after later writes.
\<close>

section \<open>TransactionalMap\<close>

record ('k, 'v) tmap =
  tm_store :: "nat \<Rightarrow> ('k \<times> 'v) list"
  tm_map :: nat
  tm_next :: nat
  tm_count :: nat

definition tm_new :: "('k, 'v) tmap" where
  "tm_new = \<lparr>tm_store = (\<lambda>_. []), tm_map = 0, tm_next = 1, tm_count = 0\<rparr>"

definition tm_cur :: "('k, 'v) tmap \<Rightarrow> ('k \<times> 'v) list" where
  "tm_cur t = tm_store t (tm_map t)"

definition tm_publish :: "('k \<times> 'v) list \<Rightarrow> ('k, 'v) tmap \<Rightarrow> ('k, 'v) tmap" where
  "tm_publish newMap t =
     \<lparr>tm_store = (tm_store t)(tm_next t := newMap), tm_map = tm_next t, tm_next = tm_next t + 1,
      tm_count = length newMap\<rparr>"

definition tm_insert :: "('k \<Rightarrow> 'k \<Rightarrow> bool) \<Rightarrow> 'k \<Rightarrow> 'v \<Rightarrow> ('k, 'v) tmap \<Rightarrow> ('k, 'v) tmap" where
  "tm_insert lt k v t =
     (let newMap = map_insert_all lt (tm_cur t) []
      in tm_publish (map_insert lt k v newMap) t)"

text \<open>The new map starts as the update and takes from the old one only the keys it lacks.\<close>

definition updated_map :: "('k \<Rightarrow> 'k \<Rightarrow> bool) \<Rightarrow> ('k \<times> 'v) list \<Rightarrow> ('k \<times> 'v) list \<Rightarrow> ('k \<times> 'v) list" where
  "updated_map lt updatemap cur = (if updatemap = [] then cur else map_insert_all lt cur updatemap)"

definition tm_update :: "('k \<Rightarrow> 'k \<Rightarrow> bool) \<Rightarrow> ('k \<times> 'v) list \<Rightarrow> ('k, 'v) tmap \<Rightarrow> ('k, 'v) tmap" where
  "tm_update lt updatemap t =
     (if updatemap = [] then t else tm_publish (updated_map lt updatemap (tm_cur t)) t)"

definition tm_erase :: "('k \<Rightarrow> 'k \<Rightarrow> bool) \<Rightarrow> 'k \<Rightarrow> ('k, 'v) tmap \<Rightarrow> ('k, 'v) tmap" where
  "tm_erase lt k t =
     (if map_find lt k (tm_cur t) = None then t
      else let newMap = map_insert_all lt (tm_cur t) []
           in tm_publish (map_erase lt k newMap) t)"

fun erase_loop :: "('k \<Rightarrow> 'k \<Rightarrow> bool) \<Rightarrow> 'k list \<Rightarrow> ('k \<times> 'v) list \<Rightarrow> bool \<Rightarrow> ('k \<times> 'v) list \<times> bool" where
  "erase_loop lt [] newMap erased = (newMap, erased)"
| "erase_loop lt (k # ks) newMap erased =
     erase_loop lt ks (map_erase lt k newMap) (erased \<or> map_find lt k newMap \<noteq> None)"

definition tm_erase_all :: "('k \<Rightarrow> 'k \<Rightarrow> bool) \<Rightarrow> 'k list \<Rightarrow> ('k, 'v) tmap \<Rightarrow> ('k, 'v) tmap" where
  "tm_erase_all lt idVec t =
     (if idVec = [] then t
      else let (newMap, erased) = erase_loop lt idVec (map_insert_all lt (tm_cur t) []) False
           in if erased then tm_publish newMap t else t\<lparr>tm_count := length (tm_cur t)\<rparr>)"

definition tm_pop_all :: "('k, 'v) tmap \<Rightarrow> nat \<times> ('k, 'v) tmap" where
  "tm_pop_all t = (tm_map t, tm_publish [] t)"

definition tm_get :: "('k, 'v) tmap \<Rightarrow> nat" where
  "tm_get t = tm_map t"

definition tm_clear :: "('k, 'v) tmap \<Rightarrow> ('k, 'v) tmap" where
  "tm_clear t = tm_publish [] t"

definition tm_size :: "('k, 'v) tmap \<Rightarrow> nat" where
  "tm_size t = tm_count t"

datatype ('k, 'v) tm_op =
    Tm_insert 'k 'v
  | Tm_update "('k \<times> 'v) list"
  | Tm_erase 'k
  | Tm_erase_all "'k list"
  | Tm_pop_all
  | Tm_clear

fun tm_step :: "('k \<Rightarrow> 'k \<Rightarrow> bool) \<Rightarrow> ('k, 'v) tm_op \<Rightarrow> ('k, 'v) tmap \<Rightarrow> ('k, 'v) tmap" where
  "tm_step lt (Tm_insert k v) t = tm_insert lt k v t"
| "tm_step lt (Tm_update m) t = tm_update lt m t"
| "tm_step lt (Tm_erase k) t = tm_erase lt k t"
| "tm_step lt (Tm_erase_all ks) t = tm_erase_all lt ks t"
| "tm_step lt Tm_pop_all t = snd (tm_pop_all t)"
| "tm_step lt Tm_clear t = tm_clear t"

text \<open>What each writer does to the mapping from keys to values.\<close>

fun map_spec :: "('k, 'v) tm_op \<Rightarrow> ('k \<rightharpoonup> 'v) \<Rightarrow> ('k \<rightharpoonup> 'v)" where
  "map_spec (Tm_insert k v) m = (if m k = None then m(k \<mapsto> v) else m)"
| "map_spec (Tm_update u) m = m ++ map_of u"
| "map_spec (Tm_erase k) m = m(k := None)"
| "map_spec (Tm_erase_all ks) m = (\<lambda>k. if k \<in> set ks then None else m k)"
| "map_spec Tm_pop_all m = Map.empty"
| "map_spec Tm_clear m = Map.empty"

section \<open>TransactionalSet\<close>

record 'k tset =
  ts_store :: "nat \<Rightarrow> 'k list"
  ts_set :: nat
  ts_next :: nat
  ts_count :: nat

definition ts_new :: "'k tset" where
  "ts_new = \<lparr>ts_store = (\<lambda>_. []), ts_set = 0, ts_next = 1, ts_count = 0\<rparr>"

definition ts_cur :: "'k tset \<Rightarrow> 'k list" where
  "ts_cur t = ts_store t (ts_set t)"

definition ts_publish :: "'k list \<Rightarrow> 'k tset \<Rightarrow> 'k tset" where
  "ts_publish newSet t =
     \<lparr>ts_store = (ts_store t)(ts_next t := newSet), ts_set = ts_next t, ts_next = ts_next t + 1,
      ts_count = length newSet\<rparr>"

definition ts_insert :: "('k \<Rightarrow> 'k \<Rightarrow> bool) \<Rightarrow> 'k \<Rightarrow> 'k tset \<Rightarrow> 'k tset" where
  "ts_insert lt x t = ts_publish (set_insert lt x (set_insert_all lt (ts_cur t) [])) t"

definition ts_insert_set :: "('k \<Rightarrow> 'k \<Rightarrow> bool) \<Rightarrow> 'k list \<Rightarrow> 'k tset \<Rightarrow> 'k tset" where
  "ts_insert_set lt dataSet t =
     (if dataSet = [] then t
      else ts_publish (set_insert_all lt dataSet (set_insert_all lt (ts_cur t) [])) t)"

definition ts_erase :: "('k \<Rightarrow> 'k \<Rightarrow> bool) \<Rightarrow> 'k \<Rightarrow> 'k tset \<Rightarrow> 'k tset" where
  "ts_erase lt x t =
     (if set_find lt x (ts_cur t) = None then t
      else ts_publish (set_erase lt x (set_insert_all lt (ts_cur t) [])) t)"

fun set_erase_loop :: "('k \<Rightarrow> 'k \<Rightarrow> bool) \<Rightarrow> 'k list \<Rightarrow> 'k list \<Rightarrow> bool \<Rightarrow> 'k list \<times> bool" where
  "set_erase_loop lt [] newSet erased = (newSet, erased)"
| "set_erase_loop lt (x # xs) newSet erased =
     set_erase_loop lt xs (set_erase lt x newSet) (erased \<or> set_find lt x newSet \<noteq> None)"

definition ts_erase_all :: "('k \<Rightarrow> 'k \<Rightarrow> bool) \<Rightarrow> 'k list \<Rightarrow> 'k tset \<Rightarrow> 'k tset" where
  "ts_erase_all lt idVec t =
     (if idVec = [] then t
      else let (newSet, erased) = set_erase_loop lt idVec (set_insert_all lt (ts_cur t) []) False
           in if erased then ts_publish newSet t else t\<lparr>ts_count := length (ts_cur t)\<rparr>)"

definition ts_pop_all :: "'k tset \<Rightarrow> nat \<times> 'k tset" where
  "ts_pop_all t = (ts_set t, ts_publish [] t)"

definition ts_get :: "'k tset \<Rightarrow> nat" where
  "ts_get s = ts_set s"

definition ts_size :: "'k tset \<Rightarrow> nat" where
  "ts_size s = ts_count s"

definition ts_clear :: "'k tset \<Rightarrow> 'k tset" where
  "ts_clear t = ts_publish [] t"

datatype 'k ts_op =
    Ts_insert 'k
  | Ts_insert_set "'k list"
  | Ts_erase 'k
  | Ts_erase_all "'k list"
  | Ts_pop_all
  | Ts_clear

fun ts_step :: "('k \<Rightarrow> 'k \<Rightarrow> bool) \<Rightarrow> 'k ts_op \<Rightarrow> 'k tset \<Rightarrow> 'k tset" where
  "ts_step lt (Ts_insert x) t = ts_insert lt x t"
| "ts_step lt (Ts_insert_set xs) t = ts_insert_set lt xs t"
| "ts_step lt (Ts_erase x) t = ts_erase lt x t"
| "ts_step lt (Ts_erase_all xs) t = ts_erase_all lt xs t"
| "ts_step lt Ts_pop_all t = snd (ts_pop_all t)"
| "ts_step lt Ts_clear t = ts_clear t"

fun set_spec :: "'k ts_op \<Rightarrow> 'k set \<Rightarrow> 'k set" where
  "set_spec (Ts_insert x) s = insert x s"
| "set_spec (Ts_insert_set xs) s = s \<union> set xs"
| "set_spec (Ts_erase x) s = s - {x}"
| "set_spec (Ts_erase_all xs) s = s - set xs"
| "set_spec Ts_pop_all s = {}"
| "set_spec Ts_clear s = {}"

section \<open>A container object with one writer at a time\<close>

text \<open>
  The contract both containers meet: an invariant every operation keeps, a simulation of the abstract
  operation, and the published objects: an operation only writes to objects that were not yet handed out.
\<close>

locale published_store =
  fixes step :: "'op \<Rightarrow> 's \<Rightarrow> 's"
    and inv :: "'s \<Rightarrow> bool"
    and abs :: "'s \<Rightarrow> 'a"
    and spec :: "'op \<Rightarrow> 'a \<Rightarrow> 'a"
    and op_ok :: "'op \<Rightarrow> bool"
    and obj :: "'s \<Rightarrow> nat \<Rightarrow> 'o"
    and allocated :: "'s \<Rightarrow> nat"
  assumes step_inv: "inv s \<Longrightarrow> op_ok op \<Longrightarrow> inv (step op s)"
    and step_abs: "inv s \<Longrightarrow> op_ok op \<Longrightarrow> abs (step op s) = spec op (abs s)"
    and step_obj: "i < allocated s \<Longrightarrow> obj (step op s) i = obj s i"
    and step_alloc: "allocated s \<le> allocated (step op s)"
begin

lemma run_inv: "inv s \<Longrightarrow> list_all op_ok ops \<Longrightarrow> inv (fold step ops s)"
  by (induction ops arbitrary: s) (auto simp: step_inv)

lemma run_abs: "inv s \<Longrightarrow> list_all op_ok ops \<Longrightarrow> abs (fold step ops s) = fold spec ops (abs s)"
  by (induction ops arbitrary: s) (auto simp: step_inv step_abs)

lemma run_obj: "i < allocated s \<Longrightarrow> obj (fold step ops s) i = obj s i"
proof (induction ops arbitrary: s)
  case (Cons op ops)
  then show ?case
    using step_obj [of i s op] step_alloc [of s op] by simp
qed simp

end

context total_comparator
begin

definition tm_inv :: "('k, 'v) tmap \<Rightarrow> bool" where
  "tm_inv t \<longleftrightarrow> tm_map t < tm_next t \<and> map_wf (tm_cur t) \<and> tm_count t = length (tm_cur t)"

definition tm_abs :: "('k, 'v) tmap \<Rightarrow> ('k \<rightharpoonup> 'v)" where
  "tm_abs t = (\<lambda>k. map_find lt k (tm_cur t))"

fun tm_op_ok :: "('k, 'v) tm_op \<Rightarrow> bool" where
  "tm_op_ok (Tm_update m) = map_wf m"
| "tm_op_ok _ = True"

lemma tm_cur_publish [simp]: "tm_cur (tm_publish m t) = m"
  by (simp add: tm_cur_def tm_publish_def)

lemma tm_inv_publish [simp]: "tm_inv (tm_publish m t) \<longleftrightarrow> map_wf m"
  by (simp add: tm_inv_def) (simp add: tm_publish_def)

lemma erase_loop_wf: "map_wf m \<Longrightarrow> map_wf (fst (erase_loop lt ks m b))"
  by (induction ks arbitrary: m b) (auto simp: map_erase_wf)

lemma erase_loop_find:
  "map_wf m \<Longrightarrow> map_find lt j (fst (erase_loop lt ks m b)) = (if j \<in> set ks then None else map_find lt j m)"
  by (induction ks arbitrary: m b) (auto simp: map_erase_wf map_find_erase)

lemma erase_loop_False:
  "map_wf m \<Longrightarrow> \<not> snd (erase_loop lt ks m b) \<Longrightarrow> \<not> b \<and> (\<forall>k \<in> set ks. map_find lt k m = None)"
proof (induction ks arbitrary: m b)
  case (Cons k ks)
  then have "\<not> b \<and> map_find lt k m = None \<and> (\<forall>j \<in> set ks. map_find lt j (map_erase lt k m) = None)"
    using map_erase_wf [of m k] by fastforce
  then show ?case
    using Cons.prems by (auto simp: map_find_erase split: if_splits)
qed simp

lemma tm_step_inv: "tm_inv t \<Longrightarrow> tm_op_ok op \<Longrightarrow> tm_inv (tm_step lt op t)"
proof (cases op)
  case (Tm_erase_all ks)
  assume inv: "tm_inv t"
  have "map_wf (fst (erase_loop lt ks (map_insert_all lt (tm_cur t) []) False))"
    by (intro erase_loop_wf map_insert_all_wf) simp
  then show ?thesis
    using inv by (auto simp: Tm_erase_all tm_erase_all_def split: prod.splits)
      (simp_all add: tm_inv_def tm_cur_def)
qed (auto simp: tm_insert_def tm_update_def updated_map_def tm_erase_def tm_pop_all_def tm_clear_def
    Let_def map_wf_intros)

lemma tm_step_abs: "tm_inv t \<Longrightarrow> tm_op_ok op \<Longrightarrow> tm_abs (tm_step lt op t) = map_spec op (tm_abs t)"
proof (cases op)
  case (Tm_erase_all ks)
  assume "tm_inv t"
  then have wf: "map_wf (tm_cur t)" by (simp add: tm_inv_def)
  let ?m = "map_insert_all lt (tm_cur t) []"
  have m: "map_wf ?m" by (intro map_insert_all_wf) simp
  have find: "map_find lt k ?m = map_find lt k (tm_cur t)" for k
    by (rule map_insert_all_Nil [OF wf])
  have keep: "tm_cur (t\<lparr>tm_count := n\<rparr>) = tm_cur t" for n
    by (simp add: tm_cur_def)
  show ?thesis
    using erase_loop_find [OF m, of _ ks False] erase_loop_False [OF m, of ks False]
    by (auto simp: Tm_erase_all tm_erase_all_def tm_abs_def find keep fun_eq_iff split: prod.splits)
next
  case (Tm_update u)
  assume "tm_inv t" "tm_op_ok op"
  then show ?thesis
    by (auto simp: Tm_update tm_update_def updated_map_def tm_abs_def tm_inv_def map_find_insert_all
        map_add_def map_find_map_of fun_eq_iff split: option.splits)
next
  case (Tm_insert k v)
  assume "tm_inv t"
  then have wf: "map_wf (tm_cur t)" by (simp add: tm_inv_def)
  have m: "map_wf (map_insert_all lt (tm_cur t) [])" by (intro map_insert_all_wf) simp
  show ?thesis
    by (auto simp: Tm_insert tm_insert_def tm_abs_def map_find_insert [OF m] map_insert_all_Nil [OF wf] fun_eq_iff)
next
  case (Tm_erase k)
  assume "tm_inv t"
  then have wf: "map_wf (tm_cur t)" by (simp add: tm_inv_def)
  have m: "map_wf (map_insert_all lt (tm_cur t) [])" by (intro map_insert_all_wf) simp
  show ?thesis
    by (auto simp: Tm_erase tm_erase_def tm_abs_def map_find_erase [OF m] map_insert_all_Nil [OF wf] Let_def fun_eq_iff)
qed (auto simp: tm_pop_all_def tm_clear_def tm_abs_def)

lemma tm_step_obj: "i < tm_next t \<Longrightarrow> tm_store (tm_step lt op t) i = tm_store t i"
  by (cases op) (auto simp: tm_insert_def tm_update_def tm_erase_def tm_erase_all_def tm_pop_all_def
      tm_clear_def tm_publish_def Let_def split: prod.splits)

lemma tm_step_alloc: "tm_next t \<le> tm_next (tm_step lt op t)"
  by (cases op) (auto simp: tm_insert_def tm_update_def tm_erase_def tm_erase_all_def tm_pop_all_def
      tm_clear_def tm_publish_def Let_def split: prod.splits)

definition ts_inv :: "'k tset \<Rightarrow> bool" where
  "ts_inv t \<longleftrightarrow> ts_set t < ts_next t \<and> sorted_wrt lt (ts_cur t) \<and> ts_count t = length (ts_cur t)"

definition ts_abs :: "'k tset \<Rightarrow> 'k set" where
  "ts_abs t = set (ts_cur t)"

fun ts_op_ok :: "'k ts_op \<Rightarrow> bool" where
  "ts_op_ok (Ts_insert_set xs) = sorted_wrt lt xs"
| "ts_op_ok _ = True"

lemma ts_cur_publish [simp]: "ts_cur (ts_publish m t) = m"
  by (simp add: ts_cur_def ts_publish_def)

lemma ts_inv_publish [simp]: "ts_inv (ts_publish m t) \<longleftrightarrow> sorted_wrt lt m"
  by (simp add: ts_inv_def) (simp add: ts_publish_def)

lemma set_erase_loop_result:
  "sorted_wrt lt m \<Longrightarrow> sorted_wrt lt (fst (set_erase_loop lt xs m b)) \<and>
     set (fst (set_erase_loop lt xs m b)) = set m - set xs \<and>
     (snd (set_erase_loop lt xs m b) \<or> set m \<inter> set xs = {})"
proof (induction xs arbitrary: m b)
  case (Cons x xs)
  note IH = Cons.IH [OF set_erase_sorted [OF Cons.prems], of x "b \<or> set_find lt x m \<noteq> None"]
  have "snd (set_erase_loop lt xs m' True)" for m'
    by (induction xs arbitrary: m') auto
  then show ?case
    using IH Cons.prems by (auto simp: set_set_erase set_find_iff)
qed simp

lemma sorted_copy: "sorted_wrt lt (set_insert_all lt xs [])"
  by (intro set_insert_all_sorted) simp

lemma ts_step_inv: "ts_inv t \<Longrightarrow> ts_op_ok op \<Longrightarrow> ts_inv (ts_step lt op t)"
proof (cases op)
  case (Ts_erase_all xs)
  assume inv: "ts_inv t"
  then show ?thesis
    using set_erase_loop_result [OF sorted_copy, of xs "ts_cur t" False]
    by (auto simp: Ts_erase_all ts_erase_all_def split: prod.splits) (simp_all add: ts_inv_def ts_cur_def)
qed (auto simp: ts_insert_def ts_insert_set_def ts_erase_def ts_pop_all_def ts_clear_def
    intro!: set_insert_sorted set_insert_all_sorted set_erase_sorted sorted_copy)

lemma ts_step_abs:
  assumes "ts_inv t"
  shows "ts_abs (ts_step lt op t) = set_spec op (ts_abs t)"
proof (cases op)
  case (Ts_erase_all xs)
  have keep: "ts_cur (t\<lparr>ts_count := n\<rparr>) = ts_cur t" for n
    by (simp add: ts_cur_def)
  obtain m e where m: "set_erase_loop lt xs (set_insert_all lt (ts_cur t) []) False = (m, e)"
    by force
  then have "set m = set (ts_cur t) - set xs" "e \<or> set (ts_cur t) \<inter> set xs = {}"
    using set_erase_loop_result [OF sorted_copy, of xs "ts_cur t" False] by (simp_all add: set_set_insert_all)
  then show ?thesis
    by (auto simp: Ts_erase_all ts_erase_all_def ts_abs_def keep m)
next
  case (Ts_erase x)
  then show ?thesis
    using assms by (simp add: ts_erase_def ts_abs_def ts_inv_def set_find_iff set_set_erase sorted_copy
        set_set_insert_all)
qed (simp_all add: ts_insert_def ts_insert_set_def ts_pop_all_def ts_clear_def ts_abs_def set_set_insert
    set_set_insert_all Un_commute)

lemma ts_step_obj: "i < ts_next t \<Longrightarrow> ts_store (ts_step lt op t) i = ts_store t i"
  by (cases op) (auto simp: ts_insert_def ts_insert_set_def ts_erase_def ts_erase_all_def ts_pop_all_def
      ts_clear_def ts_publish_def Let_def split: prod.splits)

lemma ts_step_alloc: "ts_next t \<le> ts_next (ts_step lt op t)"
  by (cases op) (auto simp: ts_insert_def ts_insert_set_def ts_erase_def ts_erase_all_def ts_pop_all_def
      ts_clear_def ts_publish_def Let_def split: prod.splits)

end

interpretation linorder_lt: total_comparator "(<) :: 'k::linorder \<Rightarrow> 'k \<Rightarrow> bool"
  by unfold_locales auto

interpretation bd_tm: published_store "tm_step bd_less" bd.tm_inv bd.tm_abs map_spec bd.tm_op_ok tm_store tm_next
  by unfold_locales (simp_all add: bd.tm_step_inv bd.tm_step_abs bd.tm_step_obj bd.tm_step_alloc)

interpretation bd_ts: published_store "ts_step bd_less" bd.ts_inv bd.ts_abs set_spec bd.ts_op_ok ts_store ts_next
  by unfold_locales (simp_all add: bd.ts_step_inv bd.ts_step_abs bd.ts_step_obj bd.ts_step_alloc)

section \<open>Properties\<close>

text \<open>
  C6: \<open>TransactionalMap\<close> refines a mapping: after any sequence of writes the published map holds exactly
  what the sequence of abstract operations gives (\<open>insert\<close> keeps an existing entry, \<open>update\<close> overwrites it),
  and \<open>size\<close> is the number of its keys.
\<close>

theorem transactional_map_refines:
  assumes "list_all bd.tm_op_ok ops"
  shows "(\<lambda>k. map_find bd_less k (tm_cur (fold (tm_step bd_less) ops (tm_new :: (bytes, 'v) tmap)))) =
       fold map_spec ops Map.empty \<and>
     tm_size (fold (tm_step bd_less) ops tm_new) = card (dom (fold map_spec ops Map.empty))"
proof -
  have new: "bd.tm_inv (tm_new :: (bytes, 'v) tmap)" "bd.tm_abs (tm_new :: (bytes, 'v) tmap) = Map.empty"
    by (simp_all add: bd.tm_inv_def bd.tm_abs_def tm_new_def tm_cur_def)
  let ?t = "fold (tm_step bd_less) ops (tm_new :: (bytes, 'v) tmap)"
  have inv: "bd.tm_inv ?t" and eq: "bd.tm_abs ?t = fold map_spec ops Map.empty"
    using bd_tm.run_inv [OF new(1) assms] bd_tm.run_abs [OF new(1) assms] new(2) by simp_all
  then show ?thesis
    using bd.card_dom_map_find [of "tm_cur ?t"] by (auto simp: bd.tm_abs_def bd.tm_inv_def tm_size_def)
qed

theorem transactional_map_refines_witness:
  "(\<lambda>k. map_find bd_less k (tm_cur (fold (tm_step bd_less)
      [Tm_insert [1] (10 :: nat), Tm_update [([1], 11), ([2], 12)], Tm_erase_all [[2], [3]]] tm_new))) =
     fold map_spec [Tm_insert [1] 10, Tm_update [([1], 11), ([2], 12)], Tm_erase_all [[2], [3]]] Map.empty"
  using transactional_map_refines [of "[Tm_insert [1] (10 :: nat), Tm_update [([1], 11), ([2], 12)], Tm_erase_all [[2], [3]]]"]
  by (simp del: fold.simps)

text \<open>
  C7: Snapshot isolation of \<open>TransactionalMap\<close>: the map a reader got from \<open>get\<close> (or \<open>pop_all\<close>) is not
  changed by any sequence of later writes.
\<close>

theorem snapshot_isolation:
  assumes "list_all bd.tm_op_ok before"
  shows "tm_store (fold (tm_step bd_less) later (fold (tm_step bd_less) before tm_new))
       (tm_get (fold (tm_step bd_less) before tm_new)) =
     tm_cur (fold (tm_step bd_less) before (tm_new :: (bytes, 'v) tmap))"
proof -
  let ?t = "fold (tm_step bd_less) before (tm_new :: (bytes, 'v) tmap)"
  have "bd.tm_inv (tm_new :: (bytes, 'v) tmap)"
    by (simp add: bd.tm_inv_def tm_new_def tm_cur_def)
  then have "tm_map ?t < tm_next ?t"
    using bd_tm.run_inv [OF _ assms] by (auto simp: bd.tm_inv_def)
  then show ?thesis
    using bd_tm.run_obj [of "tm_map ?t" ?t later] by (simp add: tm_get_def tm_cur_def)
qed

theorem snapshot_isolation_witness:
  "tm_store (fold (tm_step bd_less) [Tm_clear, Tm_insert [2] 20] (fold (tm_step bd_less) [Tm_insert [1] (10 :: nat)] tm_new))
       (tm_get (fold (tm_step bd_less) [Tm_insert [1] (10 :: nat)] tm_new)) = [([1], 10)]"
  using snapshot_isolation [of "[Tm_insert [1] (10 :: nat)]" "[Tm_clear, Tm_insert [2] 20]"]
  by (simp add: tm_insert_def tm_publish_def tm_cur_def tm_new_def map_insert_all_def)

text \<open>
  C8: \<open>TransactionalSet\<close> refines a set: after any sequence of writes the published object holds exactly the
  elements the abstract operations give, each once and in ascending order, and the count is their number.
\<close>

theorem transactional_set_refines:
  assumes "list_all bd.ts_op_ok ops"
  shows "set (ts_cur (fold (ts_step bd_less) ops ts_new)) = fold set_spec ops {} \<and>
     sorted_wrt bd_less (ts_cur (fold (ts_step bd_less) ops ts_new)) \<and>
     ts_count (fold (ts_step bd_less) ops ts_new) = card (fold set_spec ops {})"
proof -
  have new: "bd.ts_inv ts_new" "bd.ts_abs ts_new = {}"
    by (simp_all add: bd.ts_inv_def bd.ts_abs_def ts_new_def ts_cur_def)
  let ?t = "fold (ts_step bd_less) ops ts_new"
  have inv: "bd.ts_inv ?t" and eq: "bd.ts_abs ?t = fold set_spec ops {}"
    using bd_ts.run_inv [OF new(1) assms] bd_ts.run_abs [OF new(1) assms] new(2) by simp_all
  then show ?thesis
    using bd.sorted_distinct [of "ts_cur ?t"] distinct_card [of "ts_cur ?t"]
    by (auto simp: bd.ts_abs_def bd.ts_inv_def)
qed

theorem transactional_set_refines_witness:
  "set (ts_cur (fold (ts_step bd_less) [Ts_insert [3], Ts_insert_set [[1], [3]], Ts_erase [3]] ts_new)) = {[1]}"
  using transactional_set_refines [of "[Ts_insert [3], Ts_insert_set [[1], [3]], Ts_erase [3]]"] by (simp add: insert_Diff_if)

end
