(* ===== verification/Ieee_Double.thy ===== *)
theory Ieee_Double
  imports Binary_Data Complex_Main
begin

text \<open>
  The non-negative IEEE-754 binary64 arithmetic behind the \<open>double\<close> difficulties: a value is a rational
  or infinity, and every operation rounds the exact result to the nearest multiple of the quantum of its
  binade (53 significant bits, subnormals below \<open>2^-1022\<close>), ties to even. Then
  \<open>BtcUtils::convertDiffBitsToDouble\<close>.
\<close>

section \<open>Rounding\<close>

definition round_even :: "rat \<Rightarrow> int" where
  "round_even x =
     (let f = \<lfloor>x\<rfloor>; r = x - of_int f
      in if r < 1 / 2 then f else if r > 1 / 2 then f + 1 else if even f then f else f + 1)"

fun bit_count :: "nat \<Rightarrow> nat" where
  "bit_count n = (if n = 0 then 0 else Suc (bit_count (n div 2)))"

declare bit_count.simps [simp del]

definition binade :: "rat \<Rightarrow> int" where
  "binade x =
     (let (a, b) = quotient_of x; t = int (bit_count (nat a)) - int (bit_count (nat b))
      in if 2 powi t \<le> x then t else t - 1)"

definition quantum :: "rat \<Rightarrow> rat" where
  "quantum x = 2 powi (max (binade x - 52) (- 1074))"

definition round_double :: "rat \<Rightarrow> rat" where
  "round_double x = (if x \<le> 0 then 0 else of_int (round_even (x / quantum x)) * quantum x)"

lemma round_even_bounds: "\<lfloor>x\<rfloor> \<le> round_even x" "round_even x \<le> \<lfloor>x\<rfloor> + 1"
  by (auto simp: round_even_def Let_def)

lemma round_even_mono: "x \<le> y \<Longrightarrow> round_even x \<le> round_even y"
proof (cases "\<lfloor>x\<rfloor> = \<lfloor>y\<rfloor>")
  case True
  assume "x \<le> y"
  with True show ?thesis
    by (auto simp: round_even_def Let_def)
next
  case False
  assume "x \<le> y"
  then have "\<lfloor>x\<rfloor> + 1 \<le> \<lfloor>y\<rfloor>"
    using False floor_mono by fastforce
  then show ?thesis
    using round_even_bounds [of x] round_even_bounds [of y] by linarith
qed

lemma round_even_of_int [simp]: "round_even (of_int i) = i"
  by (simp add: round_even_def)

lemma round_even_0 [simp]: "round_even 0 = 0"
  using round_even_of_int [of 0] by simp

lemma bit_count_bounds: "0 < n \<Longrightarrow> 2 ^ (bit_count n - 1) \<le> n \<and> n < 2 ^ bit_count n \<and> 0 < bit_count n"
proof (induction n rule: bit_count.induct)
  case (1 n)
  show ?case
  proof (cases "n div 2 = 0")
    case True
    then have "n = 1" using 1(2) by linarith
    then show ?thesis by (simp add: bit_count.simps)
  next
    case False
    then have IH: "2 ^ (bit_count (n div 2) - 1) \<le> n div 2" "n div 2 < 2 ^ bit_count (n div 2)" "0 < bit_count (n div 2)"
      using 1 by auto
    obtain k where k: "bit_count (n div 2) = Suc k"
      using IH(3) by (cases "bit_count (n div 2)") auto
    have "bit_count n = Suc (Suc k)"
      using 1(2) k by (simp add: bit_count.simps [of n])
    then show ?thesis
      using IH unfolding k by auto
  qed
qed

lemma bit_count_rat:
  assumes "0 < i"
  shows "2 powi (int (bit_count (nat i)) - 1) \<le> (of_int i :: rat)"
    and "(of_int i :: rat) < 2 powi int (bit_count (nat i))"
proof -
  let ?n = "nat i" and ?k = "bit_count (nat i)"
  have b: "2 ^ (?k - 1) \<le> ?n" "?n < 2 ^ ?k" "0 < ?k"
    using bit_count_bounds [of ?n] assms by simp_all
  have i: "(of_int i :: rat) = of_nat ?n"
    using assms by simp
  have "int ?k - 1 = int (?k - 1)"
    using b(3) by simp
  then have "2 powi (int ?k - 1) = (of_nat (2 ^ (?k - 1)) :: rat)"
    by (simp only: power_int_of_nat of_nat_power of_nat_numeral)
  then show "2 powi (int ?k - 1) \<le> (of_int i :: rat)"
    unfolding i using b(1) by (simp only: of_nat_le_iff)
  have "2 powi int ?k = (of_nat (2 ^ ?k) :: rat)"
    by (simp only: power_int_of_nat of_nat_power of_nat_numeral)
  then show "(of_int i :: rat) < 2 powi int ?k"
    unfolding i using b(2) by (simp only: of_nat_less_iff)
qed

lemma binade_bounds:
  assumes "0 < x"
  shows "2 powi binade x \<le> x" and "x < 2 powi (binade x + 1)"
proof -
  obtain a b where ab: "quotient_of x = (a, b)" by force
  have b: "0 < b" and x: "x = of_int a / of_int b"
    using ab quotient_of_denom_pos quotient_of_div by blast+
  have a: "0 < a"
    using assms b x by (simp add: zero_less_divide_iff)
  let ?t = "int (bit_count (nat a)) - int (bit_count (nat b))"
  note A = bit_count_rat [OF a] and B = bit_count_rat [OF b]
  have "2 powi (?t - 1) = 2 powi (int (bit_count (nat a)) - 1) / (2 powi int (bit_count (nat b)) :: rat)"
    by (simp add: power_int_diff)
  also have "\<dots> < x"
    unfolding x using A(1) B(2) a b by (intro frac_less2) auto
  finally have 1: "2 powi (?t - 1) < x" .
  have "x < 2 powi int (bit_count (nat a)) / 2 powi (int (bit_count (nat b)) - 1)"
    unfolding x using A(2) B(1) a b by (intro frac_less) auto
  also have "\<dots> = 2 powi (?t + 1)"
    by (simp add: power_int_diff power_int_add)
  finally have 2: "x < 2 powi (?t + 1)" .
  show "2 powi binade x \<le> x" "x < 2 powi (binade x + 1)"
    using 1 2 by (auto simp: binade_def ab Let_def)
qed

lemma powi_mono: "i \<le> j \<Longrightarrow> (2 :: rat) powi i \<le> 2 powi j"
  by (rule power_int_increasing) auto

lemma binade_mono:
  assumes "0 < x" "x \<le> y"
  shows "binade x \<le> binade y"
proof (rule ccontr)
  assume "\<not> binade x \<le> binade y"
  then have "(2 :: rat) powi (binade y + 1) \<le> 2 powi binade x"
    by (intro powi_mono) simp
  then show False
    using binade_bounds(1) [OF assms(1)] binade_bounds(2) [of y] assms by simp
qed

lemma quantum_pos [simp]: "0 < quantum x"
  by (simp add: quantum_def)

lemma quantum_nonneg [simp]: "0 \<le> quantum x"
  by (simp add: quantum_def)

lemma quantum_mono: "0 < x \<Longrightarrow> x \<le> y \<Longrightarrow> quantum x \<le> quantum y"
  unfolding quantum_def by (intro powi_mono) (use binade_mono [of x y] in auto)

text \<open>A power of two is a multiple of every smaller quantum.\<close>

lemma powi_multiple:
  assumes "j \<le> k"
  shows "\<exists>n :: int. (2 :: rat) powi k = of_int n * 2 powi j"
proof -
  have "(2 :: rat) powi k = 2 powi (k - j) * 2 powi j"
    by (simp flip: power_int_add)
  also have "(2 :: rat) powi (k - j) = of_int (2 ^ nat (k - j))"
    using assms by (simp add: power_int_def)
  finally show ?thesis by blast
qed

lemma powi_quantum:
  assumes "quantum x \<le> 2 powi k"
  shows "\<exists>n :: int. (2 :: rat) powi k = of_int n * quantum x"
proof -
  have "max (binade x - 52) (- 1074) \<le> k"
    using assms unfolding quantum_def
    by (metis linorder_not_le power_int_strict_increasing one_less_numeral_iff semiring_norm(76))
  then show ?thesis
    unfolding quantum_def by (rule powi_multiple)
qed

lemma round_double_same_quantum:
  assumes "0 < x" "x \<le> y" "quantum x = quantum y"
  shows "round_double x \<le> round_double y"
proof -
  have "x / quantum y \<le> y / quantum y"
    using assms by (simp add: divide_right_mono)
  then have "round_even (x / quantum y) \<le> round_even (y / quantum y)"
    by (rule round_even_mono)
  then show ?thesis
    using assms by (simp add: round_double_def mult_right_mono)
qed

lemma round_double_le_powi:
  assumes "0 < x" "x \<le> 2 powi k" "quantum x \<le> 2 powi k"
  shows "round_double x \<le> 2 powi k"
proof -
  obtain n where n: "(2 :: rat) powi k = of_int n * quantum x"
    using powi_quantum [OF assms(3)] by blast
  have "x / quantum x \<le> of_int n"
    using assms(2) unfolding n by (simp add: pos_divide_le_eq)
  then have "round_even (x / quantum x) \<le> n"
    using round_even_mono [of _ "of_int n"] by simp
  then show ?thesis
    unfolding n using assms(1) by (simp add: round_double_def mult_right_mono)
qed

lemma powi_le_round_double:
  assumes "2 powi k \<le> x" "quantum x \<le> 2 powi k"
  shows "2 powi k \<le> round_double x"
proof -
  have x: "0 < x"
    using assms(1) by (meson less_le_trans zero_less_power_int zero_less_numeral)
  obtain n where n: "(2 :: rat) powi k = of_int n * quantum x"
    using powi_quantum [OF assms(2)] by blast
  have "of_int n \<le> x / quantum x"
    using assms(1) unfolding n by (simp add: pos_le_divide_eq)
  then have "n \<le> round_even (x / quantum x)"
    using round_even_mono [of "of_int n"] by simp
  then show ?thesis
    unfolding n using x by (simp add: round_double_def mult_right_mono)
qed

lemma round_double_nonneg [simp]: "0 \<le> round_double x"
proof (cases "x \<le> 0")
  case False
  then have "0 \<le> round_even (x / quantum x)"
    using round_even_mono [of 0 "x / quantum x"] by simp
  then show ?thesis
    using False by (simp add: round_double_def)
qed (simp add: round_double_def)

text \<open>Rounding is monotone; a step to a coarser quantum passes a power of two.\<close>

lemma round_double_mono:
  assumes "x \<le> y"
  shows "round_double x \<le> round_double y"
proof (cases "0 < x \<and> quantum x \<noteq> quantum y")
  case True
  then have x: "0 < x" "quantum x < quantum y"
    using quantum_mono [of x y] assms by auto
  then have exps: "max (binade x - 52) (- 1074) < max (binade y - 52) (- 1074)"
    unfolding quantum_def by (metis linorder_not_le powi_mono)
  let ?k = "binade y"
  have "x \<le> 2 powi ?k"
    using binade_bounds(2) [OF x(1)] exps powi_mono [of "binade x + 1" ?k] by linarith
  moreover have "quantum x \<le> 2 powi ?k" "quantum y \<le> 2 powi ?k"
    using exps unfolding quantum_def by (auto intro!: powi_mono)
  moreover have "2 powi ?k \<le> y"
    using binade_bounds(1) x assms by simp
  ultimately show ?thesis
    using round_double_le_powi [of x ?k] powi_le_round_double [of ?k y] x by linarith
next
  case False
  then show ?thesis
    using round_double_same_quantum [of x y] assms by (cases "0 < x") (auto simp: round_double_def [of x])
qed

text \<open>A rational is representable when rounding leaves it alone.\<close>

definition representable :: "rat \<Rightarrow> bool" where
  "representable x \<longleftrightarrow> round_double x = x"

lemma round_double_add_ge:
  assumes "representable s" "0 \<le> d"
  shows "s \<le> round_double (s + d)"
  using round_double_mono [of s "s + d"] assms by (simp add: representable_def)

lemma round_double_multiple:
  assumes "0 < y" "y = of_int n * 2 powi j" "max (binade y - 52) (- 1074) \<le> j"
  shows "round_double y = y"
proof -
  obtain m where "(2 :: rat) powi j = of_int m * quantum y"
    using powi_multiple [OF assms(3)] unfolding quantum_def by blast
  then have y: "y = of_int (n * m) * quantum y"
    using assms(2) by simp
  then have "y / quantum y = of_int (n * m)"
    using less_imp_neq [OF quantum_pos] by (metis nonzero_divide_eq_eq)
  then have "round_even (y / quantum y) = n * m"
    by (simp only: round_even_of_int)
  then show ?thesis
    using assms(1) y unfolding round_double_def by simp
qed

lemma representable_round_double: "representable (round_double x)"
proof (cases "0 < round_double x")
  case True
  let ?y = "round_double x" and ?j = "max (binade x - 52) (- 1074)" and ?e = "binade x + 1"
  have x: "0 < x"
    using True by (auto simp: round_double_def split: if_splits)
  have y: "?y = of_int (round_even (x / quantum x)) * 2 powi ?j"
    using x by (simp add: round_double_def quantum_def)
  show ?thesis
  proof (cases "max (binade ?y - 52) (- 1074) \<le> ?j")
    case True
    then show ?thesis
      unfolding representable_def using \<open>0 < ?y\<close> y by (rule round_double_multiple [rotated 2])
  next
    case False
    then have q: "quantum x \<le> 2 powi binade ?y" "?e \<le> binade ?y"
      by (auto simp: quantum_def intro!: powi_mono)
    have "x \<le> 2 powi binade ?y"
      using binade_bounds(2) [OF x] powi_mono [OF q(2)] by linarith
    then have "?y \<le> 2 powi binade ?y"
      using x q by (intro round_double_le_powi) auto
    then have "?y = of_int 1 * 2 powi binade ?y"
      using binade_bounds(1) [OF \<open>0 < ?y\<close>] by simp
    moreover have "max (binade ?y - 52) (- 1074) \<le> binade ?y"
      using False by auto
    ultimately show ?thesis
      unfolding representable_def using \<open>0 < ?y\<close> by (intro round_double_multiple [of _ 1 "binade ?y"])
  qed
next
  case False
  then have "round_double x = 0"
    using round_double_nonneg [of x] by linarith
  then show ?thesis
    by (simp add: representable_def round_double_def)
qed

section \<open>Doubles\<close>

datatype double = Fin rat | Inf

instantiation double :: linorder
begin

fun less_eq_double :: "double \<Rightarrow> double \<Rightarrow> bool" where
  "less_eq_double (Fin a) (Fin b) = (a \<le> b)"
| "less_eq_double _ Inf = True"
| "less_eq_double Inf (Fin _) = False"

definition less_double :: "double \<Rightarrow> double \<Rightarrow> bool" where
  "less_double x y \<longleftrightarrow> x \<le> y \<and> \<not> y \<le> (x :: double)"

instance
proof
  fix x y z :: double
  show "x < y \<longleftrightarrow> x \<le> y \<and> \<not> y \<le> x" by (rule less_double_def)
  show "x \<le> x" by (cases x) auto
  show "x \<le> y \<Longrightarrow> y \<le> z \<Longrightarrow> x \<le> z" by (cases x; cases y; cases z) auto
  show "x \<le> y \<Longrightarrow> y \<le> x \<Longrightarrow> x = y" by (cases x; cases y) auto
  show "x \<le> y \<or> y \<le> x" by (cases x; cases y) auto
qed

end

lemma less_double_simps [simp]:
  "Fin a < Fin b \<longleftrightarrow> a < b" "Fin a < Inf" "\<not> Inf < x"
  by (cases x; auto simp: less_double_def)+

definition to_double :: "rat \<Rightarrow> double" where
  "to_double x = (let y = round_double x in if 2 ^ 1024 \<le> y then Inf else Fin y)"

fun dbl_add :: "double \<Rightarrow> double \<Rightarrow> double" where
  "dbl_add (Fin a) (Fin b) = to_double (a + b)"
| "dbl_add _ _ = Inf"

fun dbl_mul256 :: "double \<Rightarrow> double" where
  "dbl_mul256 (Fin a) = to_double (a * 256)"
| "dbl_mul256 Inf = Inf"

fun dbl_div256 :: "double \<Rightarrow> double" where
  "dbl_div256 (Fin a) = to_double (a / 256)"
| "dbl_div256 Inf = Inf"

text \<open>\<open>numeric_limits<double>::max()\<close>.\<close>

definition dbl_max :: double where
  "dbl_max = Fin (2 ^ 1024 - 2 ^ 971)"

fun dbl_ok :: "double \<Rightarrow> bool" where
  "dbl_ok (Fin x) \<longleftrightarrow> 0 \<le> x \<and> representable x"
| "dbl_ok Inf \<longleftrightarrow> True"

lemma to_double_ok [simp]: "dbl_ok (to_double x)"
  by (simp add: to_double_def Let_def representable_round_double)

lemma dbl_add_ok [simp]: "dbl_ok (dbl_add s d)"
  by (cases "(s, d)" rule: dbl_add.cases) auto

text \<open>Adding a difficulty never lowers the sum.\<close>

lemma dbl_add_ge:
  assumes "dbl_ok s" "Fin 0 \<le> d"
  shows "s \<le> dbl_add s d"
proof (cases "(s, d)" rule: dbl_add.cases)
  case (1 a b)
  then show ?thesis
    using assms round_double_add_ge [of a b] by (simp add: to_double_def Let_def)
qed (auto elim: less_eq_double.elims)

lemma representable_1 [simp]: "representable 1"
proof -
  have b: "2 powi binade 1 \<le> (1 :: rat)" "(1 :: rat) < 2 powi (binade 1 + 1)"
    using binade_bounds [of 1] by simp_all
  have "binade 1 \<le> 0"
    using b(1) powi_mono [of 1 "binade 1"] by (cases "binade 1 \<le> 0") auto
  then show ?thesis
    using round_double_multiple [of 1 1 0] by (simp add: representable_def)
qed

section \<open>Difficulty\<close>

fun shift_up :: "nat \<Rightarrow> double \<Rightarrow> double" where
  "shift_up 0 d = d"
| "shift_up (Suc n) d = shift_up n (dbl_mul256 d)"

fun shift_down :: "nat \<Rightarrow> double \<Rightarrow> double" where
  "shift_down 0 d = d"
| "shift_down (Suc n) d = shift_down n (dbl_div256 d)"

text \<open>A zero mantissa divides a positive double by zero, which is infinity.\<close>

definition convertDiffBitsToDouble :: "bytes \<Rightarrow> double" where
  "convertDiffBitsToDouble diffBitsBinary =
     (let diffBits = (StrToIntLE diffBitsBinary :: u32);
          nShift = unat (drop_bit 24 diffBits AND 0xff);
          mantissa = unat (diffBits AND 0x00ffffff);
          dDiff = (if mantissa = 0 then Inf else to_double (0xffff / of_nat mantissa))
      in shift_down (nShift - 29) (shift_up (29 - nShift) dDiff))"

lemma Fin_0_le_to_double [simp]: "Fin 0 \<le> to_double x"
  by (simp add: to_double_def Let_def)

lemma shift_nonneg: "Fin 0 \<le> d \<Longrightarrow> Fin 0 \<le> shift_up n d" "Fin 0 \<le> d \<Longrightarrow> Fin 0 \<le> shift_down n d"
proof -
  have "Fin 0 \<le> dbl_mul256 d" "Fin 0 \<le> dbl_div256 d" for d
    by (cases d; simp)+
  then show "Fin 0 \<le> d \<Longrightarrow> Fin 0 \<le> shift_up n d" "Fin 0 \<le> d \<Longrightarrow> Fin 0 \<le> shift_down n d"
    by (induction n arbitrary: d) auto
qed

lemma difficulty_nonneg [simp]: "Fin 0 \<le> convertDiffBitsToDouble bits"
  unfolding convertDiffBitsToDouble_def Let_def by (intro shift_nonneg) auto

end
