(* ===== verification/Binary_Reader.thy ===== *)
theory Binary_Reader
  imports Binary_Data
begin

text \<open>
  The bounds-checked reader \<open>BinaryRefReader\<close> (BinaryData.h), the unchecked \<open>BinaryReader\<close>, and the
  variable-length integers of \<open>BtcUtils::readVarInt\<close>. A reader is the referenced buffer, the size it
  was given and the read position; every position and size is a \<open>size_t\<close>. A read outside the buffer
  is \<open>Undefined_Behaviour\<close>.
\<close>

section \<open>Raw memory\<close>

definition mem_read :: "bytes \<Rightarrow> nat \<Rightarrow> nat \<Rightarrow> bytes res" where
  "mem_read mem off n =
     (if off + n \<le> length mem then Inr (bslice off n mem) else Inl Undefined_Behaviour)"

definition int_of_bytes :: "endian \<Rightarrow> bytes \<Rightarrow> 'a::len word" where
  "int_of_bytes e bs = (case e of ENDIAN_LITTLE \<Rightarrow> StrToIntLE bs | ENDIAN_BIG \<Rightarrow> StrToIntBE bs)"

definition bytes_of_int :: "endian \<Rightarrow> 'a::len word \<Rightarrow> bytes" where
  "bytes_of_int e v = (case e of ENDIAN_LITTLE \<Rightarrow> IntToStrLE v | ENDIAN_BIG \<Rightarrow> IntToStrBE v)"

lemma length_bytes_of_int [simp, length_simps]:
  "length (bytes_of_int e (v :: 'a::len word)) = LENGTH('a) div 8"
  by (cases e) (simp_all add: bytes_of_int_def)

lemma int_of_bytes_of_int [simp, codec_simps]:
  "8 dvd LENGTH('a) \<Longrightarrow> int_of_bytes e (bytes_of_int e (v :: 'a::len word)) = v"
  by (cases e) (simp_all add: bytes_of_int_def int_of_bytes_def)

lemma bytes_of_int_of_bytes:
  "8 dvd LENGTH('a) \<Longrightarrow> length bs = LENGTH('a) div 8 \<Longrightarrow>
     bytes_of_int e (int_of_bytes e bs :: 'a::len word) = bs"
  by (cases e) (simp_all add: bytes_of_int_def int_of_bytes_def IntToStrLE_StrToIntLE IntToStrBE_StrToIntBE)

section \<open>Variable-length integers\<close>

text \<open>Result: the value and the number of bytes it took.\<close>

definition readVarInt :: "bytes \<Rightarrow> nat \<Rightarrow> (u64 \<times> u32) res" where
  "readVarInt strmPtr remaining =
     (if remaining < 1 then Inl (Block_Deserializing ''invalid varint'')
      else bind_res (mem_read strmPtr 0 1) (\<lambda>first.
        let firstByte = hd first in
        if firstByte < 0xfd then Inr (ucast firstByte, 1)
        else if firstByte = 0xfd then
          (if remaining < 3 then Inl (Block_Deserializing ''invalid varint'')
           else bind_res (mem_read strmPtr 1 2) (\<lambda>b. Inr (ucast (StrToIntLE b :: u16), 3)))
        else if firstByte = 0xfe then
          (if remaining < 5 then Inl (Block_Deserializing ''invalid varint'')
           else bind_res (mem_read strmPtr 1 4) (\<lambda>b. Inr (ucast (StrToIntLE b :: u32), 5)))
        else
          (if remaining < 9 then Inl (Block_Deserializing ''invalid varint'')
           else bind_res (mem_read strmPtr 1 8) (\<lambda>b. Inr (StrToIntLE b, 9)))))"

definition readVarIntLength :: "bytes \<Rightarrow> u32 res" where
  "readVarIntLength strmPtr =
     bind_res (mem_read strmPtr 0 1) (\<lambda>first.
       let firstByte = hd first in
       if firstByte < 0xfd then Inr 1
       else if firstByte = 0xfd then Inr 3
       else if firstByte = 0xfe then Inr 5
       else if firstByte = 0xff then Inr 9
       else Inr (- 1))"

definition calcVarIntSize :: "u64 \<Rightarrow> u32" where
  "calcVarIntSize regularInteger =
     (if regularInteger < 0xfd then 1
      else if regularInteger \<le> 0xffff then 3
      else if regularInteger \<le> 0xffffffff then 5
      else 9)"

text \<open>\<open>get_varint_len\<close> compares a signed integer, so every negative value takes one byte.\<close>

definition get_varint_len :: "u64 \<Rightarrow> int" where
  "get_varint_len value =
     (if sint value < 0xFD then 1
      else if sint value \<le> 0xFFFF then 3
      else if sint value \<le> 0xFFFFFFFF then 5
      else 9)"

section \<open>BinaryRefReader\<close>

record brr =
  brr_data :: bytes
  brr_total :: nat
  brr_pos :: nat

definition setNewData :: "bytes \<Rightarrow> brr" where
  "setNewData toRead = \<lparr>brr_data = toRead, brr_total = length toRead, brr_pos = 0\<rparr>"

definition getSizeRemaining :: "brr \<Rightarrow> nat" where
  "getSizeRemaining r = sz_sub (brr_total r) (brr_pos r)"

definition isEndOfStream :: "brr \<Rightarrow> bool" where
  "isEndOfStream r \<longleftrightarrow> brr_pos r \<ge> brr_total r"

definition resetPosition :: "brr \<Rightarrow> brr" where
  "resetPosition r = r\<lparr>brr_pos := 0\<rparr>"

definition advance :: "nat \<Rightarrow> brr \<Rightarrow> brr res" where
  "advance nBytes r =
     (if getSizeRemaining r < nBytes then Inl (Runtime_Error ''buffer overflow'')
      else Inr (r\<lparr>brr_pos := sz_add (brr_pos r) nBytes\<rparr>))"

definition rewind :: "nat \<Rightarrow> brr \<Rightarrow> brr" where
  "rewind nBytes r =
     (let start = brr_pos r; newPos = sz_sub start nBytes
      in if newPos > start then r\<lparr>brr_pos := 0\<rparr> else r\<lparr>brr_pos := newPos\<rparr>)"

text \<open>\<open>getCurrPtr\<close>: the memory from the current position on.\<close>

definition getCurrPtr :: "brr \<Rightarrow> bytes" where
  "getCurrPtr r = drop (brr_pos r) (brr_data r)"

definition get_var_int :: "brr \<Rightarrow> (u64 \<times> brr) res" where
  "get_var_int r =
     bind_res (readVarInt (getCurrPtr r) (getSizeRemaining r)) (\<lambda>(varInt, nBytes).
       Inr (varInt, r\<lparr>brr_pos := sz_add (brr_pos r) (unat nBytes)\<rparr>))"

text \<open>\<open>BtcUtils::readVarInt(BinaryRefReader&)\<close> advances through the checked \<open>advance\<close> instead.\<close>

definition readVarInt_brr :: "brr \<Rightarrow> (u64 \<times> byte \<times> brr) res" where
  "readVarInt_brr r =
     bind_res (readVarInt (getCurrPtr r) (getSizeRemaining r)) (\<lambda>(outVal, outLen).
       bind_res (advance (unat outLen) r) (\<lambda>r'. Inr (outVal, ucast outLen, r')))"

text \<open>The common shape of the checked getters.\<close>

definition checked_read :: "nat \<Rightarrow> brr \<Rightarrow> (bytes \<times> brr) res" where
  "checked_read n r =
     (if getSizeRemaining r < n then Inl (Runtime_Error ''buffer overflow'')
      else bind_res (mem_read (brr_data r) (brr_pos r) n) (\<lambda>b.
        Inr (b, r\<lparr>brr_pos := sz_add (brr_pos r) n\<rparr>)))"

definition get_uint8_t :: "brr \<Rightarrow> (byte \<times> brr) res" where
  "get_uint8_t r = bind_res (checked_read 1 r) (\<lambda>(b, r'). Inr (hd b, r'))"

definition get_uint16_t :: "endian \<Rightarrow> brr \<Rightarrow> (u16 \<times> brr) res" where
  "get_uint16_t e r = bind_res (checked_read 2 r) (\<lambda>(b, r'). Inr (int_of_bytes e b, r'))"

definition get_uint32_t :: "endian \<Rightarrow> brr \<Rightarrow> (u32 \<times> brr) res" where
  "get_uint32_t e r = bind_res (checked_read 4 r) (\<lambda>(b, r'). Inr (int_of_bytes e b, r'))"

definition get_int32_t :: "endian \<Rightarrow> brr \<Rightarrow> (int \<times> brr) res" where
  "get_int32_t e r = bind_res (checked_read 4 r) (\<lambda>(b, r'). Inr (sint (int_of_bytes e b :: u32), r'))"

definition get_uint64_t :: "endian \<Rightarrow> brr \<Rightarrow> (u64 \<times> brr) res" where
  "get_uint64_t e r = bind_res (checked_read 8 r) (\<lambda>(b, r'). Inr (int_of_bytes e b, r'))"

text \<open>\<open>get_int64_t\<close> stores the 64-bit value in an \<open>int32_t\<close> and returns that.\<close>

definition get_int64_t :: "endian \<Rightarrow> brr \<Rightarrow> (int \<times> brr) res" where
  "get_int64_t e r =
     bind_res (checked_read 8 r) (\<lambda>(b, r'). Inr (sint (ucast (int_of_bytes e b :: u64) :: u32), r'))"

definition get_BinaryDataRef :: "nat \<Rightarrow> brr \<Rightarrow> (bytes \<times> brr) res" where
  "get_BinaryDataRef nBytes r = checked_read nBytes r"

definition get_BinaryData :: "nat \<Rightarrow> brr \<Rightarrow> (bytes \<times> brr) res" where
  "get_BinaryData nBytes r =
     (if getSizeRemaining r < nBytes then Inl (Runtime_Error ''buffer overflow'')
      else checked_read nBytes r)"

definition get_SecureBinaryData :: "nat \<Rightarrow> brr \<Rightarrow> (bytes \<times> brr) res" where
  "get_SecureBinaryData nBytes r = checked_read nBytes r"

definition fork :: "brr \<Rightarrow> brr" where
  "fork r = \<lparr>brr_data = getCurrPtr r, brr_total = getSizeRemaining r, brr_pos = 0\<rparr>"

text \<open>\<open>get_String\<close> has no size test.\<close>

definition get_String :: "nat \<Rightarrow> brr \<Rightarrow> (bytes \<times> brr) res" where
  "get_String nBytes r =
     bind_res (mem_read (brr_data r) (brr_pos r) nBytes) (\<lambda>b.
       Inr (b, r\<lparr>brr_pos := sz_add (brr_pos r) nBytes\<rparr>))"

fun read_many :: "(brr \<Rightarrow> ('v \<times> brr) res) \<Rightarrow> nat \<Rightarrow> brr \<Rightarrow> ('v list \<times> brr) res" where
  "read_many get 0 r = Inr ([], r)"
| "read_many get (Suc n) r =
     bind_res (get r) (\<lambda>(v, r'). bind_res (read_many get n r') (\<lambda>(vs, r''). Inr (v # vs, r'')))"

section \<open>The reader's invariant\<close>

definition brr_ok :: "brr \<Rightarrow> bool" where
  "brr_ok r \<longleftrightarrow> brr_total r = length (brr_data r) \<and> brr_pos r \<le> brr_total r \<and> brr_total r < size_t_mod"

lemma brr_ok_setNewData [simp]: "brr_ok (setNewData bs) \<longleftrightarrow> length bs < size_t_mod"
  by (auto simp: brr_ok_def setNewData_def)

lemma getSizeRemaining_ok: "brr_ok r \<Longrightarrow> getSizeRemaining r = length (getCurrPtr r)"
  by (simp add: brr_ok_def getSizeRemaining_def getCurrPtr_def)

lemma checked_read_ok:
  assumes "brr_ok r"
  shows "checked_read n r =
     (if length (getCurrPtr r) < n then Inl (Runtime_Error ''buffer overflow'')
      else Inr (take n (getCurrPtr r), r\<lparr>brr_pos := brr_pos r + n\<rparr>))"
proof -
  have "brr_pos r + n < size_t_mod" if "n \<le> length (getCurrPtr r)"
    using that assms by (auto simp: brr_ok_def getCurrPtr_def)
  then show ?thesis
    using assms by (auto simp: checked_read_def getSizeRemaining_ok mem_read_def bslice_def brr_ok_def getCurrPtr_def)
qed

lemma brr_ok_forward [intro]:
  "brr_ok r \<Longrightarrow> n \<le> length (getCurrPtr r) \<Longrightarrow> brr_ok (r\<lparr>brr_pos := brr_pos r + n\<rparr>)"
  by (auto simp: brr_ok_def getCurrPtr_def)

lemma getCurrPtr_forward [simp]:
  "getCurrPtr (r\<lparr>brr_pos := brr_pos r + n\<rparr>) = drop n (getCurrPtr r)"
  by (simp add: getCurrPtr_def add.commute)

lemma advance_ok:
  assumes "brr_ok r"
  shows "advance n r =
     (if length (getCurrPtr r) < n then Inl (Runtime_Error ''buffer overflow'')
      else Inr (r\<lparr>brr_pos := brr_pos r + n\<rparr>))"
  using assms by (auto simp: advance_def getSizeRemaining_ok brr_ok_def getCurrPtr_def)

lemma readVarInt_no_ub: "no_ub (readVarInt s (length s))"
proof (cases s)
  case Nil
  then show ?thesis by (simp add: readVarInt_def)
next
  case (Cons b bs)
  then show ?thesis
    by (auto simp: readVarInt_def mem_read_def Let_def)
qed

lemma readVarInt_length:
  "readVarInt s (length s) = Inr (v, n) \<Longrightarrow> unat n \<le> length s \<and> 1 \<le> unat n \<and> unat n \<le> 9"
  by (cases s) (auto simp: readVarInt_def mem_read_def Let_def split: if_splits)

lemma get_var_int_ok:
  assumes "brr_ok r"
  shows "get_var_int r =
     bind_res (readVarInt (getCurrPtr r) (length (getCurrPtr r))) (\<lambda>(v, n).
       Inr (v, r\<lparr>brr_pos := brr_pos r + unat n\<rparr>))"
proof -
  have "sz_add (brr_pos r) (unat n) = brr_pos r + unat n" if "unat n \<le> length (getCurrPtr r)" for n :: u32
    using that assms by (intro sz_add_small) (auto simp: brr_ok_def getCurrPtr_def)
  then show ?thesis
    using assms readVarInt_length [of "getCurrPtr r"]
    by (cases "readVarInt (getCurrPtr r) (length (getCurrPtr r))")
      (auto simp: get_var_int_def getSizeRemaining_ok)
qed

lemma readVarInt_brr_ok:
  assumes "brr_ok r"
  shows "readVarInt_brr r =
     bind_res (readVarInt (getCurrPtr r) (length (getCurrPtr r))) (\<lambda>(v, n).
       Inr (v, ucast n, r\<lparr>brr_pos := brr_pos r + unat n\<rparr>))"
proof (cases "readVarInt (getCurrPtr r) (length (getCurrPtr r))")
  case (Inr p)
  then show ?thesis
    using assms readVarInt_length [of "getCurrPtr r" "fst p" "snd p"]
    by (cases p) (auto simp: readVarInt_brr_def getSizeRemaining_ok advance_ok)
qed (use assms in \<open>simp add: readVarInt_brr_def getSizeRemaining_ok\<close>)

lemma rewind_ok: "brr_ok r \<Longrightarrow> rewind n r = r\<lparr>brr_pos := brr_pos r - n\<rparr>" if "n < 2 ^ 32"
proof -
  assume ok: "brr_ok r"
  show ?thesis
  proof (cases "n \<le> brr_pos r")
    case True
    then show ?thesis
      using ok by (auto simp: rewind_def Let_def brr_ok_def)
  next
    case False
    then have "sz_sub (brr_pos r) n = size_t_mod - (n - brr_pos r)"
      using that by (intro sz_sub_wraps) auto
    moreover have "brr_pos r < size_t_mod - (n - brr_pos r)"
      using False that by auto
    ultimately show ?thesis
      using False by (simp add: rewind_def Let_def)
  qed
qed

lemma brr_ok_rewind: "brr_ok r \<Longrightarrow> n < 2 ^ 32 \<Longrightarrow> brr_ok (rewind n r)"
  by (auto simp: rewind_ok brr_ok_def)

lemma brr_ok_fork: "brr_ok r \<Longrightarrow> brr_ok (fork r)"
  by (auto simp: fork_def getSizeRemaining_ok) (auto simp: brr_ok_def getCurrPtr_def)

section \<open>Encoders and decoders\<close>

text \<open>
  The contract between a value's encoding and the code that reads it back: reading in front of an
  encoded value returns it and moves past exactly its bytes, reading never leaves the buffer, and
  a successful read only moves the position, within the buffer.
\<close>

locale codec =
  fixes enc :: "'v \<Rightarrow> bytes"
    and dec :: "brr \<Rightarrow> ('v \<times> brr) res"
    and ok :: "'v \<Rightarrow> bool"
  assumes dec_enc: "brr_ok r \<Longrightarrow> ok v \<Longrightarrow> getCurrPtr r = enc v @ ss \<Longrightarrow>
      dec r = Inr (v, r\<lparr>brr_pos := brr_pos r + length (enc v)\<rparr>)"
    and dec_safe: "brr_ok r \<Longrightarrow> no_ub (dec r)"
    and dec_step: "brr_ok r \<Longrightarrow> dec r = Inr (v, r') \<Longrightarrow>
      \<exists>n \<le> length (getCurrPtr r). r' = r\<lparr>brr_pos := brr_pos r + n\<rparr>"
begin

lemma dec_ok: "brr_ok r \<Longrightarrow> dec r = Inr (v, r') \<Longrightarrow> brr_ok r'"
  using dec_step by blast

lemma dec_rest:
  "brr_ok r \<Longrightarrow> ok v \<Longrightarrow> getCurrPtr r = enc v @ ss \<Longrightarrow>
     \<exists>r'. dec r = Inr (v, r') \<and> brr_ok r' \<and> getCurrPtr r' = ss \<and> brr_data r' = brr_data r \<and>
        brr_pos r' = brr_pos r + length (enc v)"
  using dec_enc [of r v ss] brr_ok_forward [of r "length (enc v)"] by auto

lemma read_many_enc:
  assumes "brr_ok r" "list_all ok vs" "getCurrPtr r = concat (map enc vs) @ ss"
  shows "read_many dec (length vs) r =
     Inr (vs, r\<lparr>brr_pos := brr_pos r + length (concat (map enc vs))\<rparr>)"
  using assms
proof (induction vs arbitrary: r)
  case Nil
  then show ?case by simp
next
  case (Cons v vs)
  let ?r = "r\<lparr>brr_pos := brr_pos r + length (enc v)\<rparr>"
  have dec: "dec r = Inr (v, ?r)"
    using Cons.prems by (intro dec_enc [where ss = "concat (map enc vs) @ ss"]) auto
  have ok: "brr_ok ?r"
    using Cons.prems by (intro brr_ok_forward) auto
  have "getCurrPtr ?r = concat (map enc vs) @ ss"
    using Cons.prems by simp
  then have "read_many dec (length vs) ?r =
      Inr (vs, ?r\<lparr>brr_pos := brr_pos ?r + length (concat (map enc vs))\<rparr>)"
    using Cons.prems ok by (intro Cons.IH) auto
  then show ?case
    by (simp add: dec add.assoc)
qed

lemma read_many_step:
  "brr_ok r \<Longrightarrow> read_many dec n r = Inr (vs, r') \<Longrightarrow>
     (\<exists>k \<le> length (getCurrPtr r). r' = r\<lparr>brr_pos := brr_pos r + k\<rparr>) \<and> length vs = n"
proof (induction n arbitrary: r vs)
  case 0
  then show ?case by auto
next
  case (Suc n)
  then obtain v r1 vs1 where 1: "dec r = Inr (v, r1)" "read_many dec n r1 = Inr (vs1, r')" "vs = v # vs1"
    by (auto simp: bind_res_eq_Inr)
  obtain k where k: "k \<le> length (getCurrPtr r)" "r1 = r\<lparr>brr_pos := brr_pos r + k\<rparr>"
    using dec_step 1 Suc.prems by blast
  have ok: "brr_ok r1"
    using k Suc.prems by auto
  obtain j where "j \<le> length (getCurrPtr r1)" "r' = r1\<lparr>brr_pos := brr_pos r1 + j\<rparr>" "length vs1 = n"
    using Suc.IH [OF ok 1(2)] by auto
  then show ?case
    using k 1 by (auto intro!: exI [of _ "k + j"] simp: add.assoc)
qed

lemma read_many_safe: "brr_ok r \<Longrightarrow> no_ub (read_many dec n r)"
proof (induction n arbitrary: r)
  case (Suc n)
  then show ?case
    by (auto intro!: no_ub_bind dec_safe split: prod.splits dest: dec_ok)
qed simp

end

locale codec_vector = codec +
  fixes n :: nat

sublocale codec_vector \<subseteq> vec: codec
  "\<lambda>vs. concat (map enc vs)" "read_many dec n" "\<lambda>vs. length vs = n \<and> list_all ok vs"
proof unfold_locales
  show "read_many dec n r = Inr (vs, r\<lparr>brr_pos := brr_pos r + length (concat (map enc vs))\<rparr>)"
    if "brr_ok r" "length vs = n \<and> list_all ok vs" "getCurrPtr r = concat (map enc vs) @ ss" for r vs ss
    using that read_many_enc by auto
  show "no_ub (read_many dec n r)" if "brr_ok r" for r
    using that by (rule read_many_safe)
  show "\<exists>k \<le> length (getCurrPtr r). r' = r\<lparr>brr_pos := brr_pos r + k\<rparr>"
    if "brr_ok r" "read_many dec n r = Inr (v, r')" for r v r'
    using that read_many_step by blast
qed

text \<open>Every fixed-width getter reads through \<open>checked_read\<close>.\<close>

lemma codec_checked_read:
  assumes width: "\<And>v. ok v \<Longrightarrow> length (enc v) = n"
    and inv: "\<And>v. ok v \<Longrightarrow> f (enc v) = v"
    and dec: "\<And>r. dec r = bind_res (checked_read n r) (\<lambda>(b, r'). Inr (f b, r'))"
  shows "codec enc dec ok"
proof unfold_locales
  show "dec r = Inr (v, r\<lparr>brr_pos := brr_pos r + length (enc v)\<rparr>)"
    if "brr_ok r" "ok v" "getCurrPtr r = enc v @ ss" for r v ss
    using that width inv by (simp add: dec checked_read_ok)
  show "no_ub (dec r)" if "brr_ok r" for r
    using that by (simp add: dec checked_read_ok)
  show "\<exists>k \<le> length (getCurrPtr r). r' = r\<lparr>brr_pos := brr_pos r + k\<rparr>"
    if "brr_ok r" "dec r = Inr (v, r')" for r v r'
    using that by (auto simp: dec checked_read_ok split: if_splits intro!: exI [of _ n])
qed

interpretation u8: codec "\<lambda>v. [v]" get_uint8_t "\<lambda>_. True"
  by (rule codec_checked_read [where n = 1 and f = hd]) (auto simp: get_uint8_t_def)

interpretation u16: codec "bytes_of_int e" "get_uint16_t e" "\<lambda>_. True" for e
  by (rule codec_checked_read [where n = 2 and f = "int_of_bytes e"]) (auto simp: get_uint16_t_def)

interpretation u32: codec "bytes_of_int e" "get_uint32_t e" "\<lambda>_. True" for e
  by (rule codec_checked_read [where n = 4 and f = "int_of_bytes e"]) (auto simp: get_uint32_t_def)

interpretation u64: codec "bytes_of_int e" "get_uint64_t e" "\<lambda>_. True" for e
  by (rule codec_checked_read [where n = 8 and f = "int_of_bytes e"]) (auto simp: get_uint64_t_def)

interpretation i32: codec "\<lambda>i. bytes_of_int e (word_of_int i :: u32)" "get_int32_t e"
  "\<lambda>i. - (2 ^ 31) \<le> i \<and> i < 2 ^ 31" for e
  by (rule codec_checked_read [where n = 4 and f = "\<lambda>b. sint (int_of_bytes e b :: u32)"])
    (auto simp: get_int32_t_def sint_sbintrunc' signed_take_bit_int_eq_self)

interpretation ref: codec "\<lambda>b. b" "get_BinaryDataRef n" "\<lambda>b. length b = n" for n
  by (rule codec_checked_read [where n = n and f = "\<lambda>b. b"])
    (auto simp: get_BinaryDataRef_def bind_res_def split: sum.splits)

lemma get_BinaryData_eq: "get_BinaryData n r = get_BinaryDataRef n r"
  by (simp add: get_BinaryData_def get_BinaryDataRef_def checked_read_def)

text \<open>A vector of 32-byte hashes, as block locators and Merkle branches hold them.\<close>

interpretation hashes: codec_vector "\<lambda>b. b" "get_BinaryDataRef 32" "\<lambda>b. length b = 32" n for n
  by unfold_locales

interpretation data: codec "\<lambda>b. b" "get_BinaryData n" "\<lambda>b. length b = n" for n
  by (rule codec_checked_read [where n = n and f = "\<lambda>b. b"])
    (auto simp: get_BinaryData_eq get_BinaryDataRef_def bind_res_def split: sum.splits)

section \<open>Sequences of calls on one reader\<close>

datatype brr_call =
    C_uint8
  | C_uint16 endian
  | C_uint32 endian
  | C_int32 endian
  | C_uint64 endian
  | C_int64 endian
  | C_var_int
  | C_readVarInt
  | C_BinaryDataRef nat
  | C_BinaryData nat
  | C_SecureBinaryData nat
  | C_advance nat
  | C_rewind u32
  | C_resetPosition

fun reader_call :: "brr_call \<Rightarrow> brr \<Rightarrow> brr res" where
  "reader_call C_uint8 r = bind_res (get_uint8_t r) (\<lambda>(_, r'). Inr r')"
| "reader_call (C_uint16 e) r = bind_res (get_uint16_t e r) (\<lambda>(_, r'). Inr r')"
| "reader_call (C_uint32 e) r = bind_res (get_uint32_t e r) (\<lambda>(_, r'). Inr r')"
| "reader_call (C_int32 e) r = bind_res (get_int32_t e r) (\<lambda>(_, r'). Inr r')"
| "reader_call (C_uint64 e) r = bind_res (get_uint64_t e r) (\<lambda>(_, r'). Inr r')"
| "reader_call (C_int64 e) r = bind_res (get_int64_t e r) (\<lambda>(_, r'). Inr r')"
| "reader_call C_var_int r = bind_res (get_var_int r) (\<lambda>(_, r'). Inr r')"
| "reader_call C_readVarInt r = bind_res (readVarInt_brr r) (\<lambda>(_, _, r'). Inr r')"
| "reader_call (C_BinaryDataRef n) r = bind_res (get_BinaryDataRef n r) (\<lambda>(_, r'). Inr r')"
| "reader_call (C_BinaryData n) r = bind_res (get_BinaryData n r) (\<lambda>(_, r'). Inr r')"
| "reader_call (C_SecureBinaryData n) r = bind_res (get_SecureBinaryData n r) (\<lambda>(_, r'). Inr r')"
| "reader_call (C_advance n) r = advance n r"
| "reader_call (C_rewind n) r = Inr (rewind (unat n) r)"
| "reader_call C_resetPosition r = Inr (resetPosition r)"

text \<open>A call that throws leaves the reader as it was.\<close>

inductive reader_step :: "brr \<Rightarrow> brr \<Rightarrow> bool" where
  returns: "reader_call c r = Inr r' \<Longrightarrow> reader_step r r'"
| throws: "reader_call c r = Inl e \<Longrightarrow> reader_step r r"
| forks: "reader_step r (fork r)"

inductive_cases reader_stepE: "reader_step r r'"

lemma reader_call_ok:
  assumes "brr_ok r" "reader_call c r = Inr r'"
  shows "brr_ok r'"
proof -
  have checked: "brr_ok r'" if "checked_read n r = Inr (b, r')" for n b
    using that assms(1) by (auto simp: checked_read_ok split: if_splits)
  have bound: "unat n < 2 ^ 32" for n :: u32
    using unat_bound [of n] by simp
  show ?thesis
  proof (cases c)
    case C_var_int
    then show ?thesis
      using assms readVarInt_length [of "getCurrPtr r"] by (fastforce simp: get_var_int_ok bind_res_eq_Inr)
  next
    case C_readVarInt
    then show ?thesis
      using assms readVarInt_length [of "getCurrPtr r"] by (fastforce simp: readVarInt_brr_ok bind_res_eq_Inr)
  next
    case (C_advance n)
    then show ?thesis
      using assms by (auto simp: advance_ok split: if_splits)
  next
    case (C_rewind n)
    then show ?thesis
      using assms bound by (auto intro!: brr_ok_rewind)
  next
    case C_resetPosition
    then show ?thesis
      using assms by (auto simp: resetPosition_def brr_ok_def)
  qed (use assms in \<open>auto intro: checked split: if_splits simp: bind_res_eq_Inr get_uint8_t_def
      get_uint16_t_def get_uint32_t_def get_int32_t_def get_uint64_t_def get_int64_t_def
      get_BinaryDataRef_def get_BinaryData_def get_SecureBinaryData_def\<close>)
qed

lemma reader_call_safe:
  assumes "brr_ok r"
  shows "no_ub (reader_call c r)"
  using assms readVarInt_no_ub [of "getCurrPtr r"]
  by (cases c; cases "readVarInt (getCurrPtr r) (length (getCurrPtr r))")
    (auto simp: checked_read_ok get_uint8_t_def
      get_uint16_t_def get_uint32_t_def get_int32_t_def get_uint64_t_def get_int64_t_def
      get_BinaryDataRef_def get_BinaryData_def get_SecureBinaryData_def advance_ok get_var_int_ok readVarInt_brr_ok)





text \<open>
  C16: \<open>get_int64_t\<close> returns an \<open>int32_t\<close>: written 64-bit values come back unchanged exactly when they fit
  in 32 bits.
\<close>

theorem get_int64_truncates:
  assumes "- (2 ^ 63) \<le> i" "i < 2 ^ 63"
  shows "(\<exists>r. get_int64_t e (setNewData (bytes_of_int e (word_of_int i :: u64))) = Inr (i, r)) \<longleftrightarrow>
     - (2 ^ 31) \<le> i \<and> i < 2 ^ 31"
proof -
  have "get_int64_t e (setNewData (bytes_of_int e (word_of_int i :: u64))) =
      Inr (signed_take_bit 31 i, setNewData (bytes_of_int e (word_of_int i :: u64)) \<lparr>brr_pos := 8\<rparr>)"
    by (simp add: get_int64_t_def checked_read_def getSizeRemaining_def mem_read_def setNewData_def
        sint_sbintrunc' ucast_down_wi is_down)
  moreover have "signed_take_bit 31 i = i \<longleftrightarrow> - (2 ^ 31) \<le> i \<and> i < 2 ^ 31"
    using signed_take_bit_int_eq_self_iff [of 31 i] by simp
  ultimately show ?thesis by simp
qed

theorem get_int64_truncates_witness:
  "\<not> (\<exists>r. get_int64_t ENDIAN_LITTLE (setNewData (bytes_of_int ENDIAN_LITTLE (word_of_int 0x100000000 :: u64))) = Inr (0x100000000, r))"
  using get_int64_truncates [of "0x100000000" ENDIAN_LITTLE] by simp

end
