(* ===== verification/Block_Chain.thy ===== *)
theory Block_Chain
  imports Transactional Ieee_Double Binary_Reader
begin

text \<open>
  \<open>BlockHeader\<close> (BlockObj.h, BlockObj.cpp) and \<open>Blockchain\<close> (Blockchain.h, Blockchain.cpp). Headers are
  shared mutable objects: the containers hold pointers, and the header objects live in a heap, so that
  pointer comparisons and updates through one container are seen through the others. Double-SHA256 is
  the argument \<open>sha\<close> of the operations that hash.
\<close>

section \<open>Block headers\<close>

type_synonym ptr = nat

record block_header =
  dataCopy :: bytes
  isInitialized :: bool
  isMainBranch :: bool
  isOrphan :: bool
  isFinishedCalc :: bool
  duplicateID :: byte
  blockHeight :: u32
  numTx :: u32
  thisHash :: bytes
  difficultyDbl :: double
  nextHash :: bytes
  difficultySum :: double
  blkFileNum :: u32
  uniqueID :: u32

definition HEADER_SIZE :: nat where
  "HEADER_SIZE = 80"

definition EmptyHash :: bytes where
  "EmptyHash = replicate 32 0"

definition default_header :: block_header where
  "default_header =
     \<lparr>dataCopy = [], isInitialized = False, isMainBranch = False, isOrphan = False, isFinishedCalc = False,
      duplicateID = 0xff, blockHeight = - 1, numTx = - 1, thisHash = [], difficultyDbl = Fin 0,
      nextHash = [], difficultySum = Fin 0, blkFileNum = - 1, uniqueID = - 1\<rparr>"

definition unserialize_header :: "(bytes \<Rightarrow> bytes) \<Rightarrow> bytes \<Rightarrow> block_header \<Rightarrow> block_header res" where
  "unserialize_header sha str bh =
     (if length str < HEADER_SIZE then Inl (Block_Deserializing '''')
      else let raw = take HEADER_SIZE str
           in Inr (bh\<lparr>dataCopy := raw, thisHash := sha raw,
                difficultyDbl := convertDiffBitsToDouble (bslice 72 4 raw),
                isInitialized := True, nextHash := [], blockHeight := - 1, difficultySum := Fin (- 1),
                isMainBranch := False, isOrphan := True, numTx := - 1\<rparr>))"

definition unserialize_header_brr ::
  "(bytes \<Rightarrow> bytes) \<Rightarrow> brr \<Rightarrow> block_header \<Rightarrow> (block_header \<times> brr) res" where
  "unserialize_header_brr sha r bh =
     bind_res (get_BinaryDataRef HEADER_SIZE r) (\<lambda>(str, r').
       bind_res (unserialize_header sha str bh) (\<lambda>bh'. Inr (bh', r')))"

definition getVersion :: "block_header \<Rightarrow> u32 res" where
  "getVersion bh = bind_res (mem_read (dataCopy bh) 0 4) (\<lambda>b. Inr (StrToIntLE b))"

definition getPrevHash :: "block_header \<Rightarrow> bytes res" where
  "getPrevHash bh = mem_read (dataCopy bh) 4 32"

definition getMerkleRoot :: "block_header \<Rightarrow> bytes res" where
  "getMerkleRoot bh = mem_read (dataCopy bh) 36 32"

definition getTimestamp :: "block_header \<Rightarrow> u32 res" where
  "getTimestamp bh = bind_res (mem_read (dataCopy bh) 68 4) (\<lambda>b. Inr (StrToIntLE b))"

definition getDiffBits :: "block_header \<Rightarrow> bytes res" where
  "getDiffBits bh = mem_read (dataCopy bh) 72 4"

definition getNonce :: "block_header \<Rightarrow> u32 res" where
  "getNonce bh = bind_res (mem_read (dataCopy bh) 76 4) (\<lambda>b. Inr (StrToIntLE b))"

section \<open>The chain's state\<close>

record blockchain =
  heap :: "ptr \<Rightarrow> block_header"
  nextPtr :: ptr
  genesisHash :: bytes
  headerMap :: "(bytes \<times> ptr) list"
  headersById :: "(u32 \<times> ptr) list"
  headersByHeight :: "(u32 \<times> ptr) list"
  newlyParsedBlocks :: "ptr list"
  topBlockPtr :: "ptr option"
  topBlockId :: u32
  topID :: u32

abbreviation u32_less :: "u32 \<Rightarrow> u32 \<Rightarrow> bool" where
  "u32_less \<equiv> (<)"

definition upd_header :: "ptr \<Rightarrow> (block_header \<Rightarrow> block_header) \<Rightarrow> blockchain \<Rightarrow> blockchain" where
  "upd_header p f bc = bc\<lparr>heap := (heap bc)(p := f (heap bc p))\<rparr>"

definition clear_chain :: "blockchain \<Rightarrow> blockchain" where
  "clear_chain bc =
     (let p = nextPtr bc
      in bc\<lparr>heap := (heap bc)(p := default_header), nextPtr := p + 1,
            newlyParsedBlocks := [], headersByHeight := [], headersById := [],
            headerMap := map_insert bd_less (genesisHash bc) p [],
            topBlockPtr := Some p, topBlockId := 0, topID := 0\<rparr>)"

section \<open>Queries\<close>

definition getGenesisBlock :: "blockchain \<Rightarrow> ptr res" where
  "getGenesisBlock bc =
     (case map_find bd_less (genesisHash bc) (headerMap bc) of
        None \<Rightarrow> Inl (Runtime_Error ''missing genesis block header'')
      | Some p \<Rightarrow> Inr p)"

definition getHeaderByHeight :: "blockchain \<Rightarrow> u32 \<Rightarrow> byte \<Rightarrow> ptr res" where
  "getHeaderByHeight bc index dupId =
     (case map_find u32_less index (headersByHeight bc) of
        None \<Rightarrow> Inl (Range_Error ''Cannot get block at height'')
      | Some p \<Rightarrow>
          if dupId > 0x7F \<or> duplicateID (heap bc p) = dupId then Inr p
          else Inl (Length_Error ''Cannot get block at height and dup''))"

definition hasHeaderByHeight :: "blockchain \<Rightarrow> u32 \<Rightarrow> bool" where
  "hasHeaderByHeight bc height =
     (if unat height \<ge> length (headersByHeight bc) then False else True)"

definition getHeaderByHash :: "blockchain \<Rightarrow> bytes \<Rightarrow> ptr res" where
  "getHeaderByHash bc blkHash =
     (case map_find bd_less blkHash (headerMap bc) of
        None \<Rightarrow> Inl (Range_Error ''Cannot find block with hash'')
      | Some p \<Rightarrow> Inr p)"

definition getHeaderById :: "blockchain \<Rightarrow> u32 \<Rightarrow> ptr res" where
  "getHeaderById bc blkId =
     (case map_find u32_less blkId (headersById bc) of
        None \<Rightarrow> Inl (Range_Error ''Cannot find block by id'')
      | Some p \<Rightarrow> Inr p)"

definition hasHeaderWithHash :: "blockchain \<Rightarrow> bytes \<Rightarrow> bool" where
  "hasHeaderWithHash bc txHash = (map_find bd_less txHash (headerMap bc) \<noteq> None)"

section \<open>traceChainDown\<close>

datatype walk_result =
    Solved ptr "(ptr \<times> double) list"
  | Orphaned ptr

text \<open>
  The walk down the previous-hash links. The first argument is the number of slots left in the two
  stacks, which have one per header of the map; writing past them is undefined. The stack is kept with
  the last pushed header first.
\<close>

fun walk_down :: "nat \<Rightarrow> blockchain \<Rightarrow> ptr \<Rightarrow> (ptr \<times> double) list \<Rightarrow> walk_result res" where
  "walk_down slots bc thisPtr stack =
     (if \<not> difficultySum (heap bc thisPtr) < Fin 0 then Inr (Solved thisPtr stack)
      else case slots of
        0 \<Rightarrow> Inl Undefined_Behaviour
      | Suc slots' \<Rightarrow>
          bind_res (getPrevHash (heap bc thisPtr)) (\<lambda>prev.
            case map_find bd_less prev (headerMap bc) of
              Some p \<Rightarrow> walk_down slots' bc p ((thisPtr, difficultyDbl (heap bc thisPtr)) # stack)
            | None \<Rightarrow> Inr (Orphaned thisPtr)))"

declare walk_down.simps [simp del]

text \<open>The walk back up, with the \<open>int32_t\<close> index starting at the number of headers less one.\<close>

fun walk_up :: "(ptr \<times> double) list \<Rightarrow> double \<Rightarrow> u32 \<Rightarrow> blockchain \<Rightarrow> blockchain" where
  "walk_up [] seedDiffSum blkHeight bc = bc"
| "walk_up ((p, diff) # stack) seedDiffSum blkHeight bc =
     walk_up stack (dbl_add seedDiffSum diff) (blkHeight + 1)
       (upd_header p (\<lambda>h. h\<lparr>difficultyDbl := diff, difficultySum := dbl_add seedDiffSum diff,
          blockHeight := blkHeight + 1, isOrphan := False\<rparr>) bc)"

definition traceChainDown :: "ptr \<Rightarrow> blockchain \<Rightarrow> (double \<times> blockchain) res" where
  "traceChainDown bhpStart bc =
     (if Fin 0 < difficultySum (heap bc bhpStart) then Inr (difficultySum (heap bc bhpStart), bc)
      else bind_res (walk_down (length (headerMap bc)) bc bhpStart []) (\<lambda>w. case w of
        Orphaned p \<Rightarrow> Inr (dbl_max, upd_header p (\<lambda>h. h\<lparr>isOrphan := True\<rparr>) bc)
      | Solved p stack \<Rightarrow>
          let bc' = (if length stack \<le> 2 ^ 31
                     then walk_up stack (difficultySum (heap bc p)) (blockHeight (heap bc p)) bc
                     else bc)
          in Inr (difficultySum (heap bc' bhpStart), bc')))"

section \<open>organizeChain\<close>

definition reset_header :: "block_header \<Rightarrow> block_header" where
  "reset_header h = h\<lparr>difficultySum := Fin (- 1), blockHeight := 0, isFinishedCalc := False,
     nextHash := EmptyHash, isMainBranch := False\<rparr>"

definition reset_all :: "blockchain \<Rightarrow> blockchain" where
  "reset_all bc = (fold (\<lambda>(h, p). upd_header p reset_header) (headerMap bc) bc)\<lparr>topBlockPtr := None\<rparr>"

definition set_genesis :: "ptr \<Rightarrow> blockchain \<Rightarrow> blockchain" where
  "set_genesis genBlock bc = upd_header genBlock (\<lambda>h. h\<lparr>blockHeight := 0, difficultyDbl := Fin 1,
     difficultySum := Fin 1, isMainBranch := True, isOrphan := False, isFinishedCalc := True,
     isInitialized := True\<rparr>) bc"

definition known_top :: "ptr \<Rightarrow> blockchain \<Rightarrow> ptr" where
  "known_top genBlock bc =
     (case map_find u32_less (topBlockId bc) (headersById bc) of Some p \<Rightarrow> p | None \<Rightarrow> genBlock)"

fun select_top :: "(bytes \<times> ptr) list \<Rightarrow> double \<Rightarrow> ptr \<Rightarrow> blockchain \<Rightarrow> (ptr \<times> blockchain) res" where
  "select_top [] maxDiffSum newTopBlock bc = Inr (newTopBlock, bc)"
| "select_top ((_, p) # hs) maxDiffSum newTopBlock bc =
     bind_res (traceChainDown p bc) (\<lambda>(thisDiffSum, bc').
       if isOrphan (heap bc' p) then select_top hs maxDiffSum newTopBlock bc'
       else if thisDiffSum > maxDiffSum then select_top hs thisDiffSum p bc'
       else select_top hs maxDiffSum newTopBlock bc')"

lemma map_find_in_set: "map_find lt k m = Some v \<Longrightarrow> v \<in> snd ` set m"
  by (induction m) (auto split: if_splits)

definition unfinished :: "blockchain \<Rightarrow> ptr \<Rightarrow> ptr set" where
  "unfinished bc p = {q \<in> insert p (snd ` set (headerMap bc)). \<not> isFinishedCalc (heap bc q)}"

function mark_main ::
  "blockchain \<Rightarrow> ptr \<Rightarrow> ptr \<Rightarrow> (u32 \<times> ptr) list \<Rightarrow> bool \<Rightarrow>
   (blockchain \<times> ptr \<times> (u32 \<times> ptr) list \<times> bool) res" where
  "mark_main bc thisHeaderPtr prevTopBlock heightMap prevChainStillValid =
     (if isFinishedCalc (heap bc thisHeaderPtr)
      then Inr (bc, thisHeaderPtr, heightMap, prevChainStillValid)
      else
        let bc1 = upd_header thisHeaderPtr
              (\<lambda>h. h\<lparr>isFinishedCalc := True, isMainBranch := True, isOrphan := False\<rparr>) bc;
            heightMap1 = map_assign u32_less (blockHeight (heap bc1 thisHeaderPtr)) thisHeaderPtr heightMap
        in bind_res (getPrevHash (heap bc1 thisHeaderPtr)) (\<lambda>prevHash.
             case map_find bd_less prevHash (headerMap bc1) of
               None \<Rightarrow> Inl (Runtime_Error ''failed to get prev header by hash'')
             | Some child \<Rightarrow>
                 mark_main
                   (upd_header child (\<lambda>h. h\<lparr>nextHash := thisHash (heap bc1 thisHeaderPtr)\<rparr>) bc1)
                   child prevTopBlock heightMap1 (prevChainStillValid \<or> child = prevTopBlock)))"
  by pat_completeness auto
termination
proof (relation "measure (\<lambda>(bc, p, _). card (unfinished bc p))", goal_cases)
  case 1
  then show ?case by simp
next
  case (2 bc p prevTop hm valid bc1 hm1 prev child)
  have "child \<in> snd ` set (headerMap bc)"
    using 2 map_find_in_set [of bd_less prev "headerMap bc" child] by (simp add: upd_header_def)
  then have "unfinished (upd_header child (\<lambda>h. h\<lparr>nextHash := thisHash (heap bc1 p)\<rparr>) bc1) child
      \<subseteq> unfinished bc p - {p}"
    using 2 by (auto simp: unfinished_def upd_header_def split: if_splits)
  moreover have "p \<in> unfinished bc p" "finite (unfinished bc p)"
    using 2 by (auto simp: unfinished_def)
  ultimately show ?case
    by (auto intro!: psubset_card_mono)
qed

declare mark_main.simps [simp del]

text \<open>
  One pass from the choice of the new top on. Result: whether the previous top is still on the main
  chain, the header at which the walk back met the organised part, and the new state.
\<close>

definition organize_from :: "ptr \<Rightarrow> blockchain \<Rightarrow> (bool \<times> ptr \<times> blockchain) res" where
  "organize_from prevTopBlock bc2 =
     bind_res (select_top (headerMap bc2) (difficultySum (heap bc2 prevTopBlock)) prevTopBlock bc2)
       (\<lambda>(newTopBlock, bc3).
         let bc4 = upd_header newTopBlock (\<lambda>h. h\<lparr>nextHash := EmptyHash\<rparr>) bc3
         in bind_res (mark_main bc4 newTopBlock prevTopBlock [] (newTopBlock = prevTopBlock))
              (\<lambda>(bc5, thisHeaderPtr, heightMap, prevChainStillValid).
                let bc6 = upd_header thisHeaderPtr (\<lambda>h. h\<lparr>isMainBranch := True\<rparr>) bc5;
                    heightMap' = map_assign u32_less (blockHeight (heap bc6 thisHeaderPtr))
                      thisHeaderPtr heightMap
                in Inr (prevChainStillValid, thisHeaderPtr,
                     bc6\<lparr>headersByHeight := updated_map u32_less heightMap' (headersByHeight bc6),
                         topBlockId := uniqueID (heap bc6 newTopBlock),
                         topBlockPtr := Some newTopBlock\<rparr>)))"

definition organize_pass :: "bool \<Rightarrow> blockchain \<Rightarrow> (bool \<times> ptr \<times> blockchain) res" where
  "organize_pass forceRebuild bc =
     (let bc0 = (if forceRebuild then reset_all bc else bc)
      in bind_res (getGenesisBlock bc0) (\<lambda>genBlock.
           let bc1 = set_genesis genBlock bc0;
               prevTopBlock = known_top genBlock bc1
           in organize_from prevTopBlock (bc1\<lparr>topBlockPtr := Some prevTopBlock\<rparr>)))"

text \<open>
  \<open>organizeChain\<close> calls itself when the previous top left the main chain. The first argument bounds the
  depth of the calls; None is running out of it.
\<close>

fun organizeChain :: "nat \<Rightarrow> bool \<Rightarrow> blockchain \<Rightarrow> (ptr option \<times> blockchain) res option" where
  "organizeChain 0 forceRebuild bc = None"
| "organizeChain (Suc depth) forceRebuild bc =
     (case organize_pass forceRebuild bc of
        Inl e \<Rightarrow> Some (Inl e)
      | Inr (prevChainStillValid, thisHeaderPtr, bc') \<Rightarrow>
          if prevChainStillValid then Some (Inr (None, bc'))
          else case organizeChain depth True bc' of
            None \<Rightarrow> None
          | Some (Inl e) \<Rightarrow> Some (Inl e)
          | Some (Inr (_, bc'')) \<Rightarrow> Some (Inr (Some thisHeaderPtr, bc'')))"

record reorg_state =
  prevTopStillValid :: bool
  hasNewTop :: bool
  prevTop :: "ptr option"
  newTop :: "ptr option"
  reorgBranchPoint :: "ptr option"

definition organize :: "nat \<Rightarrow> bool \<Rightarrow> blockchain \<Rightarrow> (reorg_state \<times> blockchain) res option" where
  "organize depth force bc =
     (case organizeChain depth force bc of
        None \<Rightarrow> None
      | Some (Inl e) \<Rightarrow> Some (Inl e)
      | Some (Inr (branch, bc')) \<Rightarrow>
          Some (Inr (\<lparr>prevTopStillValid = (branch = None), hasNewTop = (topBlockPtr bc \<noteq> topBlockPtr bc'),
                      prevTop = topBlockPtr bc, newTop = topBlockPtr bc', reorgBranchPoint = branch\<rparr>, bc')))"

section \<open>Adding headers\<close>

fun collect_new ::
  "bool \<Rightarrow> blockchain \<Rightarrow> (bytes \<times> ptr) list \<Rightarrow> (bytes \<times> ptr) list \<Rightarrow> (u32 \<times> ptr) list \<Rightarrow> ptr list \<Rightarrow> u32 list \<Rightarrow>
   (bytes \<times> ptr) list \<times> (u32 \<times> ptr) list \<times> ptr list \<times> u32 list" where
  "collect_new areNew bc [] toAddMap idMap parsed returnSet = (toAddMap, idMap, parsed, returnSet)"
| "collect_new areNew bc ((h, p) # hs) toAddMap idMap parsed returnSet =
     (if (case map_find bd_less h (headerMap bc) of
            Some q \<Rightarrow> length (dataCopy (heap bc q)) = HEADER_SIZE | None \<Rightarrow> False)
      then collect_new areNew bc hs toAddMap idMap parsed returnSet
      else collect_new areNew bc hs (map_insert bd_less h p toAddMap)
             (map_assign u32_less (uniqueID (heap bc p)) p idMap)
             (if areNew then parsed @ [p] else parsed)
             (set_insert u32_less (uniqueID (heap bc p)) returnSet))"

definition max_id :: "blockchain \<Rightarrow> (bytes \<times> ptr) list \<Rightarrow> u32 \<Rightarrow> u32" where
  "max_id bc bhMap start =
     fold (\<lambda>(h, p) n. if n < uniqueID (heap bc p) then uniqueID (heap bc p) else n) bhMap start"

definition addBlocksInBulk :: "(bytes \<times> ptr) list \<Rightarrow> bool \<Rightarrow> blockchain \<Rightarrow> u32 list \<times> blockchain" where
  "addBlocksInBulk bhMap areNew bc =
     (if bhMap = [] then ([], bc)
      else let (toAddMap, idMap, parsed, returnSet) =
                 collect_new areNew bc bhMap [] [] (newlyParsedBlocks bc) [];
               bc1 = (if areNew then bc else bc\<lparr>topID := max_id bc bhMap (topID bc)\<rparr>)
           in (returnSet,
               bc1\<lparr>newlyParsedBlocks := parsed,
                   headerMap := updated_map bd_less toAddMap (headerMap bc1),
                   headersById := updated_map u32_less idMap (headersById bc1)\<rparr>))"

definition forceAddBlocksInBulk :: "(bytes \<times> ptr) list \<Rightarrow> blockchain \<Rightarrow> blockchain" where
  "forceAddBlocksInBulk bhMap bc =
     (let idMap = fold (\<lambda>(h, p). map_assign u32_less (uniqueID (heap bc p)) p) bhMap [];
          parsed = newlyParsedBlocks bc @ map snd bhMap
      in bc\<lparr>newlyParsedBlocks := parsed,
            headersById := updated_map u32_less idMap (headersById bc),
            headerMap := updated_map bd_less bhMap (headerMap bc)\<rparr>)"

definition getNewUniqueID :: "blockchain \<Rightarrow> u32 \<times> blockchain" where
  "getNewUniqueID bc = (topID bc, bc\<lparr>topID := topID bc + 1\<rparr>)"

definition mapIDsPerBlockFile :: "blockchain \<Rightarrow> (u32 \<times> u32 list) list" where
  "mapIDsPerBlockFile bc =
     fold (\<lambda>(_, p) m.
         let num = blkFileNum (heap bc p);
             ids = (case map_find u32_less num m of Some s \<Rightarrow> s | None \<Rightarrow> [])
         in map_assign u32_less num (set_insert u32_less (uniqueID (heap bc p)) ids) m)
       (headersById bc) []"

definition getHeightAndDupMap :: "blockchain \<Rightarrow> (u32 \<times> (u32 \<times> byte \<times> bool)) list" where
  "getHeightAndDupMap bc =
     fold (\<lambda>(blkId, p). map_insert u32_less blkId
         (blockHeight (heap bc p), duplicateID (heap bc p), isMainBranch (heap bc p)))
       (headersById bc) []"

end
