(* ===== verification/Chain_Tree.thy ===== *)
theory Chain_Tree
  imports Block_Chain
begin

text \<open>
  The accumulated difficulties: \<open>traceChainDown\<close> and the choice of the top block. The headers of a \<open>Blockchain\<close> form a tree by their previous-hash links;
  its nodes, root, links and difficulties are a \<open>block_tree\<close>, which no step of the organisation changes.
  The value of a header is its accumulated difficulty and height along the links to the genesis block.
\<close>

section \<open>The tree of headers\<close>

record block_tree =
  bt_nodes :: "ptr set"
  bt_gen :: ptr
  bt_parent :: "ptr \<Rightarrow> ptr option"
  bt_work :: "ptr \<Rightarrow> double"

definition tree_of :: "blockchain \<Rightarrow> block_tree" where
  "tree_of bc =
     \<lparr>bt_nodes = snd ` set (headerMap bc),
      bt_gen = the (map_find bd_less (genesisHash bc) (headerMap bc)),
      bt_parent = (\<lambda>p. map_find bd_less (bslice 4 32 (dataCopy (heap bc p))) (headerMap bc)),
      bt_work = (\<lambda>p. if Some p = map_find bd_less (genesisHash bc) (headerMap bc) then Fin 1 else difficultyDbl (heap bc p))\<rparr>"

inductive chain_val :: "block_tree \<Rightarrow> ptr \<Rightarrow> double \<Rightarrow> nat \<Rightarrow> bool" for T where
  root: "chain_val T (bt_gen T) (Fin 1) 0"
| child: "p \<in> bt_nodes T \<Longrightarrow> p \<noteq> bt_gen T \<Longrightarrow> bt_parent T p = Some q \<Longrightarrow> chain_val T q s n \<Longrightarrow>
    chain_val T p (dbl_add s (bt_work T p)) (Suc n)"

inductive_cases chain_val_childE: "chain_val T p s n"

definition rooted :: "block_tree \<Rightarrow> ptr \<Rightarrow> bool" where
  "rooted T p \<longleftrightarrow> (\<exists>s n. chain_val T p s n)"

text \<open>\<open>anc T a p\<close>: following the links from \<open>p\<close> meets \<open>a\<close>, no later than the genesis block.\<close>

inductive anc :: "block_tree \<Rightarrow> ptr \<Rightarrow> ptr \<Rightarrow> bool" for T where
  self: "anc T p p"
| link: "p \<noteq> bt_gen T \<Longrightarrow> bt_parent T p = Some q \<Longrightarrow> anc T a q \<Longrightarrow> anc T a p"

inductive_cases ancE: "anc T a p"

definition tree_ok :: "block_tree \<Rightarrow> (ptr \<Rightarrow> nat) \<Rightarrow> bool" where
  "tree_ok T rank \<longleftrightarrow> finite (bt_nodes T) \<and> bt_gen T \<in> bt_nodes T \<and>
     (\<forall>p \<in> bt_nodes T. Fin 0 \<le> bt_work T p) \<and>
     (\<forall>p \<in> bt_nodes T. \<forall>q. p \<noteq> bt_gen T \<longrightarrow> bt_parent T p = Some q \<longrightarrow> q \<in> bt_nodes T \<and> rank q < rank p)"

lemma tree_okD:
  assumes "tree_ok T rank"
  shows "finite (bt_nodes T)" "bt_gen T \<in> bt_nodes T" "p \<in> bt_nodes T \<Longrightarrow> Fin 0 \<le> bt_work T p"
    "p \<in> bt_nodes T \<Longrightarrow> p \<noteq> bt_gen T \<Longrightarrow> bt_parent T p = Some q \<Longrightarrow> q \<in> bt_nodes T"
    "p \<in> bt_nodes T \<Longrightarrow> p \<noteq> bt_gen T \<Longrightarrow> bt_parent T p = Some q \<Longrightarrow> rank q < rank p"
  using assms unfolding tree_ok_def by blast+

lemma chain_val_unique: "chain_val T p s n \<Longrightarrow> chain_val T p s' n' \<Longrightarrow> s = s' \<and> n = n'"
proof (induction arbitrary: s' n' rule: chain_val.induct)
  case root
  then show ?case by (auto elim: chain_val_childE)
next
  case (child p q s n)
  from child.prems child.hyps obtain s1 n1 where "chain_val T q s1 n1" "s' = dbl_add s1 (bt_work T p)" "n' = Suc n1"
    by (auto elim!: chain_val_childE [of T p])
  then show ?case
    using child.IH by auto
qed

lemma chain_val_node: "tree_ok T rank \<Longrightarrow> chain_val T p s n \<Longrightarrow> p \<in> bt_nodes T"
  by (erule chain_val.cases) (auto dest: tree_okD(2))

lemma chain_val_ok:
  "chain_val T p s n \<Longrightarrow> tree_ok T rank \<Longrightarrow> dbl_ok s \<and> Fin 1 \<le> s"
proof (induction rule: chain_val.induct)
  case (child p q s n)
  then have "s \<le> dbl_add s (bt_work T p)"
    by (intro dbl_add_ge) (auto dest: tree_okD(3))
  then show ?case
    using child by auto
qed simp

lemma chain_val_pos: "chain_val T p s n \<Longrightarrow> tree_ok T rank \<Longrightarrow> Fin 0 < s \<and> \<not> s < Fin 0 \<and> s \<noteq> Fin (- 1)"
  using chain_val_ok [of T p s n rank] by (cases s) auto

lemma rooted_parent:
  "rooted T p \<Longrightarrow> p \<noteq> bt_gen T \<Longrightarrow> \<exists>q. bt_parent T p = Some q \<and> rooted T q"
  unfolding rooted_def by (auto elim!: chain_val_childE [of T p])

lemma rooted_root [simp]: "rooted T (bt_gen T)"
  unfolding rooted_def using root by blast

lemma rooted_child:
  "p \<in> bt_nodes T \<Longrightarrow> p \<noteq> bt_gen T \<Longrightarrow> bt_parent T p = Some q \<Longrightarrow> rooted T p \<longleftrightarrow> rooted T q"
  using chain_val.child rooted_parent unfolding rooted_def by (metis option.inject)

lemma anc_trans: "anc T b p \<Longrightarrow> anc T a b \<Longrightarrow> anc T a p"
  by (induction rule: anc.induct) (auto intro: anc.intros)

lemma anc_gen [simp]: "anc T a (bt_gen T) \<longleftrightarrow> a = bt_gen T"
  by (auto elim: ancE intro: anc.self)

lemma anc_rooted: "anc T a p \<Longrightarrow> rooted T p \<Longrightarrow> rooted T a"
  by (induction rule: anc.induct) (auto dest: rooted_parent)

lemma chain_val_anc_gen: "chain_val T p s n \<Longrightarrow> anc T (bt_gen T) p"
  by (induction rule: chain_val.induct) (auto intro: anc.intros)

lemma anc_gen_rooted: "rooted T p \<Longrightarrow> anc T (bt_gen T) p"
  unfolding rooted_def using chain_val_anc_gen by blast

lemma anc_rank: "anc T a p \<Longrightarrow> tree_ok T rank \<Longrightarrow> p \<in> bt_nodes T \<Longrightarrow> a \<in> bt_nodes T \<and> rank a \<le> rank p"
proof (induction rule: anc.induct)
  case (link p q a)
  then have "q \<in> bt_nodes T" "rank q < rank p"
    using tree_okD(4,5) by blast+
  then show ?case
    using link by auto
qed simp

lemma anc_antisym: "anc T a p \<Longrightarrow> anc T p a \<Longrightarrow> tree_ok T rank \<Longrightarrow> p \<in> bt_nodes T \<Longrightarrow> a = p"
proof (erule anc.cases)
  fix p' q a' assume "a = a'" "p = p'" "p' \<noteq> bt_gen T" "bt_parent T p' = Some q" "anc T a' q"
    "anc T p a" "tree_ok T rank" "p \<in> bt_nodes T"
  then show ?thesis
    using anc_rank [of T a q rank] anc_rank [of T p a rank] tree_okD(4,5) [of T rank p q] by fastforce
qed auto

text \<open>The height grows by one per link, so the heights on one branch are distinct.\<close>

lemma anc_height: "anc T a p \<Longrightarrow> chain_val T p s n \<Longrightarrow> \<exists>s' m. chain_val T a s' m \<and> m \<le> n \<and> (m = n \<longrightarrow> a = p)"
proof (induction arbitrary: s n rule: anc.induct)
  case (link p q a)
  then obtain s1 n1 where "chain_val T q s1 n1" "n = Suc n1"
    by (auto elim!: chain_val_childE [of T p])
  then show ?case
    using link.IH [of s1 n1] by fastforce
qed auto

text \<open>The nodes of rank at most that of \<open>p\<close>, which bound the length of a walk from \<open>p\<close>.\<close>

definition below :: "block_tree \<Rightarrow> (ptr \<Rightarrow> nat) \<Rightarrow> ptr \<Rightarrow> ptr set" where
  "below T rank p = {q \<in> bt_nodes T. rank q \<le> rank p}"

lemma finite_below: "tree_ok T rank \<Longrightarrow> finite (below T rank p)"
  unfolding below_def using tree_okD(1) by simp

lemma below_parent:
  assumes "tree_ok T rank" "p \<in> bt_nodes T" "p \<noteq> bt_gen T" "bt_parent T p = Some q"
  shows "card (below T rank q) < card (below T rank p)"
proof (rule psubset_card_mono [OF finite_below [OF assms(1)]])
  have "rank q < rank p"
    using tree_okD(5) assms by blast
  then have "below T rank q \<subseteq> below T rank p" "p \<in> below T rank p" "p \<notin> below T rank q"
    using assms(2) unfolding below_def by auto
  then show "below T rank q \<subset> below T rank p"
    by blast
qed

lemma below_self: "tree_ok T rank \<Longrightarrow> p \<in> bt_nodes T \<Longrightarrow> 0 < card (below T rank p)"
  using finite_below [of T rank p] by (auto simp: card_gt_0_iff below_def)

lemma card_below: "tree_ok T rank \<Longrightarrow> card (below T rank p) \<le> card (bt_nodes T)"
  by (rule card_mono) (auto simp: below_def dest: tree_okD(1))

lemma chain_val_height_less: "chain_val T p s n \<Longrightarrow> tree_ok T rank \<Longrightarrow> n < card (below T rank p)"
proof (induction rule: chain_val.induct)
  case root
  then show ?case
    using below_self tree_okD(2) by blast
next
  case (child p q s n)
  then show ?case
    using below_parent [of T rank p q] by simp
qed

lemma chain_val_height_bound: "chain_val T p s n \<Longrightarrow> tree_ok T rank \<Longrightarrow> n < card (bt_nodes T)"
  using chain_val_height_less card_below less_le_trans by blast

section \<open>The state against the tree\<close>

definition represents :: "block_tree \<Rightarrow> blockchain \<Rightarrow> bool" where
  "represents T bc \<longleftrightarrow> bd.map_wf (headerMap bc) \<and> distinct (map snd (headerMap bc)) \<and>
     bt_nodes T = snd ` set (headerMap bc) \<and>
     map_find bd_less (genesisHash bc) (headerMap bc) = Some (bt_gen T) \<and>
     (\<forall>p \<in> bt_nodes T. p \<noteq> bt_gen T \<longrightarrow> 36 \<le> length (dataCopy (heap bc p)) \<and>
        bt_parent T p = map_find bd_less (bslice 4 32 (dataCopy (heap bc p))) (headerMap bc) \<and>
        bt_work T p = difficultyDbl (heap bc p))"

text \<open>A header is unsolved, or its sum and height are those of its chain.\<close>

definition sums_ok :: "block_tree \<Rightarrow> blockchain \<Rightarrow> bool" where
  "sums_ok T bc \<longleftrightarrow> (\<forall>p \<in> bt_nodes T. difficultySum (heap bc p) = Fin (- 1) \<or>
     (\<exists>n. chain_val T p (difficultySum (heap bc p)) n \<and> blockHeight (heap bc p) = of_nat n \<and> \<not> isOrphan (heap bc p)))"

definition orphans_ok :: "block_tree \<Rightarrow> blockchain \<Rightarrow> bool" where
  "orphans_ok T bc \<longleftrightarrow> (\<forall>p \<in> bt_nodes T. isOrphan (heap bc p) \<or> rooted T p)"

definition solved :: "blockchain \<Rightarrow> ptr \<Rightarrow> bool" where
  "solved bc p \<longleftrightarrow> difficultySum (heap bc p) \<noteq> Fin (- 1)"

definition erase_calc :: "block_header \<Rightarrow> block_header" where
  "erase_calc h = h\<lparr>difficultySum := Fin 0, blockHeight := 0, isOrphan := False\<rparr>"

definition same_but_calc :: "blockchain \<Rightarrow> blockchain \<Rightarrow> bool" where
  "same_but_calc bc bc' \<longleftrightarrow> bc' = bc\<lparr>heap := heap bc'\<rparr> \<and> (\<forall>p. erase_calc (heap bc' p) = erase_calc (heap bc p))"

lemma erase_calc_fields:
  assumes "erase_calc h = erase_calc h'"
  shows "dataCopy h = dataCopy h'" "difficultyDbl h = difficultyDbl h'" "thisHash h = thisHash h'"
    "nextHash h = nextHash h'" "isFinishedCalc h = isFinishedCalc h'" "isMainBranch h = isMainBranch h'"
    "uniqueID h = uniqueID h'"
proof -
  have e: "f h = f h'" if "\<And>h. f (erase_calc h) = f h" for f :: "block_header \<Rightarrow> 'x"
    using that assms by metis
  show "dataCopy h = dataCopy h'" "difficultyDbl h = difficultyDbl h'" "thisHash h = thisHash h'"
    "nextHash h = nextHash h'" "isFinishedCalc h = isFinishedCalc h'" "isMainBranch h = isMainBranch h'"
    "uniqueID h = uniqueID h'"
    by (rule e; simp add: erase_calc_def)+
qed

lemma same_but_calc_refl [simp]: "same_but_calc bc bc"
  by (simp add: same_but_calc_def)

lemma same_but_calc_trans: "same_but_calc a b \<Longrightarrow> same_but_calc b c \<Longrightarrow> same_but_calc a c"
  unfolding same_but_calc_def by (metis (no_types, lifting) blockchain.update_convs(1) blockchain.surjective)

lemma same_but_calc_fields:
  assumes "same_but_calc bc bc'"
  shows "headerMap bc' = headerMap bc" "headersById bc' = headersById bc"
    "headersByHeight bc' = headersByHeight bc" "genesisHash bc' = genesisHash bc"
    "topBlockId bc' = topBlockId bc" "topBlockPtr bc' = topBlockPtr bc"
proof -
  have e: "f bc' = f bc" if "\<And>b h. f (b\<lparr>heap := h\<rparr>) = f b" for f :: "blockchain \<Rightarrow> 'x"
    using that assms unfolding same_but_calc_def by metis
  show "headerMap bc' = headerMap bc" "headersById bc' = headersById bc"
    "headersByHeight bc' = headersByHeight bc" "genesisHash bc' = genesisHash bc"
    "topBlockId bc' = topBlockId bc" "topBlockPtr bc' = topBlockPtr bc"
    by (rule e; simp)+
qed

lemma same_but_calc_heap:
  assumes "same_but_calc bc bc'"
  shows "dataCopy (heap bc' p) = dataCopy (heap bc p)" "difficultyDbl (heap bc' p) = difficultyDbl (heap bc p)"
    "thisHash (heap bc' p) = thisHash (heap bc p)" "nextHash (heap bc' p) = nextHash (heap bc p)"
    "isFinishedCalc (heap bc' p) = isFinishedCalc (heap bc p)" "isMainBranch (heap bc' p) = isMainBranch (heap bc p)"
    "uniqueID (heap bc' p) = uniqueID (heap bc p)"
  by (fact erase_calc_fields [OF assms [unfolded same_but_calc_def, THEN conjunct2, rule_format]])+

lemma same_but_calc_represents: "same_but_calc bc bc' \<Longrightarrow> represents T bc' \<longleftrightarrow> represents T bc"
  by (simp add: represents_def same_but_calc_fields same_but_calc_heap)

lemma same_but_calc_upd:
  assumes "erase_calc (f (heap bc p)) = erase_calc (heap bc p)"
  shows "same_but_calc bc (upd_header p f bc)"
  using assms by (simp add: same_but_calc_def upd_header_def)

lemma representsD:
  assumes "represents T bc"
  shows "p \<in> bt_nodes T \<Longrightarrow> p \<noteq> bt_gen T \<Longrightarrow> getPrevHash (heap bc p) = Inr (bslice 4 32 (dataCopy (heap bc p)))"
    "p \<in> bt_nodes T \<Longrightarrow> p \<noteq> bt_gen T \<Longrightarrow>
       map_find bd_less (bslice 4 32 (dataCopy (heap bc p))) (headerMap bc) = bt_parent T p"
    "p \<in> bt_nodes T \<Longrightarrow> p \<noteq> bt_gen T \<Longrightarrow> difficultyDbl (heap bc p) = bt_work T p"
    "card (bt_nodes T) = length (headerMap bc)"
proof -
  show "p \<in> bt_nodes T \<Longrightarrow> p \<noteq> bt_gen T \<Longrightarrow> getPrevHash (heap bc p) = Inr (bslice 4 32 (dataCopy (heap bc p)))"
    using assms by (simp add: represents_def getPrevHash_def mem_read_def)
  show "p \<in> bt_nodes T \<Longrightarrow> p \<noteq> bt_gen T \<Longrightarrow>
       map_find bd_less (bslice 4 32 (dataCopy (heap bc p))) (headerMap bc) = bt_parent T p"
    "p \<in> bt_nodes T \<Longrightarrow> p \<noteq> bt_gen T \<Longrightarrow> difficultyDbl (heap bc p) = bt_work T p"
    using assms by (simp_all add: represents_def)
  show "card (bt_nodes T) = length (headerMap bc)"
    using assms distinct_card [of "map snd (headerMap bc)"] by (simp add: represents_def)
qed

section \<open>traceChainDown\<close>

text \<open>A stack of \<open>traceChainDown\<close>: each header is a child of the one before, the first a child of \<open>a\<close>.\<close>

fun up_path :: "block_tree \<Rightarrow> ptr \<Rightarrow> (ptr \<times> double) list \<Rightarrow> bool" where
  "up_path T a [] = True"
| "up_path T a ((c, w) # cs) \<longleftrightarrow>
     c \<in> bt_nodes T \<and> c \<noteq> bt_gen T \<and> bt_parent T c = Some a \<and> w = bt_work T c \<and> up_path T c cs"

lemma sums_ok_solved: "sums_ok T bc \<Longrightarrow> tree_ok T rank \<Longrightarrow> p \<in> bt_nodes T \<Longrightarrow>
    difficultySum (heap bc p) < Fin 0 \<longleftrightarrow> \<not> solved bc p"
  unfolding sums_ok_def solved_def using chain_val_pos by fastforce

lemma sums_ok_value: "sums_ok T bc \<Longrightarrow> p \<in> bt_nodes T \<Longrightarrow> solved bc p \<Longrightarrow>
    \<exists>n. chain_val T p (difficultySum (heap bc p)) n \<and> blockHeight (heap bc p) = of_nat n \<and> \<not> isOrphan (heap bc p)"
  unfolding sums_ok_def solved_def by blast

lemma walk_down_result:
  assumes T: "tree_ok T rank" and bc: "represents T bc" "sums_ok T bc" "solved bc (bt_gen T)"
  shows "p \<in> bt_nodes T \<Longrightarrow> card (below T rank p) \<le> slots \<Longrightarrow> up_path T p stack \<Longrightarrow>
     (\<exists>o'. walk_down slots bc p stack = Inr (Orphaned o') \<and> o' \<in> bt_nodes T \<and> \<not> solved bc o' \<and> \<not> rooted T p) \<or>
     (\<exists>a new. walk_down slots bc p stack = Inr (Solved a (new @ stack)) \<and> a \<in> bt_nodes T \<and> solved bc a \<and>
        up_path T a (new @ stack) \<and> length new \<le> slots \<and> (new = [] \<longrightarrow> a = p) \<and> (new \<noteq> [] \<longrightarrow> fst (last new) = p))"
proof (induction slots arbitrary: p stack)
  case 0
  then show ?case
    using below_self [OF T, of p] by simp
next
  case (Suc slots)
  note solved_iff = sums_ok_solved [OF bc(2) T Suc.prems(1)]
  show ?case
  proof (cases "solved bc p")
    case True
    then have "walk_down (Suc slots) bc p stack = Inr (Solved p ([] @ stack))"
      using solved_iff by (simp add: walk_down.simps)
    then show ?thesis
      using True Suc.prems by fastforce
  next
    case False
    then have p: "p \<noteq> bt_gen T"
      using bc(3) by auto
    note facts = representsD(1-3) [OF bc(1) Suc.prems(1) p]
    show ?thesis
    proof (cases "bt_parent T p")
      case None
      then have "walk_down (Suc slots) bc p stack = Inr (Orphaned p)"
        using False solved_iff facts by (simp add: walk_down.simps)
      moreover have "\<not> rooted T p"
        using None p rooted_parent by fastforce
      ultimately show ?thesis
        using False Suc.prems(1) by blast
    next
      case (Some q)
      let ?s = "(p, difficultyDbl (heap bc p)) # stack"
      have step: "walk_down (Suc slots) bc p stack = walk_down slots bc q ?s"
        using Some False solved_iff facts by (simp add: walk_down.simps [of "Suc slots"])
      have q: "q \<in> bt_nodes T" "card (below T rank q) \<le> slots" "up_path T q ?s"
        using tree_okD(4) [OF T Suc.prems(1) p Some] below_parent [OF T Suc.prems(1) p Some] Suc.prems p Some facts
        by auto
      have "rooted T p \<longleftrightarrow> rooted T q"
        by (rule rooted_child [OF Suc.prems(1) p Some])
      moreover have "new @ ?s = (new @ [(p, difficultyDbl (heap bc p))]) @ stack" for new
        by simp
      ultimately show ?thesis
        unfolding step using Suc.IH [OF q] by (elim disjE exE) (metis, force)
    qed
  qed
qed

text \<open>Giving a header the sum and height of its chain keeps the invariants.\<close>

lemma solve_header:
  assumes T: "tree_ok T rank" and bc: "represents T bc" "sums_ok T bc" "orphans_ok T bc"
    and c: "c \<in> bt_nodes T" "c \<noteq> bt_gen T" "chain_val T c s n"
  defines "bc' \<equiv> upd_header c (\<lambda>h. h\<lparr>difficultyDbl := bt_work T c, difficultySum := s, blockHeight := of_nat n,
     isOrphan := False\<rparr>) bc"
  shows "same_but_calc bc bc'" "sums_ok T bc'" "orphans_ok T bc'" "solved bc' c" "solved bc p \<Longrightarrow> solved bc' p"
proof -
  have "difficultyDbl (heap bc c) = bt_work T c"
    by (rule representsD(3) [OF bc(1) c(1,2)])
  then show "same_but_calc bc bc'"
    unfolding bc'_def by (intro same_but_calc_upd) (simp add: erase_calc_def)
  show "sums_ok T bc'"
    using bc(2) c(3) unfolding sums_ok_def bc'_def by (auto simp: upd_header_def)
  show "orphans_ok T bc'"
    using bc(3) c(3) unfolding orphans_ok_def bc'_def rooted_def by (auto simp: upd_header_def)
  show "solved bc' c" "solved bc p \<Longrightarrow> solved bc' p"
    using chain_val_pos [OF c(3) T] unfolding solved_def bc'_def by (auto simp: upd_header_def)
qed

lemma walk_up_result:
  assumes T: "tree_ok T rank"
  shows "represents T bc \<Longrightarrow> sums_ok T bc \<Longrightarrow> orphans_ok T bc \<Longrightarrow> up_path T a stack \<Longrightarrow> chain_val T a s n \<Longrightarrow>
     same_but_calc bc (walk_up stack s (of_nat n) bc) \<and> sums_ok T (walk_up stack s (of_nat n) bc) \<and>
     orphans_ok T (walk_up stack s (of_nat n) bc) \<and>
     (\<forall>p. solved bc p \<or> p \<in> fst ` set stack \<longrightarrow> solved (walk_up stack s (of_nat n) bc) p)"
proof (induction stack arbitrary: a s n bc)
  case (Cons e stack)
  obtain c w where e: "e = (c, w)" by force
  have c: "c \<in> bt_nodes T" "c \<noteq> bt_gen T" "bt_parent T c = Some a" "w = bt_work T c" "up_path T c stack"
    using Cons.prems(4) by (auto simp: e)
  have val: "chain_val T c (dbl_add s w) (Suc n)"
    using c Cons.prems(5) by (auto intro: chain_val.child)
  let ?bc = "upd_header c (\<lambda>h. h\<lparr>difficultyDbl := bt_work T c, difficultySum := dbl_add s w,
     blockHeight := of_nat (Suc n), isOrphan := False\<rparr>) bc"
  note head = solve_header [OF T Cons.prems(1-3) c(1,2) val]
  have "walk_up (e # stack) s (of_nat n) bc = walk_up stack (dbl_add s w) (of_nat (Suc n)) ?bc"
    by (simp add: e c(4) add.commute)
  moreover have "represents T ?bc"
    using same_but_calc_represents [OF head(1)] Cons.prems(1) by simp
  note IH = Cons.IH [OF this head(2,3) c(5) val]
  ultimately show ?case
    using head IH by (auto simp: e intro: same_but_calc_trans [OF head(1)])
qed simp

lemma solved_value:
  assumes "sums_ok T bc" "p \<in> bt_nodes T" "solved bc p" "chain_val T p s n"
  shows "difficultySum (heap bc p) = s" "blockHeight (heap bc p) = of_nat n" "\<not> isOrphan (heap bc p)"
  using sums_ok_value [OF assms(1-3)] chain_val_unique [OF assms(4)] by auto

text \<open>What a trace of \<open>p\<close> that returned \<open>v\<close> leaves.\<close>

definition traced :: "block_tree \<Rightarrow> ptr \<Rightarrow> blockchain \<Rightarrow> double \<Rightarrow> blockchain \<Rightarrow> bool" where
  "traced T p bc v bc' \<longleftrightarrow> same_but_calc bc bc' \<and> sums_ok T bc' \<and> orphans_ok T bc' \<and>
     (\<forall>q. solved bc q \<longrightarrow> solved bc' q) \<and> (isOrphan (heap bc' p) \<longleftrightarrow> \<not> rooted T p) \<and>
     (\<forall>s n. chain_val T p s n \<longrightarrow> v = s \<and> solved bc' p)"

lemma traced_solved:
  assumes "sums_ok T bc'" "p \<in> bt_nodes T" "solved bc' p" "same_but_calc bc bc'" "orphans_ok T bc'"
    "\<And>q. solved bc q \<Longrightarrow> solved bc' q"
  shows "traced T p bc (difficultySum (heap bc' p)) bc'"
proof -
  obtain n where n: "chain_val T p (difficultySum (heap bc' p)) n" "\<not> isOrphan (heap bc' p)"
    using sums_ok_value [OF assms(1-3)] by blast
  then have "rooted T p"
    unfolding rooted_def by blast
  then show ?thesis
    unfolding traced_def using assms n chain_val_unique [OF n(1)] by blast
qed

lemma traced_orphan:
  assumes "sums_ok T bc" "orphans_ok T bc" "p \<in> bt_nodes T" "\<not> solved bc q" "\<not> rooted T p"
  shows "traced T p bc v (upd_header q (\<lambda>h. h\<lparr>isOrphan := True\<rparr>) bc)" (is "traced T p bc v ?bc")
proof -
  have "same_but_calc bc ?bc"
    by (rule same_but_calc_upd) (simp add: erase_calc_def)
  moreover have "sums_ok T ?bc"
    using assms(1,4) unfolding sums_ok_def solved_def by (simp add: upd_header_def)
  moreover have "orphans_ok T ?bc"
    using assms(2) unfolding orphans_ok_def by (simp add: upd_header_def)
  moreover have "isOrphan (heap ?bc p)"
    using assms(2,3,5) unfolding orphans_ok_def by (auto simp: upd_header_def)
  moreover have "\<forall>r. solved bc r \<longrightarrow> solved ?bc r"
    by (simp add: solved_def upd_header_def)
  ultimately show ?thesis
    unfolding traced_def using assms(5) unfolding rooted_def by blast
qed

lemma traced_chain:
  assumes T: "tree_ok T rank" and bc: "represents T bc" "sums_ok T bc" "orphans_ok T bc"
    and a: "a \<in> bt_nodes T" "solved bc a" "up_path T a stack" and p: "p \<in> bt_nodes T"
    and ends: "stack = [] \<longrightarrow> a = p" "stack \<noteq> [] \<longrightarrow> fst (last stack) = p"
  defines "bc' \<equiv> walk_up stack (difficultySum (heap bc a)) (blockHeight (heap bc a)) bc"
  shows "traced T p bc (difficultySum (heap bc' p)) bc'"
proof -
  obtain n where n: "chain_val T a (difficultySum (heap bc a)) n" "blockHeight (heap bc a) = of_nat n"
    using sums_ok_value [OF bc(2) a(1,2)] by blast
  have up: "same_but_calc bc bc'" "sums_ok T bc'" "orphans_ok T bc'"
    "\<And>q. solved bc q \<or> q \<in> fst ` set stack \<Longrightarrow> solved bc' q"
    using walk_up_result [OF T bc a(3) n(1)] unfolding bc'_def n(2) by auto
  have "solved bc p \<or> p \<in> fst ` set stack"
    using a(2) ends by (cases "stack = []") (auto intro: rev_image_eqI [OF last_in_set])
  then show ?thesis
    using up by (intro traced_solved p) auto
qed

text \<open>
  \<open>traceChainDown\<close> returns, without running off its stacks. A header connected to the genesis block gets
  the sum and height of its chain; any other is an orphan afterwards.
\<close>

lemma traceChainDown_result:
  assumes T: "tree_ok T rank" and bc: "represents T bc" "sums_ok T bc" "orphans_ok T bc" "solved bc (bt_gen T)"
    and small: "length (headerMap bc) \<le> 2 ^ 31" and p: "p \<in> bt_nodes T"
  shows "\<exists>v bc'. traceChainDown p bc = Inr (v, bc') \<and> traced T p bc v bc'"
proof (cases "solved bc p")
  case True
  then obtain n where n: "chain_val T p (difficultySum (heap bc p)) n"
    using sums_ok_value [OF bc(2) p] by blast
  have "traceChainDown p bc = Inr (difficultySum (heap bc p), bc)"
    using chain_val_pos [OF n T] by (simp add: traceChainDown_def)
  then show ?thesis
    using traced_solved [OF bc(2) p True _ bc(3)] by auto
next
  case False
  then have neg: "\<not> Fin 0 < difficultySum (heap bc p)"
    using sums_ok_solved [OF bc(2) T p] by auto
  have "card (below T rank p) \<le> length (headerMap bc)"
    using card_below [OF T] representsD(4) [OF bc(1)] by simp
  note walk = walk_down_result [OF T bc(1,2,4) p this, of "[]", simplified]
  show ?thesis
    using walk
  proof (elim disjE exE conjE)
    fix q assume "walk_down (length (headerMap bc)) bc p [] = Inr (Orphaned q)" "\<not> solved bc q" "\<not> rooted T p"
    then show ?thesis
      using neg traced_orphan [OF bc(2,3) p] by (simp add: traceChainDown_def)
  next
    fix a stack assume w: "walk_down (length (headerMap bc)) bc p [] = Inr (Solved a stack)" "a \<in> bt_nodes T"
      "solved bc a" "up_path T a stack" "length stack \<le> length (headerMap bc)"
      "stack = [] \<longrightarrow> a = p" "stack \<noteq> [] \<longrightarrow> fst (last stack) = p"
    have "length stack \<le> 2 ^ 31"
      using w(5) small by linarith
    then show ?thesis
      using neg w(1) traced_chain [OF T bc(1-3) w(2-4) p w(6,7)] by (simp add: traceChainDown_def Let_def)
  qed
qed

section \<open>The choice of the top block\<close>

definition tree_val :: "block_tree \<Rightarrow> ptr \<Rightarrow> double option" where
  "tree_val T p = (if rooted T p then Some (THE s. \<exists>n. chain_val T p s n) else None)"

lemma tree_val_eq: "chain_val T p s n \<Longrightarrow> tree_val T p = Some s"
  unfolding tree_val_def rooted_def using chain_val_unique by (auto intro!: the_equality)

lemma tree_val_SomeD: "tree_val T p = Some s \<Longrightarrow> \<exists>n. chain_val T p s n"
  using tree_val_eq unfolding tree_val_def rooted_def by (auto split: if_splits) (metis tree_val_eq option.inject tree_val_def rooted_def)

lemma tree_val_None: "tree_val T p = None \<longleftrightarrow> \<not> rooted T p"
  by (simp add: tree_val_def)

lemma tree_val_gen [simp]: "tree_val T (bt_gen T) = Some (Fin 1)"
  by (rule tree_val_eq [OF root])

text \<open>The first header of greatest value above \<open>m\<close>, or \<open>t\<close> when there is none.\<close>

fun pick :: "block_tree \<Rightarrow> ptr list \<Rightarrow> double \<Rightarrow> ptr \<Rightarrow> ptr" where
  "pick T [] m t = t"
| "pick T (p # ps) m t =
     (case tree_val T p of
        Some v \<Rightarrow> if v > m then pick T ps v p else pick T ps m t
      | None \<Rightarrow> pick T ps m t)"

lemma pick_cases:
  "(pick T ps m t = t \<and> (\<forall>p \<in> set ps. \<forall>v. tree_val T p = Some v \<longrightarrow> v \<le> m)) \<or>
   (\<exists>v. pick T ps m t \<in> set ps \<and> tree_val T (pick T ps m t) = Some v \<and> m < v \<and>
      (\<forall>p \<in> set ps. \<forall>w. tree_val T p = Some w \<longrightarrow> w \<le> v))"
proof (induction ps arbitrary: m t)
  case (Cons p ps)
  show ?case
  proof (cases "tree_val T p")
    case None
    then show ?thesis using Cons.IH [of m t] by auto
  next
    case (Some v)
    show ?thesis
    proof (cases "v > m")
      case True
      then have "pick T (p # ps) m t = pick T ps v p"
        using Some by simp
      then show ?thesis
        using Cons.IH [of v p] True Some by (elim disjE exE conjE) (auto intro: less_trans)
    next
      case False
      then have "pick T (p # ps) m t = pick T ps m t"
        using Some by simp
      then show ?thesis
        using Cons.IH [of m t] False Some by (elim disjE exE conjE) fastforce+
    qed
  qed
qed simp

text \<open>The choice does not depend on where the search started, once something beats both starts.\<close>

lemma pick_agree:
  "p \<in> set ps \<Longrightarrow> tree_val T p = Some v \<Longrightarrow> m < v \<Longrightarrow> m' < v \<Longrightarrow> pick T ps m t = pick T ps m' t'"
proof (induction ps arbitrary: m t m' t')
  case (Cons r ps)
  show ?case
  proof (cases "tree_val T r")
    case None
    then show ?thesis
      using Cons by auto
  next
    case (Some x)
    consider "m < x" "m' < x" | "m < x" "\<not> m' < x" | "\<not> m < x" "m' < x" | "\<not> m < x" "\<not> m' < x"
      by blast
    then show ?thesis
    proof cases
      case 1
      then show ?thesis using Some by simp
    next
      case 2
      then have "p \<in> set ps" "x < v" using Cons.prems Some by auto
      then show ?thesis using Cons.IH [of x m' r t'] 2 Some Cons.prems by simp
    next
      case 3
      then have "p \<in> set ps" "x < v" using Cons.prems Some by auto
      then show ?thesis using Cons.IH [of m x t r] 3 Some Cons.prems by simp
    next
      case 4
      then have "p \<in> set ps" using Cons.prems Some by auto
      then show ?thesis using Cons.IH [of m m' t t'] 4 Some Cons.prems by simp
    qed
  qed
qed simp

lemma select_top_result:
  assumes T: "tree_ok T rank"
  shows "represents T bc \<Longrightarrow> sums_ok T bc \<Longrightarrow> orphans_ok T bc \<Longrightarrow> solved bc (bt_gen T) \<Longrightarrow>
     length (headerMap bc) \<le> 2 ^ 31 \<Longrightarrow> snd ` set hs \<subseteq> bt_nodes T \<Longrightarrow>
     \<exists>bc'. select_top hs m t bc = Inr (pick T (map snd hs) m t, bc') \<and> same_but_calc bc bc' \<and> sums_ok T bc' \<and>
       orphans_ok T bc' \<and> (\<forall>q. solved bc q \<longrightarrow> solved bc' q) \<and> (\<forall>p \<in> snd ` set hs. rooted T p \<longrightarrow> solved bc' p)"
proof (induction hs arbitrary: m t bc)
  case (Cons e hs)
  obtain h p where e: "e = (h, p)" by force
  obtain v bc1 where tr: "traceChainDown p bc = Inr (v, bc1)" "traced T p bc v bc1"
    using traceChainDown_result [OF T Cons.prems(1-5), of p] Cons.prems(6) by (auto simp: e)
  then have 1: "same_but_calc bc bc1" "sums_ok T bc1" "orphans_ok T bc1" "\<And>q. solved bc q \<Longrightarrow> solved bc1 q"
    "isOrphan (heap bc1 p) \<longleftrightarrow> \<not> rooted T p" "\<And>s n. chain_val T p s n \<Longrightarrow> v = s \<and> solved bc1 p"
    unfolding traced_def by blast+
  have val: "tree_val T p = (if rooted T p then Some v else None)"
    using 1(6) tree_val_eq tree_val_None [of T p] by (auto simp: rooted_def)
  have rest: "\<exists>bc'. select_top hs m t bc1 = Inr (pick T (map snd hs) m t, bc') \<and> same_but_calc bc1 bc' \<and> sums_ok T bc' \<and>
       orphans_ok T bc' \<and> (\<forall>q. solved bc1 q \<longrightarrow> solved bc' q) \<and> (\<forall>p \<in> snd ` set hs. rooted T p \<longrightarrow> solved bc' p)" for m t
    using Cons.prems 1 same_but_calc_represents [OF 1(1), of T] same_but_calc_fields(1) [OF 1(1)]
    by (intro Cons.IH) auto
  define m1 t1 where "m1 = (if rooted T p \<and> v > m then v else m)" and "t1 = (if rooted T p \<and> v > m then p else t)"
  have "select_top (e # hs) m t bc = select_top hs m1 t1 bc1"
    using tr(1) 1(5) by (auto simp: e m1_def t1_def)
  moreover have "pick T (map snd (e # hs)) m t = pick T (map snd hs) m1 t1"
    using val by (auto simp: e m1_def t1_def)
  moreover have "rooted T p \<longrightarrow> solved bc1 p"
    using 1(6) unfolding rooted_def by blast
  ultimately show ?case
    using rest [of m1 t1] 1(1,4) by (auto simp: e intro: same_but_calc_trans)
qed simp

end
