(* ===== verification/Chain_Organize.thy ===== *)
theory Chain_Organize
  imports Chain_Tree
begin

text \<open>
  What \<open>organizeChain\<close> leaves: the walk that marks the main branch, one pass, and the pass repeated after
  a reorganisation.
\<close>

section \<open>Marking the main branch\<close>

definition erase_mark :: "block_header \<Rightarrow> block_header" where
  "erase_mark h = h\<lparr>isFinishedCalc := False, isMainBranch := False, isOrphan := False, nextHash := []\<rparr>"

definition same_but_mark :: "blockchain \<Rightarrow> blockchain \<Rightarrow> bool" where
  "same_but_mark bc bc' \<longleftrightarrow> bc' = bc\<lparr>heap := heap bc'\<rparr> \<and> (\<forall>p. erase_mark (heap bc' p) = erase_mark (heap bc p))"

lemma erase_mark_fields:
  assumes "erase_mark h = erase_mark h'"
  shows "dataCopy h = dataCopy h'" "difficultyDbl h = difficultyDbl h'" "thisHash h = thisHash h'"
    "difficultySum h = difficultySum h'" "blockHeight h = blockHeight h'" "uniqueID h = uniqueID h'"
proof -
  have e: "f h = f h'" if "\<And>h. f (erase_mark h) = f h" for f :: "block_header \<Rightarrow> 'x"
    using that assms by metis
  show "dataCopy h = dataCopy h'" "difficultyDbl h = difficultyDbl h'" "thisHash h = thisHash h'"
    "difficultySum h = difficultySum h'" "blockHeight h = blockHeight h'" "uniqueID h = uniqueID h'"
    by (rule e; simp add: erase_mark_def)+
qed

lemma same_but_mark_refl [simp]: "same_but_mark bc bc"
  by (simp add: same_but_mark_def)

lemma same_but_mark_trans: "same_but_mark a b \<Longrightarrow> same_but_mark b c \<Longrightarrow> same_but_mark a c"
  unfolding same_but_mark_def by (metis (no_types, lifting) blockchain.update_convs(1) blockchain.surjective)

lemma same_but_mark_fields:
  assumes "same_but_mark bc bc'"
  shows "headerMap bc' = headerMap bc" "headersById bc' = headersById bc"
    "headersByHeight bc' = headersByHeight bc" "genesisHash bc' = genesisHash bc"
    "topBlockId bc' = topBlockId bc" "topBlockPtr bc' = topBlockPtr bc"
proof -
  have e: "f bc' = f bc" if "\<And>b h. f (b\<lparr>heap := h\<rparr>) = f b" for f :: "blockchain \<Rightarrow> 'x"
    using that assms unfolding same_but_mark_def by metis
  show "headerMap bc' = headerMap bc" "headersById bc' = headersById bc"
    "headersByHeight bc' = headersByHeight bc" "genesisHash bc' = genesisHash bc"
    "topBlockId bc' = topBlockId bc" "topBlockPtr bc' = topBlockPtr bc"
    by (rule e; simp)+
qed

lemma same_but_mark_heap:
  assumes "same_but_mark bc bc'"
  shows "dataCopy (heap bc' p) = dataCopy (heap bc p)" "difficultyDbl (heap bc' p) = difficultyDbl (heap bc p)"
    "thisHash (heap bc' p) = thisHash (heap bc p)" "difficultySum (heap bc' p) = difficultySum (heap bc p)"
    "blockHeight (heap bc' p) = blockHeight (heap bc p)" "uniqueID (heap bc' p) = uniqueID (heap bc p)"
  by (fact erase_mark_fields [OF assms [unfolded same_but_mark_def, THEN conjunct2, rule_format]])+

lemma same_but_mark_represents: "same_but_mark bc bc' \<Longrightarrow> represents T bc' \<longleftrightarrow> represents T bc"
  by (simp add: represents_def same_but_mark_fields same_but_mark_heap)

lemma same_but_mark_upd:
  assumes "erase_mark (f (heap bc p)) = erase_mark (heap bc p)"
  shows "same_but_mark bc (upd_header p f bc)"
  using assms by (simp add: same_but_mark_def upd_header_def)

text \<open>The headers \<open>V\<close> met from \<open>t\<close> down to, and without, \<open>f\<close>.\<close>

inductive down_path :: "block_tree \<Rightarrow> ptr \<Rightarrow> ptr list \<Rightarrow> ptr \<Rightarrow> bool" for T where
  stop: "down_path T f [] f"
| step: "c \<noteq> bt_gen T \<Longrightarrow> bt_parent T c = Some d \<Longrightarrow> down_path T d V f \<Longrightarrow> down_path T c (c # V) f"

lemma down_path_anc: "down_path T t V f \<Longrightarrow> anc T f t"
  by (induction rule: down_path.induct) (auto intro: anc.intros)

lemma down_path_anc_iff: "down_path T t V f \<Longrightarrow> anc T q t \<longleftrightarrow> q \<in> set V \<or> anc T q f"
proof (induction rule: down_path.induct)
  case (step c d V f)
  have "anc T q c \<longleftrightarrow> q = c \<or> anc T q d"
    using step.hyps by (auto elim: ancE intro: anc.intros)
  then show ?case
    using step.IH by auto
qed simp

lemma down_path_hd: "down_path T t V f \<Longrightarrow> hd (V @ [f]) = t"
  by (erule down_path.cases) auto

lemma down_path_rank:
  assumes "tree_ok T rank"
  shows "down_path T t V f \<Longrightarrow> t \<in> bt_nodes T \<Longrightarrow> set (V @ [f]) \<subseteq> bt_nodes T \<and> (\<forall>q \<in> set (tl (V @ [f])). rank q < rank t)"
proof (induction rule: down_path.induct)
  case (step c d V f)
  have d: "d \<in> bt_nodes T" "rank d < rank c"
    using tree_okD(4,5) [OF assms step.prems step.hyps(1,2)] by auto
  have IH: "set (V @ [f]) \<subseteq> bt_nodes T" "\<forall>q \<in> set (tl (V @ [f])). rank q < rank d"
    using step.IH [OF d(1)] by auto
  obtain xs where xs: "V @ [f] = d # xs"
    using down_path_hd [OF step.hyps(3)] by (cases "V @ [f]") auto
  have "\<forall>q \<in> set (V @ [f]). rank q < rank c"
    using IH(2) d(2) unfolding xs by auto
  then show ?case
    using IH(1) step.prems by simp
qed simp

definition heights_ok :: "block_tree \<Rightarrow> blockchain \<Rightarrow> bool" where
  "heights_ok T bc \<longleftrightarrow> (\<forall>p s n. chain_val T p s n \<longrightarrow> blockHeight (heap bc p) = of_nat n)"

text \<open>What marking the headers \<open>V\<close> of a walk that ends in \<open>f\<close> leaves.\<close>

definition marked :: "block_tree \<Rightarrow> blockchain \<Rightarrow> ptr list \<Rightarrow> ptr \<Rightarrow> blockchain \<Rightarrow> bool" where
  "marked T bc V f bc' \<longleftrightarrow> same_but_mark bc bc' \<and>
     (\<forall>q. isFinishedCalc (heap bc' q) \<longleftrightarrow> isFinishedCalc (heap bc q) \<or> q \<in> set V) \<and>
     (\<forall>q. isMainBranch (heap bc' q) \<longleftrightarrow> isMainBranch (heap bc q) \<or> q \<in> set V) \<and>
     (\<forall>q. isOrphan (heap bc' q) \<longleftrightarrow> isOrphan (heap bc q) \<and> q \<notin> set V) \<and>
     (\<forall>c \<in> set V. \<forall>d. bt_parent T c = Some d \<longrightarrow> nextHash (heap bc' d) = thisHash (heap bc c)) \<and>
     (\<forall>q. q \<notin> set (tl (V @ [f])) \<longrightarrow> nextHash (heap bc' q) = nextHash (heap bc q))"

definition height_entries :: "blockchain \<Rightarrow> ptr list \<Rightarrow> (u32 \<times> ptr) list \<Rightarrow> (u32 \<times> ptr) list \<Rightarrow> bool" where
  "height_entries bc V hm hm' \<longleftrightarrow> linorder_lt.map_wf hm' \<and>
     (\<forall>c \<in> set V. map_find u32_less (blockHeight (heap bc c)) hm' = Some c) \<and>
     (\<forall>k. (\<forall>c \<in> set V. blockHeight (heap bc c) \<noteq> k) \<longrightarrow> map_find u32_less k hm' = map_find u32_less k hm)"

lemma heights_distinct:
  assumes "tree_ok T rank" "heights_ok T bc" "card (bt_nodes T) \<le> 2 ^ 31"
    and "chain_val T p s n" "anc T q p" "blockHeight (heap bc q) = blockHeight (heap bc p)"
  shows "q = p"
proof -
  obtain s' m where m: "chain_val T q s' m" "m \<le> n" "m = n \<longrightarrow> q = p"
    using anc_height [OF assms(5,4)] by blast
  have "n < 2 ^ 32"
    using chain_val_height_bound [OF assms(4,1)] assms(3) by simp
  moreover have "(of_nat m :: u32) = of_nat n"
    using assms(2,4,6) m(1) unfolding heights_ok_def by metis
  ultimately have "m = n"
    using m(2) by (simp add: of_nat_eq_iff take_bit_nat_eq_self word_of_nat_eq_iff)
  then show ?thesis using m(3) by blast
qed

text \<open>One turn of the walk, on a header that is not finished.\<close>

definition mark_header :: "ptr \<Rightarrow> ptr \<Rightarrow> blockchain \<Rightarrow> blockchain" where
  "mark_header c d bc =
     (let bc1 = upd_header c (\<lambda>h. h\<lparr>isFinishedCalc := True, isMainBranch := True, isOrphan := False\<rparr>) bc
      in upd_header d (\<lambda>h. h\<lparr>nextHash := thisHash (heap bc c)\<rparr>) bc1)"

lemma mark_header_same: "same_but_mark bc (mark_header c d bc)"
  unfolding mark_header_def Let_def
  by (rule same_but_mark_trans; rule same_but_mark_upd) (simp_all add: erase_mark_def)

lemma mark_header_heap:
  "isFinishedCalc (heap (mark_header c d bc) q) \<longleftrightarrow> isFinishedCalc (heap bc q) \<or> q = c"
  "isMainBranch (heap (mark_header c d bc) q) \<longleftrightarrow> isMainBranch (heap bc q) \<or> q = c"
  "isOrphan (heap (mark_header c d bc) q) \<longleftrightarrow> isOrphan (heap bc q) \<and> q \<noteq> c"
  "nextHash (heap (mark_header c d bc) q) = (if q = d then thisHash (heap bc c) else nextHash (heap bc q))"
  by (auto simp: mark_header_def Let_def upd_header_def)

lemma mark_main_step:
  assumes "represents T bc" "c \<in> bt_nodes T" "c \<noteq> bt_gen T" "bt_parent T c = Some d" "\<not> isFinishedCalc (heap bc c)"
  shows "mark_main bc c pt hm valid =
     mark_main (mark_header c d bc) d pt (map_assign u32_less (blockHeight (heap bc c)) c hm) (valid \<or> d = pt)"
proof -
  let ?bc = "upd_header c (\<lambda>h. h\<lparr>isFinishedCalc := True, isMainBranch := True, isOrphan := False\<rparr>) bc"
  have same: "same_but_mark bc ?bc"
    by (rule same_but_mark_upd) (simp add: erase_mark_def)
  have rep: "represents T ?bc"
    using same_but_mark_represents [OF same] assms(1) by simp
  have "mark_main bc c pt hm valid =
      mark_main (upd_header d (\<lambda>h. h\<lparr>nextHash := thisHash (heap ?bc c)\<rparr>) ?bc) d pt
        (map_assign u32_less (blockHeight (heap ?bc c)) c hm) (valid \<or> d = pt)"
    using assms(4,5) representsD(1,2) [OF rep assms(2,3)]
    by (subst mark_main.simps) (simp add: Let_def del: mark_main.simps)
  then show ?thesis
    by (simp add: mark_header_def same_but_mark_heap [OF same])
qed

lemma marked_step:
  assumes T: "tree_ok T rank" and c: "c \<in> bt_nodes T" "c \<noteq> bt_gen T" "bt_parent T c = Some d" "down_path T d V f"
    and m: "marked T (mark_header c d bc) V f bc'"
  shows "marked T bc (c # V) f bc'"
proof -
  note same = mark_header_same [of bc c d]
  note hp = mark_header_heap [of c d bc] and keep = same_but_mark_heap(3) [OF same]
  obtain xs where xs: "V @ [f] = d # xs"
    using down_path_hd [OF c(4)] by (cases "V @ [f]") auto
  have "d \<in> bt_nodes T"
    by (rule tree_okD(4) [OF T c(1-3)])
  then have d: "d \<notin> set (tl (V @ [f]))"
    using down_path_rank [OF T c(4)] by auto
  have next_d: "nextHash (heap bc' d) = thisHash (heap bc c)"
    using m d hp(4) unfolding marked_def by metis
  have other: "nextHash (heap bc' q) = nextHash (heap bc q)" if "q \<notin> set (tl ((c # V) @ [f]))" for q
  proof -
    have "q \<noteq> d" "q \<notin> set (tl (V @ [f]))"
      using that xs by auto
    then show ?thesis
      using m hp(4) unfolding marked_def by metis
  qed
  have "same_but_mark bc bc'"
    using m same same_but_mark_trans unfolding marked_def by blast
  then show ?thesis
    using m other next_d c(3) unfolding marked_def by (auto simp: hp(1-3) keep)
qed

lemma height_entries_step:
  assumes T: "tree_ok T rank" and hts: "heights_ok T bc" "card (bt_nodes T) \<le> 2 ^ 31" "same_but_mark bc bc1"
    and c: "chain_val T c s n" "c \<noteq> bt_gen T" "bt_parent T c = Some d" "down_path T d V f"
    and hm: "linorder_lt.map_wf hm" "height_entries bc1 V (map_assign u32_less (blockHeight (heap bc c)) c hm) hm'"
  shows "height_entries bc (c # V) hm hm'"
proof -
  have keep: "blockHeight (heap bc1 q) = blockHeight (heap bc q)" for q
    by (rule same_but_mark_heap(5) [OF hts(3)])
  have "blockHeight (heap bc q) \<noteq> blockHeight (heap bc c)" if "q \<in> set V" for q
  proof
    assume eq: "blockHeight (heap bc q) = blockHeight (heap bc c)"
    have node: "c \<in> bt_nodes T"
      by (rule chain_val_node [OF T c(1)])
    have "anc T q d"
      using down_path_anc_iff [OF c(4)] that by blast
    then have anc: "anc T q c"
      using c(2,3) by (blast intro: anc.link)
    then have "q = c"
      using heights_distinct [OF T hts(1,2) c(1) anc eq] by blast
    then show False
      using anc_rank [OF \<open>anc T q d\<close> T] tree_okD(4,5) [OF T node c(2,3)] by auto
  qed
  then show ?thesis
    using hm unfolding height_entries_def
    by (auto simp: keep linorder_lt.map_find_assign)
qed

lemma mark_main_result:
  assumes T: "tree_ok T rank" "card (bt_nodes T) \<le> 2 ^ 31"
  shows "chain_val T t s n \<Longrightarrow> represents T bc \<Longrightarrow> heights_ok T bc \<Longrightarrow> isFinishedCalc (heap bc (bt_gen T)) \<Longrightarrow>
     linorder_lt.map_wf hm \<Longrightarrow>
     \<exists>bc' V f hm'. mark_main bc t pt hm valid = Inr (bc', f, hm', valid \<or> pt \<in> set (tl (V @ [f]))) \<and>
       down_path T t V f \<and> isFinishedCalc (heap bc f) \<and> (\<forall>c \<in> set V. \<not> isFinishedCalc (heap bc c)) \<and>
       marked T bc V f bc' \<and> height_entries bc V hm hm'"
proof (induction arbitrary: bc hm valid rule: chain_val.induct)
  case root
  then have "mark_main bc (bt_gen T) pt hm valid = Inr (bc, bt_gen T, hm, valid)"
    by (simp add: mark_main.simps)
  then show ?case
    using root by (intro exI [of _ bc] exI [of _ "[]"] exI [of _ "bt_gen T"] exI [of _ hm])
      (simp add: marked_def height_entries_def down_path.stop)
next
  case (child c d s n)
  show ?case
  proof (cases "isFinishedCalc (heap bc c)")
    case True
    then have "mark_main bc c pt hm valid = Inr (bc, c, hm, valid)"
      by (simp add: mark_main.simps)
    then show ?thesis
      using True child.prems by (intro exI [of _ bc] exI [of _ "[]"] exI [of _ c] exI [of _ hm])
        (simp add: marked_def height_entries_def down_path.stop)
  next
    case False
    note same = mark_header_same [of bc c d] and hp = mark_header_heap [of c d bc]
    let ?bc = "mark_header c d bc" and ?hm = "map_assign u32_less (blockHeight (heap bc c)) c hm"
    have prems: "represents T ?bc" "heights_ok T ?bc" "isFinishedCalc (heap ?bc (bt_gen T))" "linorder_lt.map_wf ?hm"
      using child.prems same_but_mark_represents [OF same] hp(1)
      by (simp_all add: heights_ok_def same_but_mark_heap(5) [OF same] linorder_lt.map_assign_wf)
    obtain bc' V f hm' where IH: "mark_main ?bc d pt ?hm (valid \<or> d = pt) =
          Inr (bc', f, hm', (valid \<or> d = pt) \<or> pt \<in> set (tl (V @ [f])))"
      "down_path T d V f" "isFinishedCalc (heap ?bc f)" "\<forall>q \<in> set V. \<not> isFinishedCalc (heap ?bc q)"
      "marked T ?bc V f bc'" "height_entries ?bc V ?hm hm'"
      using child.IH [OF prems] by blast
    obtain xs where xs: "V @ [f] = d # xs"
      using down_path_hd [OF IH(2)] by (cases "V @ [f]") auto
    have step: "mark_main bc c pt hm valid = mark_main ?bc d pt ?hm (valid \<or> d = pt)"
      by (rule mark_main_step [OF child.prems(1) child.hyps(1-3) False])
    have "down_path T c (c # V) f" "marked T bc (c # V) f bc'"
      using down_path.step [OF child.hyps(2,3) IH(2)] marked_step [OF T(1) child.hyps(1-3) IH(2,5)] by blast+
    moreover have "height_entries bc (c # V) hm hm'"
      by (rule height_entries_step [OF T(1) child.prems(2) T(2) same
            chain_val.child [OF child.hyps] child.hyps(2,3) IH(2) child.prems(4) IH(6)])
    moreover have "f \<noteq> c"
      using down_path_rank [OF T(1) down_path.step [OF child.hyps(2,3) IH(2)] child.hyps(1)] by auto
    moreover have "((valid \<or> d = pt) \<or> pt \<in> set (tl (V @ [f]))) \<longleftrightarrow> valid \<or> pt \<in> set (tl ((c # V) @ [f]))"
      using xs by auto
    ultimately show ?thesis
      using step IH(1,3,4) False hp(1)
      by (intro exI [of _ bc'] exI [of _ "c # V"] exI [of _ f] exI [of _ hm']) simp
  qed
qed

section \<open>One pass\<close>

definition best :: "block_tree \<Rightarrow> ptr \<Rightarrow> bool" where
  "best T t \<longleftrightarrow> rooted T t \<and>
     (\<forall>p \<in> bt_nodes T. \<forall>v w. tree_val T p = Some v \<longrightarrow> tree_val T t = Some w \<longrightarrow> v \<le> w)"

text \<open>The part of the chain up to \<open>k\<close> is organised, except the entry of \<open>k\<close> itself by height.\<close>

definition organised_to :: "block_tree \<Rightarrow> ptr \<Rightarrow> blockchain \<Rightarrow> bool" where
  "organised_to T k bc \<longleftrightarrow> rooted T k \<and>
     (\<forall>q \<in> bt_nodes T. isFinishedCalc (heap bc q) \<longleftrightarrow> anc T q k) \<and>
     (\<forall>q \<in> bt_nodes T. isMainBranch (heap bc q) \<longleftrightarrow> anc T q k) \<and>
     (\<forall>c d. anc T c k \<longrightarrow> c \<noteq> bt_gen T \<longrightarrow> bt_parent T c = Some d \<longrightarrow> nextHash (heap bc d) = thisHash (heap bc c)) \<and>
     linorder_lt.map_wf (headersByHeight bc) \<and>
     (\<forall>q s n. anc T q k \<longrightarrow> q \<noteq> k \<longrightarrow> chain_val T q s n \<longrightarrow> map_find u32_less (of_nat n) (headersByHeight bc) = Some q)"

text \<open>What organising leaves, with \<open>t\<close> the top block.\<close>

definition organised :: "block_tree \<Rightarrow> ptr \<Rightarrow> blockchain \<Rightarrow> bool" where
  "organised T t bc \<longleftrightarrow> best T t \<and> organised_to T t bc \<and>
     (\<forall>s n. chain_val T t s n \<longrightarrow> map_find u32_less (of_nat n) (headersByHeight bc) = Some t) \<and>
     (\<forall>p \<in> bt_nodes T. \<forall>s n. chain_val T p s n \<longrightarrow>
        difficultySum (heap bc p) = s \<and> blockHeight (heap bc p) = of_nat n \<and> \<not> isOrphan (heap bc p)) \<and>
     (\<forall>p \<in> bt_nodes T. \<not> rooted T p \<longrightarrow>
        isOrphan (heap bc p) \<and> \<not> isMainBranch (heap bc p) \<and> difficultySum (heap bc p) = Fin (- 1)) \<and>
     nextHash (heap bc t) = EmptyHash \<and>
     topBlockPtr bc = Some t \<and> topBlockId bc = uniqueID (heap bc t)"

definition ready :: "block_tree \<Rightarrow> ptr \<Rightarrow> blockchain \<Rightarrow> bool" where
  "ready T k bc \<longleftrightarrow> represents T bc \<and> sums_ok T bc \<and> orphans_ok T bc \<and> solved bc (bt_gen T) \<and> organised_to T k bc \<and>
     length (headerMap bc) \<le> 2 ^ 31"

text \<open>The choice made from any start is a header of greatest value.\<close>

lemma pick_best:
  assumes T: "tree_ok T rank" and bc: "sums_ok T bc" "pt \<in> bt_nodes T" and ps: "set ps = bt_nodes T"
  defines "t \<equiv> pick T ps (difficultySum (heap bc pt)) pt"
  shows "best T t" "t \<in> bt_nodes T" "t \<noteq> pt \<Longrightarrow> \<exists>v. tree_val T t = Some v \<and> difficultySum (heap bc pt) < v"
proof -
  let ?m = "difficultySum (heap bc pt)"
  have gen: "bt_gen T \<in> set ps"
    using ps tree_okD(2) [OF T] by simp
  have pt: "tree_val T pt = Some ?m" if "\<forall>p \<in> set ps. \<forall>v. tree_val T p = Some v \<longrightarrow> v \<le> ?m"
  proof -
    have "Fin 1 \<le> ?m"
      using that gen tree_val_gen by blast
    then have "?m \<noteq> Fin (- 1)" by auto
    then obtain n where "chain_val T pt ?m n"
      using bc unfolding sums_ok_def by blast
    then show ?thesis by (rule tree_val_eq)
  qed
  have node: "rooted T t" if "tree_val T t = Some v" for v
    using that tree_val_None [of T t] by auto
  have cases: "t = pt \<and> (\<forall>p \<in> set ps. \<forall>v. tree_val T p = Some v \<longrightarrow> v \<le> ?m) \<or>
     (\<exists>v. t \<in> set ps \<and> tree_val T t = Some v \<and> ?m < v \<and> (\<forall>p \<in> set ps. \<forall>w. tree_val T p = Some w \<longrightarrow> w \<le> v))"
    unfolding t_def by (rule pick_cases)
  show "best T t"
    using cases pt node ps unfolding best_def by (elim disjE exE conjE) auto
  show "t \<in> bt_nodes T"
    using cases bc(2) ps by auto
  show "t \<noteq> pt \<Longrightarrow> \<exists>v. tree_val T t = Some v \<and> ?m < v"
    using cases by auto
qed

text \<open>
  The state after a pass from \<open>bc\<close>: \<open>H\<close> is the heap after the sums were computed, \<open>V\<close> the headers marked
  on the walk from the new top \<open>t\<close>, and \<open>f\<close> where it stopped.
\<close>

definition passed :: "block_tree \<Rightarrow> blockchain \<Rightarrow> (ptr \<Rightarrow> block_header) \<Rightarrow> ptr \<Rightarrow> ptr list \<Rightarrow> ptr \<Rightarrow> blockchain \<Rightarrow> bool" where
  "passed T bc H t V f bc' \<longleftrightarrow>
     headerMap bc' = headerMap bc \<and> headersById bc' = headersById bc \<and> genesisHash bc' = genesisHash bc \<and>
     topBlockPtr bc' = Some t \<and> topBlockId bc' = uniqueID (heap bc t) \<and>
     (\<forall>q. dataCopy (heap bc' q) = dataCopy (heap bc q) \<and> difficultyDbl (heap bc' q) = difficultyDbl (heap bc q) \<and>
        thisHash (heap bc' q) = thisHash (heap bc q) \<and> uniqueID (heap bc' q) = uniqueID (heap bc q)) \<and>
     (\<forall>q. difficultySum (heap bc' q) = difficultySum (H q) \<and> blockHeight (heap bc' q) = blockHeight (H q)) \<and>
     (\<forall>q. isFinishedCalc (heap bc' q) \<longleftrightarrow> isFinishedCalc (heap bc q) \<or> q \<in> set V) \<and>
     (\<forall>q. isMainBranch (heap bc' q) \<longleftrightarrow> isMainBranch (heap bc q) \<or> q \<in> set V \<or> q = f) \<and>
     (\<forall>q. isOrphan (heap bc' q) \<longleftrightarrow> isOrphan (H q) \<and> q \<notin> set V) \<and>
     (\<forall>c \<in> set V. \<forall>d. bt_parent T c = Some d \<longrightarrow> nextHash (heap bc' d) = thisHash (heap bc c)) \<and>
     (\<forall>q. q \<notin> set (tl (V @ [f])) \<longrightarrow> nextHash (heap bc' q) = (if q = t then EmptyHash else nextHash (heap bc q))) \<and>
     linorder_lt.map_wf (headersByHeight bc') \<and>
     (\<forall>c \<in> set (V @ [f]). map_find u32_less (blockHeight (H c)) (headersByHeight bc') = Some c) \<and>
     (\<forall>k. (\<forall>c \<in> set (V @ [f]). blockHeight (H c) \<noteq> k) \<longrightarrow>
        map_find u32_less k (headersByHeight bc') = map_find u32_less k (headersByHeight bc))"

lemma updated_map_find:
  assumes "linorder_lt.map_wf u" "linorder_lt.map_wf m"
  shows "linorder_lt.map_wf (updated_map u32_less u m)"
    and "map_find u32_less k (updated_map u32_less u m) =
      (case map_find u32_less k u of Some v \<Rightarrow> Some v | None \<Rightarrow> map_find u32_less k m)"
  using assms(2) by (simp_all add: updated_map_def linorder_lt.map_insert_all_wf [OF assms(1)]
      linorder_lt.map_find_insert_all [OF assms(1)] linorder_lt.map_find_map_of [OF assms(2)] split: option.splits)

lemma heights_published:
  assumes T: "tree_ok T rank" "card (bt_nodes T) \<le> 2 ^ 31" and hts: "heights_ok T bc" and t: "chain_val T t s n"
    and V: "down_path T t V f" "height_entries bc V [] hm" and old: "linorder_lt.map_wf old"
  defines "hm' \<equiv> map_assign u32_less (blockHeight (heap bc f)) f hm"
  shows "linorder_lt.map_wf (updated_map u32_less hm' old)"
    and "c \<in> set (V @ [f]) \<Longrightarrow> map_find u32_less (blockHeight (heap bc c)) (updated_map u32_less hm' old) = Some c"
    and "(\<And>c. c \<in> set (V @ [f]) \<Longrightarrow> blockHeight (heap bc c) \<noteq> k) \<Longrightarrow>
      map_find u32_less k (updated_map u32_less hm' old) = map_find u32_less k old"
proof -
  have hm: "linorder_lt.map_wf hm" "\<And>c. c \<in> set V \<Longrightarrow> map_find u32_less (blockHeight (heap bc c)) hm = Some c"
    "\<And>k. (\<And>c. c \<in> set V \<Longrightarrow> blockHeight (heap bc c) \<noteq> k) \<Longrightarrow> map_find u32_less k hm = None"
    using V(2) unfolding height_entries_def by auto
  have wf': "linorder_lt.map_wf hm'"
    unfolding hm'_def by (rule linorder_lt.map_assign_wf [OF hm(1)])
  note find' = linorder_lt.map_find_assign [OF hm(1), of _ "blockHeight (heap bc f)" f, folded hm'_def]
  note upd = updated_map_find [OF wf' old]
  show "linorder_lt.map_wf (updated_map u32_less hm' old)"
    by (rule upd(1))
  have same: "c = f" if c: "c \<in> set V" "blockHeight (heap bc c) = blockHeight (heap bc f)" for c
  proof -
    have "anc T c t"
      using down_path_anc_iff [OF V(1)] c(1) by blast
    then obtain s' m where m: "chain_val T c s' m"
      using anc_height t by blast
    have "anc T f c"
      using V(1) c(1)
    proof (induction rule: down_path.induct)
      case (step a b V f)
      then show ?case
        using down_path_anc [OF step.hyps(3)] by (auto intro: anc.intros)
    qed simp
    then show ?thesis
      using heights_distinct [OF T(1) hts T(2) m, of f] c(2) by simp
  qed
  show "map_find u32_less (blockHeight (heap bc c)) (updated_map u32_less hm' old) = Some c" if "c \<in> set (V @ [f])"
    using that hm(2) same by (auto simp: upd(2) find')
  show "map_find u32_less k (updated_map u32_less hm' old) = map_find u32_less k old"
    if "\<And>c. c \<in> set (V @ [f]) \<Longrightarrow> blockHeight (heap bc c) \<noteq> k"
    using that hm(3) [of k] by (auto simp: upd(2) find')
qed

lemma passed_publish:
  assumes calc: "same_but_calc bc bc3" and m: "marked T (upd_header t (\<lambda>h. h\<lparr>nextHash := EmptyHash\<rparr>) bc3) V f bc5"
    and wf: "linorder_lt.map_wf hm"
    and here: "\<And>c. c \<in> set (V @ [f]) \<Longrightarrow> map_find u32_less (blockHeight (heap bc3 c)) hm = Some c"
    and there: "\<And>k. (\<And>c. c \<in> set (V @ [f]) \<Longrightarrow> blockHeight (heap bc3 c) \<noteq> k) \<Longrightarrow>
      map_find u32_less k hm = map_find u32_less k (headersByHeight bc)"
  shows "passed T bc (heap bc3) t V f
     (upd_header f (\<lambda>h. h\<lparr>isMainBranch := True\<rparr>) bc5
        \<lparr>headersByHeight := hm, topBlockId := uniqueID (heap bc t), topBlockPtr := Some t\<rparr>)"
proof -
  let ?bc4 = "upd_header t (\<lambda>h. h\<lparr>nextHash := EmptyHash\<rparr>) bc3"
  have same4: "same_but_mark bc3 ?bc4"
    by (rule same_but_mark_upd) (simp add: erase_mark_def)
  have same5: "same_but_mark ?bc4 bc5"
    using m unfolding marked_def by blast
  have marks4: "isFinishedCalc (heap ?bc4 q) = isFinishedCalc (heap bc q)" "isMainBranch (heap ?bc4 q) = isMainBranch (heap bc q)"
    "isOrphan (heap ?bc4 q) = isOrphan (heap bc3 q)"
    "nextHash (heap ?bc4 q) = (if q = t then EmptyHash else nextHash (heap bc q))" for q
    by (simp_all add: upd_header_def same_but_calc_heap [OF calc])
  note keep = same_but_mark_heap [OF same5] same_but_mark_heap [OF same4] same_but_calc_heap [OF calc]
  note fields = same_but_mark_fields [OF same5] same_but_mark_fields [OF same4] same_but_calc_fields [OF calc]
  have m': "isFinishedCalc (heap bc5 q) \<longleftrightarrow> isFinishedCalc (heap bc q) \<or> q \<in> set V"
    "isMainBranch (heap bc5 q) \<longleftrightarrow> isMainBranch (heap bc q) \<or> q \<in> set V"
    "isOrphan (heap bc5 q) \<longleftrightarrow> isOrphan (heap bc3 q) \<and> q \<notin> set V"
    "c \<in> set V \<Longrightarrow> bt_parent T c = Some d \<Longrightarrow> nextHash (heap bc5 d) = thisHash (heap bc c)"
    "q \<notin> set (tl (V @ [f])) \<Longrightarrow> nextHash (heap bc5 q) = (if q = t then EmptyHash else nextHash (heap bc q))" for q c d
    using m unfolding marked_def marks4 by (simp_all add: keep)
  have top: "t \<notin> set (tl (V @ [f])) \<Longrightarrow> nextHash (heap bc5 t) = EmptyHash"
    using m'(5) [of t] by simp
  show ?thesis
    unfolding passed_def using wf here there
    by (intro conjI allI impI ballI; auto simp: upd_header_def [of f] fields keep m'(1-4) top dest: m'(5))
qed

text \<open>The heap \<open>H\<close> has the values of the tree.\<close>

definition valued :: "block_tree \<Rightarrow> (ptr \<Rightarrow> block_header) \<Rightarrow> bool" where
  "valued T H \<longleftrightarrow> (\<forall>p \<in> bt_nodes T. \<forall>s n. chain_val T p s n \<longrightarrow>
      difficultySum (H p) = s \<and> blockHeight (H p) = of_nat n \<and> \<not> isOrphan (H p)) \<and>
     (\<forall>p \<in> bt_nodes T. \<not> rooted T p \<longrightarrow> isOrphan (H p) \<and> difficultySum (H p) = Fin (- 1))"

lemma organize_from_passed:
  assumes T: "tree_ok T rank" and bc: "ready T k bc" and pt: "pt \<in> bt_nodes T"
  defines "t \<equiv> pick T (map snd (headerMap bc)) (difficultySum (heap bc pt)) pt"
  shows "\<exists>V f H bc'. organize_from pt bc = Inr (t = pt \<or> pt \<in> set (tl (V @ [f])), f, bc') \<and>
     passed T bc H t V f bc' \<and> down_path T t V f \<and> isFinishedCalc (heap bc f) \<and>
     (\<forall>c \<in> set V. \<not> isFinishedCalc (heap bc c)) \<and> valued T H"
proof -
  have rdy: "represents T bc" "sums_ok T bc" "orphans_ok T bc" "solved bc (bt_gen T)" "length (headerMap bc) \<le> 2 ^ 31"
    "isFinishedCalc (heap bc (bt_gen T))" "linorder_lt.map_wf (headersByHeight bc)"
    using bc anc_gen_rooted tree_okD(2) [OF T] unfolding ready_def organised_to_def by blast+
  have nodes: "snd ` set (headerMap bc) = bt_nodes T" and card: "card (bt_nodes T) \<le> 2 ^ 31"
    using rdy(1,5) representsD(4) [OF rdy(1)] unfolding represents_def by simp_all
  obtain bc3 where sel: "select_top (headerMap bc) (difficultySum (heap bc pt)) pt bc = Inr (t, bc3)"
    "same_but_calc bc bc3" "sums_ok T bc3" "orphans_ok T bc3" "\<forall>p \<in> bt_nodes T. rooted T p \<longrightarrow> solved bc3 p"
    using select_top_result [OF T rdy(1-5), of "headerMap bc" "difficultySum (heap bc pt)" pt] nodes
    unfolding t_def by auto
  have H: "\<forall>p \<in> bt_nodes T. \<forall>s n. chain_val T p s n \<longrightarrow>
      difficultySum (heap bc3 p) = s \<and> blockHeight (heap bc3 p) = of_nat n \<and> \<not> isOrphan (heap bc3 p)"
    using solved_value [OF sel(3)] sel(5) unfolding rooted_def by blast
  define bc4 where "bc4 = upd_header t (\<lambda>h. h\<lparr>nextHash := EmptyHash\<rparr>) bc3"
  have same4: "same_but_mark bc3 bc4"
    unfolding bc4_def by (rule same_but_mark_upd) (simp add: erase_mark_def)
  have rep4: "represents T bc4"
    using rdy(1) same_but_mark_represents [OF same4] same_but_calc_represents [OF sel(2)] by simp
  have hts4: "heights_ok T bc4"
    using H chain_val_node [OF T] unfolding heights_ok_def by (simp add: same_but_mark_heap(5) [OF same4])
  have fin4: "isFinishedCalc (heap bc4 q) = isFinishedCalc (heap bc q)" for q
    by (simp add: bc4_def upd_header_def same_but_calc_heap [OF sel(2)])
  have "best T t"
    unfolding t_def using nodes pick_best(1) [OF T rdy(2) pt, of "map snd (headerMap bc)"] by simp
  then obtain s n where tv: "chain_val T t s n"
    unfolding best_def rooted_def by blast
  obtain bc5 V f hm where mm: "mark_main bc4 t pt [] (t = pt) = Inr (bc5, f, hm, t = pt \<or> pt \<in> set (tl (V @ [f])))"
    "down_path T t V f" "isFinishedCalc (heap bc f)" "\<forall>c \<in> set V. \<not> isFinishedCalc (heap bc c)"
    "marked T bc4 V f bc5" "height_entries bc4 V [] hm"
    using mark_main_result [OF T card tv rep4 hts4, of "[]" pt "t = pt"] rdy(6) fin4 by auto
  have same5: "same_but_mark bc4 bc5"
    using mm(5) unfolding marked_def by blast
  note keep = same_but_mark_heap [OF same5] same_but_mark_heap [OF same4] same_but_calc_heap [OF sel(2)]
  note fields = same_but_mark_fields [OF same5] same_but_mark_fields [OF same4] same_but_calc_fields [OF sel(2)]
  let ?hm = "updated_map u32_less (map_assign u32_less (blockHeight (heap bc4 f)) f hm) (headersByHeight bc)"
  let ?bc = "upd_header f (\<lambda>h. h\<lparr>isMainBranch := True\<rparr>) bc5
      \<lparr>headersByHeight := ?hm, topBlockId := uniqueID (heap bc t), topBlockPtr := Some t\<rparr>"
  have run: "organize_from pt bc = Inr (t = pt \<or> pt \<in> set (tl (V @ [f])), f, ?bc)"
    unfolding organize_from_def sel(1) by (simp add: mm(1) flip: bc4_def) (simp add: upd_header_def fields keep)
  have "passed T bc (heap bc3) t V f ?bc"
    using heights_published [OF T card hts4 tv mm(2,6) rdy(7)]
    by (intro passed_publish [OF sel(2) mm(5) [unfolded bc4_def]]) (auto simp: same_but_mark_heap(5) [OF same4])
  moreover have "valued T (heap bc3)"
    using H sel(3,4) unfolding orphans_ok_def valued_def sums_ok_def rooted_def by blast
  ultimately show ?thesis
    using run mm(2-4) by blast
qed

lemma passedD:
  assumes "passed T bc H t V f bc'"
  shows "headerMap bc' = headerMap bc" "headersById bc' = headersById bc" "genesisHash bc' = genesisHash bc"
    "topBlockPtr bc' = Some t" "topBlockId bc' = uniqueID (heap bc t)"
    "dataCopy (heap bc' q) = dataCopy (heap bc q)" "difficultyDbl (heap bc' q) = difficultyDbl (heap bc q)"
    "thisHash (heap bc' q) = thisHash (heap bc q)" "uniqueID (heap bc' q) = uniqueID (heap bc q)"
    "difficultySum (heap bc' q) = difficultySum (H q)" "blockHeight (heap bc' q) = blockHeight (H q)"
    "isFinishedCalc (heap bc' q) \<longleftrightarrow> isFinishedCalc (heap bc q) \<or> q \<in> set V"
    "isMainBranch (heap bc' q) \<longleftrightarrow> isMainBranch (heap bc q) \<or> q \<in> set V \<or> q = f"
    "isOrphan (heap bc' q) \<longleftrightarrow> isOrphan (H q) \<and> q \<notin> set V"
    "c \<in> set V \<Longrightarrow> bt_parent T c = Some d \<Longrightarrow> nextHash (heap bc' d) = thisHash (heap bc c)"
    "q \<notin> set (tl (V @ [f])) \<Longrightarrow> nextHash (heap bc' q) = (if q = t then EmptyHash else nextHash (heap bc q))"
    "linorder_lt.map_wf (headersByHeight bc')"
    "c \<in> set (V @ [f]) \<Longrightarrow> map_find u32_less (blockHeight (H c)) (headersByHeight bc') = Some c"
    "(\<And>c. c \<in> set (V @ [f]) \<Longrightarrow> blockHeight (H c) \<noteq> j) \<Longrightarrow>
       map_find u32_less j (headersByHeight bc') = map_find u32_less j (headersByHeight bc)"
  using assms unfolding passed_def by simp_all blast

lemma organised_toD:
  assumes "organised_to T k bc"
  shows "rooted T k" "q \<in> bt_nodes T \<Longrightarrow> isFinishedCalc (heap bc q) \<longleftrightarrow> anc T q k"
    "q \<in> bt_nodes T \<Longrightarrow> isMainBranch (heap bc q) \<longleftrightarrow> anc T q k"
    "anc T c k \<Longrightarrow> c \<noteq> bt_gen T \<Longrightarrow> bt_parent T c = Some d \<Longrightarrow> nextHash (heap bc d) = thisHash (heap bc c)"
    "linorder_lt.map_wf (headersByHeight bc)"
    "anc T q k \<Longrightarrow> q \<noteq> k \<Longrightarrow> chain_val T q s n \<Longrightarrow> map_find u32_less (of_nat n) (headersByHeight bc) = Some q"
  using assms unfolding organised_to_def by blast+

lemma down_path_below: "down_path T t V f \<Longrightarrow> c \<in> set (V @ [f]) \<Longrightarrow> anc T f c"
proof (induction rule: down_path.induct)
  case (step a b V f)
  then show ?case
    using down_path_anc [OF step.hyps(3)] by (auto intro: anc.intros)
qed (simp add: anc.self)

lemma valuedD:
  assumes "valued T H"
  shows "p \<in> bt_nodes T \<Longrightarrow> chain_val T p s n \<Longrightarrow> difficultySum (H p) = s"
    "p \<in> bt_nodes T \<Longrightarrow> chain_val T p s n \<Longrightarrow> blockHeight (H p) = of_nat n"
    "p \<in> bt_nodes T \<Longrightarrow> chain_val T p s n \<Longrightarrow> \<not> isOrphan (H p)"
    "p \<in> bt_nodes T \<Longrightarrow> \<not> rooted T p \<Longrightarrow> isOrphan (H p)"
    "p \<in> bt_nodes T \<Longrightarrow> \<not> rooted T p \<Longrightarrow> difficultySum (H p) = Fin (- 1)"
  using assms unfolding valued_def by blast+

text \<open>Two headers of one branch with the same height are the same.\<close>

lemma height_inj:
  assumes T: "tree_ok T rank" "card (bt_nodes T) \<le> 2 ^ 31" and "anc T q c" "chain_val T q s n" "chain_val T c s' m"
    and "(of_nat m :: u32) = of_nat n"
  shows "q = c"
proof -
  have "n \<le> m" "n = m \<longrightarrow> q = c"
    using anc_height [OF assms(3,5)] chain_val_unique [OF assms(4)] by auto
  moreover have "m < 2 ^ 32"
    using chain_val_height_bound [OF assms(5) T(1)] T(2) by simp
  ultimately show ?thesis
    using assms(6) by (simp add: word_of_nat_eq_iff take_bit_nat_eq_self)
qed

lemma passed_links:
  assumes T: "tree_ok T rank" and k: "organised_to T k bc" and ps: "passed T bc H t V k bc'"
    and V: "down_path T t V k" "t \<in> bt_nodes T" and fresh: "\<And>c. c \<in> set V \<Longrightarrow> \<not> anc T c k"
    and c: "anc T c t" "c \<noteq> bt_gen T" "bt_parent T c = Some d"
  shows "nextHash (heap bc' d) = thisHash (heap bc' c)"
proof (cases "c \<in> set V")
  case True
  then show ?thesis
    using passedD(8,15) [OF ps] c(3) by metis
next
  case False
  then have ck: "anc T c k"
    using c(1) down_path_anc_iff [OF V(1)] by blast
  have kn: "k \<in> bt_nodes T" "rank k \<le> rank t"
    using anc_rank [OF down_path_anc [OF V(1)] T V(2)] by auto
  have dk: "anc T d k" "rank d < rank k"
    using anc_trans [OF ck anc.link [OF c(2,3) anc.self]] anc_rank [OF ck T kn(1)] tree_okD(5) [OF T _ c(2,3)]
    by (auto intro: less_le_trans)
  have "d \<notin> set (tl (V @ [k]))"
    using dk fresh by (cases V) auto
  moreover have "d \<noteq> t"
    using dk(2) kn(2) by auto
  ultimately show ?thesis
    using passedD(8,16) [OF ps] organised_toD(4) [OF k ck c(2,3)] by simp
qed

lemma passed_heights:
  assumes T: "tree_ok T rank" "card (bt_nodes T) \<le> 2 ^ 31" and k: "organised_to T k bc" and ps: "passed T bc H t V k bc'"
    and V: "down_path T t V k" "t \<in> bt_nodes T" "rooted T t" and H: "valued T H"
    and q: "anc T q t" "chain_val T q s n"
  shows "map_find u32_less (of_nat n) (headersByHeight bc') = Some q"
proof (cases "q \<in> set (V @ [k])")
  case True
  then show ?thesis
    using passedD(18) [OF ps, of q] valuedD(2) [OF H _ q(2)] chain_val_node [OF T(1) q(2)] by simp
next
  case False
  then have qk: "anc T q k" "q \<noteq> k"
    using q(1) down_path_anc_iff [OF V(1)] by auto
  have "blockHeight (H c) \<noteq> of_nat n" if c: "c \<in> set (V @ [k])" for c
  proof
    assume eq: "blockHeight (H c) = of_nat n"
    have "anc T c t"
      using c down_path_anc_iff [OF V(1)] anc.self by auto
    then obtain s' m where m: "chain_val T c s' m"
      using anc_rooted V(3) rooted_def by blast
    have "anc T q c"
      using anc_trans [OF down_path_below [OF V(1) c] qk(1)] .
    then have "q = c"
      using height_inj [OF T _ q(2) m] eq valuedD(2) [OF H chain_val_node [OF T(1) m] m] by simp
    then show False
      using False c by simp
  qed
  then show ?thesis
    using passedD(19) [OF ps] organised_toD(6) [OF k qk q(2)] by simp
qed

text \<open>When the walk stopped at the top of the organised part, the whole branch of the new top is organised.\<close>

lemma passed_organised:
  assumes T: "tree_ok T rank" and bc: "ready T k bc" and ps: "passed T bc H t V k bc'" and V: "down_path T t V k"
    and fresh: "\<And>c. c \<in> set V \<Longrightarrow> \<not> isFinishedCalc (heap bc c)" and t: "best T t" "t \<in> bt_nodes T" and H: "valued T H"
  shows "organised T t bc'"
proof -
  have k: "organised_to T k bc" and card: "card (bt_nodes T) \<le> 2 ^ 31"
    using bc representsD(4) unfolding ready_def by auto
  have root_t: "rooted T t"
    using t(1) unfolding best_def by blast
  have nodes: "set V \<subseteq> bt_nodes T"
    using down_path_rank [OF T V t(2)] by auto
  have fresh': "\<not> anc T c k" if "c \<in> set V" for c
    using fresh [OF that] organised_toD(2) [OF k] nodes that by blast
  have iff: "anc T q t \<longleftrightarrow> q \<in> set V \<or> anc T q k" for q
    by (rule down_path_anc_iff [OF V])
  have main: "isFinishedCalc (heap bc' q) \<longleftrightarrow> anc T q t" "isMainBranch (heap bc' q) \<longleftrightarrow> anc T q t" if "q \<in> bt_nodes T" for q
    using organised_toD(2,3) [OF k that] passedD(12,13) [OF ps] iff anc.self by auto
  have "organised_to T t bc'"
    unfolding organised_to_def
    using root_t main passed_links [OF T k ps V t(2) fresh'] passedD(17) [OF ps]
      passed_heights [OF T card k ps V t(2) root_t H] by blast
  moreover have "isOrphan (heap bc' p) \<and> \<not> isMainBranch (heap bc' p) \<and> difficultySum (heap bc' p) = Fin (- 1)" if p: "p \<in> bt_nodes T" "\<not> rooted T p" for p
  proof -
    have "\<not> anc T p t"
      using anc_rooted [OF _ root_t] p(2) by blast
    then show ?thesis
      using passedD(10,14) [OF ps, of p] valuedD(4,5) [OF H p] main(2) [OF p(1)] iff by auto
  qed
  moreover have "t \<notin> set (tl (V @ [k]))"
    using down_path_rank [OF T V t(2)] by blast
  then have "nextHash (heap bc' t) = EmptyHash"
    using passedD(16) [OF ps] by simp
  ultimately show ?thesis
    unfolding organised_def
    using t(1) passed_heights [OF T card k ps V t(2) root_t H anc.self] valuedD(1-3) [OF H] passedD(4,5,9,10,11,14) [OF ps]
    by simp
qed

section \<open>Passes in a row\<close>

text \<open>Block identifiers: every header is found under its own, the genesis placeholder maybe under none.\<close>

definition ids_ok :: "block_tree \<Rightarrow> blockchain \<Rightarrow> bool" where
  "ids_ok T bc \<longleftrightarrow> linorder_lt.map_wf (headersById bc) \<and>
     (\<forall>p \<in> bt_nodes T. map_find u32_less (uniqueID (heap bc p)) (headersById bc) = Some p \<or>
        p = bt_gen T \<and> map_find u32_less (uniqueID (heap bc p)) (headersById bc) = None) \<and>
     snd ` set (headersById bc) \<subseteq> bt_nodes T"

definition chain_inv :: "block_tree \<Rightarrow> blockchain \<Rightarrow> bool" where
  "chain_inv T bc \<longleftrightarrow> represents T bc \<and> orphans_ok T bc \<and> ids_ok T bc \<and> linorder_lt.map_wf (headersByHeight bc) \<and>
     length (headerMap bc) \<le> 2 ^ 31"

text \<open>What the next pass finds once it has set the genesis block.\<close>

definition awaits :: "block_tree \<Rightarrow> ptr \<Rightarrow> blockchain \<Rightarrow> bool" where
  "awaits T k bc \<longleftrightarrow> ready T k (set_genesis (bt_gen T) bc)"

lemma known_top_node: "ids_ok T bc \<Longrightarrow> tree_ok T rank \<Longrightarrow> known_top (bt_gen T) bc \<in> bt_nodes T"
  unfolding ids_ok_def known_top_def
  using map_find_in_set [of u32_less "topBlockId bc" "headersById bc"] tree_okD(2) [of T rank]
  by (cases "map_find u32_less (topBlockId bc) (headersById bc)") auto

lemma known_top_eq:
  "ids_ok T bc \<Longrightarrow> t \<in> bt_nodes T \<Longrightarrow> topBlockId bc = uniqueID (heap bc t) \<Longrightarrow> known_top (bt_gen T) bc = t"
  unfolding ids_ok_def known_top_def by (auto split: option.splits)

lemma represents_genesis: "represents T bc \<Longrightarrow> getGenesisBlock bc = Inr (bt_gen T)"
  by (simp add: represents_def getGenesisBlock_def)

lemma set_genesis_fields [simp]:
  "headerMap (set_genesis g bc) = headerMap bc" "headersById (set_genesis g bc) = headersById bc"
  "headersByHeight (set_genesis g bc) = headersByHeight bc" "genesisHash (set_genesis g bc) = genesisHash bc"
  "topBlockId (set_genesis g bc) = topBlockId bc"
  "dataCopy (heap (set_genesis g bc) p) = dataCopy (heap bc p)" "uniqueID (heap (set_genesis g bc) p) = uniqueID (heap bc p)"
  "p \<noteq> g \<Longrightarrow> heap (set_genesis g bc) p = heap bc p"
  by (simp_all add: set_genesis_def upd_header_def)

lemma chain_inv_cong:
  assumes "chain_inv T bc" "headerMap bc' = headerMap bc" "genesisHash bc' = genesisHash bc" "headersById bc' = headersById bc"
    and "\<And>p. dataCopy (heap bc' p) = dataCopy (heap bc p)" "\<And>p. uniqueID (heap bc' p) = uniqueID (heap bc p)"
    and "\<And>p. p \<noteq> bt_gen T \<Longrightarrow> difficultyDbl (heap bc' p) = difficultyDbl (heap bc p)"
    and "orphans_ok T bc'" "linorder_lt.map_wf (headersByHeight bc')"
  shows "chain_inv T bc'"
proof -
  have "represents T bc'"
    using assms(1) unfolding chain_inv_def represents_def by (simp add: assms(2,3,5,7))
  moreover have "ids_ok T bc'"
    using assms(1) unfolding chain_inv_def ids_ok_def by (simp add: assms(4,6))
  ultimately show ?thesis
    using assms(1,2,8,9) unfolding chain_inv_def by simp
qed

lemma chain_inv_set_genesis: "chain_inv T bc \<Longrightarrow> chain_inv T (set_genesis (bt_gen T) bc)"
proof (rule chain_inv_cong)
  assume "chain_inv T bc"
  moreover have "isOrphan (heap (set_genesis (bt_gen T) bc) p) \<longleftrightarrow> p \<noteq> bt_gen T \<and> isOrphan (heap bc p)" for p
    by (simp add: set_genesis_def upd_header_def)
  ultimately show "orphans_ok T (set_genesis (bt_gen T) bc)"
    using rooted_root unfolding chain_inv_def orphans_ok_def by metis
qed (simp_all add: chain_inv_def)

lemma fold_reset_heap:
  "heap (fold (\<lambda>(h, p). upd_header p reset_header) hs bc) p = (if p \<in> snd ` set hs then reset_header (heap bc p) else heap bc p)"
proof (induction hs arbitrary: bc)
  case (Cons e hs)
  obtain h q where e: "e = (h, q)" by force
  have idem: "reset_header (reset_header x) = reset_header x" for x
    by (simp add: reset_header_def)
  show ?case
    using Cons.IH [of "upd_header q reset_header bc"] by (simp add: e upd_header_def idem)
qed simp

lemma fold_reset_field:
  assumes "\<And>b h. f (b\<lparr>heap := h\<rparr>) = f b"
  shows "f (fold (\<lambda>(h, p). upd_header p reset_header) hs bc) = f bc"
  by (induction hs arbitrary: bc) (auto simp: upd_header_def assms)

lemma reset_all_heap: "heap (reset_all bc) p = (if p \<in> snd ` set (headerMap bc) then reset_header (heap bc p) else heap bc p)"
  by (simp add: reset_all_def fold_reset_heap)

lemma reset_all_fields [simp]:
  "headerMap (reset_all bc) = headerMap bc" "headersById (reset_all bc) = headersById bc"
  "headersByHeight (reset_all bc) = headersByHeight bc" "genesisHash (reset_all bc) = genesisHash bc"
  "topBlockId (reset_all bc) = topBlockId bc"
  by (simp_all add: reset_all_def fold_reset_field [where f = headerMap] fold_reset_field [where f = headersById]
      fold_reset_field [where f = headersByHeight] fold_reset_field [where f = genesisHash] fold_reset_field [where f = topBlockId])

lemma chain_inv_reset_all: "chain_inv T bc \<Longrightarrow> chain_inv T (reset_all bc)"
  by (rule chain_inv_cong) (simp_all add: chain_inv_def orphans_ok_def reset_all_heap reset_header_def)

text \<open>After a reset only the genesis block is organised.\<close>

lemma ready_reset:
  assumes T: "tree_ok T rank" and inv: "chain_inv T bc"
  shows "awaits T (bt_gen T) (reset_all bc)"
proof -
  let ?bc = "set_genesis (bt_gen T) (reset_all bc)"
  have inv': "chain_inv T ?bc"
    using chain_inv_set_genesis chain_inv_reset_all inv by blast
  have nodes: "bt_nodes T = snd ` set (headerMap bc)"
    using inv unfolding chain_inv_def represents_def by blast
  have gen: "heap ?bc (bt_gen T) = (heap (reset_all bc) (bt_gen T))\<lparr>blockHeight := 0, difficultyDbl := Fin 1,
      difficultySum := Fin 1, isMainBranch := True, isOrphan := False, isFinishedCalc := True, isInitialized := True\<rparr>"
    by (simp add: set_genesis_def upd_header_def)
  have other: "heap ?bc p = reset_header (heap bc p)" if "p \<in> bt_nodes T" "p \<noteq> bt_gen T" for p
    using that nodes by (simp add: reset_all_heap)
  have "sums_ok T ?bc"
    unfolding sums_ok_def
  proof
    fix p assume "p \<in> bt_nodes T"
    then show "difficultySum (heap ?bc p) = Fin (- 1) \<or> (\<exists>n. chain_val T p (difficultySum (heap ?bc p)) n \<and>
        blockHeight (heap ?bc p) = of_nat n \<and> \<not> isOrphan (heap ?bc p))"
    proof (cases "p = bt_gen T")
      case True
      then show ?thesis
        using root [of T] by (auto simp: gen intro!: exI [of _ 0])
    next
      case False
      then show ?thesis
        using other [OF \<open>p \<in> bt_nodes T\<close>] by (simp add: reset_header_def del: set_genesis_fields(8))
    qed
  qed
  moreover have "(isFinishedCalc (heap ?bc p) \<longleftrightarrow> p = bt_gen T) \<and> (isMainBranch (heap ?bc p) \<longleftrightarrow> p = bt_gen T)"
    if "p \<in> bt_nodes T" for p
    using that other by (cases "p = bt_gen T") (simp_all add: gen reset_header_def del: set_genesis_fields(8))
  then have "organised_to T (bt_gen T) ?bc"
    using inv' unfolding organised_to_def chain_inv_def by simp
  ultimately show ?thesis
    using inv' gen unfolding awaits_def ready_def chain_inv_def solved_def by simp
qed

text \<open>Organising changes neither the containers by hash and by identifier nor what the headers were read with.\<close>

definition same_data :: "ptr \<Rightarrow> blockchain \<Rightarrow> blockchain \<Rightarrow> bool" where
  "same_data g bc bc' \<longleftrightarrow> headerMap bc' = headerMap bc \<and> headersById bc' = headersById bc \<and> genesisHash bc' = genesisHash bc \<and>
     (\<forall>q. dataCopy (heap bc' q) = dataCopy (heap bc q) \<and> thisHash (heap bc' q) = thisHash (heap bc q) \<and>
        uniqueID (heap bc' q) = uniqueID (heap bc q)) \<and>
     (\<forall>q. q \<noteq> g \<longrightarrow> difficultyDbl (heap bc' q) = difficultyDbl (heap bc q))"

lemma same_data_trans: "same_data g a b \<Longrightarrow> same_data g b c \<Longrightarrow> same_data g a c"
  by (simp add: same_data_def)

lemma same_data_set_genesis: "same_data g bc (set_genesis g bc\<lparr>topBlockPtr := x\<rparr>)"
  by (simp add: same_data_def set_genesis_def upd_header_def)

lemma same_data_reset_all: "same_data g bc (reset_all bc)"
  by (simp add: same_data_def reset_all_heap reset_header_def)

lemma same_data_passed: "passed T bc H t V f bc' \<Longrightarrow> same_data g bc bc'"
  unfolding same_data_def by (intro conjI allI impI) (rule passedD; assumption)+

lemma same_data_tree_of:
  "same_data (bt_gen (tree_of bc)) bc bc' \<Longrightarrow> map_find bd_less (genesisHash bc) (headerMap bc) \<noteq> None \<Longrightarrow> tree_of bc' = tree_of bc"
  by (auto simp: same_data_def tree_of_def fun_eq_iff)

lemma topBlockPtr_irrelevant [simp]:
  "ready T k (bc\<lparr>topBlockPtr := x\<rparr>) \<longleftrightarrow> ready T k bc" "chain_inv T (bc\<lparr>topBlockPtr := x\<rparr>) \<longleftrightarrow> chain_inv T bc"
  by (simp_all add: ready_def chain_inv_def represents_def sums_ok_def orphans_ok_def ids_ok_def solved_def organised_to_def)

lemma passed_inv:
  assumes T: "tree_ok T rank" and inv: "chain_inv T bc" and ps: "passed T bc H t V f bc'" and V: "down_path T t V f"
    and t: "rooted T t" and H: "valued T H"
  shows "chain_inv T bc'"
proof (rule chain_inv_cong [OF inv])
  have "rooted T q" if "q \<in> set V" for q
    using that down_path_anc_iff [OF V] anc_rooted t by blast
  then show "orphans_ok T bc'"
    using passedD(14) [OF ps] valuedD(4) [OF H] unfolding orphans_ok_def by blast
qed (simp_all add: passedD [OF ps])

lemma organize_pass_result:
  fixes force :: bool and bc :: blockchain
  defines "bc0 \<equiv> (if force then reset_all bc else bc)"
  assumes T: "tree_ok T rank" and inv: "chain_inv T bc0" and aw: "awaits T k bc0"
  defines "pt \<equiv> known_top (bt_gen T) bc"
  defines "m \<equiv> difficultySum (heap (set_genesis (bt_gen T) bc0) pt)"
  defines "t \<equiv> pick T (map snd (headerMap bc)) m pt"
  shows "\<exists>V f bc'. organize_pass force bc = Inr (t = pt \<or> pt \<in> set (tl (V @ [f])), f, bc') \<and> chain_inv T bc' \<and>
     same_data (bt_gen T) bc bc' \<and> topBlockId bc' = uniqueID (heap bc' t) \<and> down_path T t V f \<and> anc T f k \<and> (\<forall>c \<in> set V. \<not> anc T c k) \<and>
     (f = k \<longrightarrow> organised T t bc')"
    and "best T t" "t \<in> bt_nodes T" "t \<noteq> pt \<Longrightarrow> \<exists>v. tree_val T t = Some v \<and> m < v"
proof -
  let ?bc1 = "set_genesis (bt_gen T) bc0"
  let ?bc2 = "?bc1\<lparr>topBlockPtr := Some pt\<rparr>"
  have same: "headerMap bc0 = headerMap bc" "headersById bc0 = headersById bc" "topBlockId bc0 = topBlockId bc"
    by (simp_all add: bc0_def)
  have rdy: "ready T k ?bc2" and inv2: "chain_inv T ?bc2"
    using aw chain_inv_set_genesis [OF inv] by (simp_all add: awaits_def)
  have "known_top (bt_gen T) bc0 = pt"
    by (simp add: pt_def known_top_def same)
  then have pt: "known_top (bt_gen T) ?bc1 = pt" "pt \<in> bt_nodes T"
    using known_top_node [OF _ T] inv by (simp_all add: known_top_def chain_inv_def) metis
  have ps: "set (map snd (headerMap bc)) = bt_nodes T" and sums: "sums_ok T ?bc2"
    using rdy unfolding ready_def represents_def by (simp_all add: same)
  have m: "m = difficultySum (heap ?bc2 pt)"
    by (simp add: m_def)
  show best: "best T t" and node: "t \<in> bt_nodes T" and "t \<noteq> pt \<Longrightarrow> \<exists>v. tree_val T t = Some v \<and> m < v"
    unfolding t_def m by (rule pick_best [OF T sums pt(2) ps]; assumption?)+
  have "getGenesisBlock bc0 = Inr (bt_gen T)"
    using inv represents_genesis unfolding chain_inv_def by blast
  then have run: "organize_pass force bc = organize_from pt ?bc2"
    using pt(1) by (simp add: organize_pass_def Let_def flip: bc0_def)
  obtain V f H bc' where *: "organize_from pt ?bc2 = Inr (t = pt \<or> pt \<in> set (tl (V @ [f])), f, bc')"
    "passed T ?bc2 H t V f bc'" "down_path T t V f" "isFinishedCalc (heap ?bc2 f)"
    "\<forall>c \<in> set V. \<not> isFinishedCalc (heap ?bc2 c)" "valued T H"
    using organize_from_passed [OF T rdy pt(2)] unfolding t_def m by (simp add: same) metis
  have to: "organised_to T k ?bc2"
    using rdy unfolding ready_def by blast
  have nodes: "set (V @ [f]) \<subseteq> bt_nodes T"
    using down_path_rank [OF T *(3) node] by blast
  have "anc T f k" "\<forall>c \<in> set V. \<not> anc T c k"
    using *(4,5) nodes organised_toD(2) [OF to] by auto
  moreover have "chain_inv T bc'"
    using passed_inv [OF T inv2 *(2,3) _ *(6)] best unfolding best_def by blast
  moreover have "topBlockId bc' = uniqueID (heap bc' t)"
    using passedD(5,9) [OF *(2)] by simp
  moreover have "same_data (bt_gen T) bc bc0"
    using same_data_reset_all by (simp add: bc0_def same_data_def)
  then have "same_data (bt_gen T) bc bc'"
    by (rule same_data_trans [OF _ same_data_trans [OF same_data_set_genesis same_data_passed [OF *(2)]]])
  moreover have "organised T t bc'" if "f = k"
    using passed_organised [OF T rdy, of H t V bc'] *(2,3,5,6) best node that by blast
  ultimately show "\<exists>V f bc'. organize_pass force bc = Inr (t = pt \<or> pt \<in> set (tl (V @ [f])), f, bc') \<and> chain_inv T bc' \<and>
     same_data (bt_gen T) bc bc' \<and> topBlockId bc' = uniqueID (heap bc' t) \<and> down_path T t V f \<and> anc T f k \<and> (\<forall>c \<in> set V. \<not> anc T c k) \<and>
     (f = k \<longrightarrow> organised T t bc')"
    using run *(1,3) by auto
qed

lemma reset_sum:
  assumes "chain_inv T bc" "t \<in> bt_nodes T"
  shows "difficultySum (heap (set_genesis (bt_gen T) (reset_all bc)) t) = (if t = bt_gen T then Fin 1 else Fin (- 1))"
  using assms unfolding chain_inv_def represents_def
  by (simp add: set_genesis_def upd_header_def reset_all_heap reset_header_def)

lemma pick_again:
  assumes "best T t" "t \<in> set ps" "tree_val T t = Some v" "set ps = bt_nodes T"
    and "t = bt_gen T \<or> (\<exists>m a. t = pick T ps m a \<and> m < v)" and "tree_ok T rank"
  shows "pick T ps (if t = bt_gen T then Fin 1 else Fin (- 1)) t = t"
proof (cases "t = bt_gen T")
  case True
  have "\<not> Fin 1 < w" if "p \<in> set ps" "tree_val T p = Some w" for p w
    using assms(1,4) that True tree_val_gen [of T] unfolding best_def by (metis not_le)
  then show ?thesis
    using pick_cases [of T ps "Fin 1" t] True by auto
next
  case False
  then obtain m a where ma: "t = pick T ps m a" "m < v"
    using assms(5) by blast
  obtain n where "chain_val T t v n"
    using tree_val_SomeD [OF assms(3)] by blast
  then have "Fin 1 \<le> v"
    using chain_val_ok assms(6) by blast
  then have "Fin (- 1) < v"
    by (rule less_le_trans [rotated]) simp
  then show ?thesis
    using pick_agree [OF assms(2,3) ma(2), of "Fin (- 1)" a t] ma(1) False by simp
qed

text \<open>A rebuild that starts from the top a pass chose confirms it.\<close>

lemma second_pass:
  assumes T: "tree_ok T rank" and inv: "chain_inv T bc" and t: "topBlockId bc = uniqueID (heap bc t)" "t \<in> bt_nodes T" "best T t"
    and chosen: "t = bt_gen T \<or> (\<exists>m a v. t = pick T (map snd (headerMap bc)) m a \<and> tree_val T t = Some v \<and> m < v)"
  shows "\<exists>f bc'. organize_pass True bc = Inr (True, f, bc') \<and> organised T t bc' \<and> chain_inv T bc' \<and> same_data (bt_gen T) bc bc'"
proof -
  have ids: "ids_ok T bc" and nodes: "set (map snd (headerMap bc)) = bt_nodes T"
    using inv unfolding chain_inv_def represents_def by auto
  have pt: "known_top (bt_gen T) bc = t"
    by (rule known_top_eq [OF ids t(2,1)])
  obtain v where v: "tree_val T t = Some v"
    using t(3) tree_val_None [of T t] unfolding best_def by (cases "tree_val T t") auto
  have again: "pick T (map snd (headerMap bc)) (if t = bt_gen T then Fin 1 else Fin (- 1)) t = t"
    using pick_again [OF t(3) _ v nodes _ T] t(2) nodes chosen v by auto
  note pass = organize_pass_result(1) [OF T, of True bc "bt_gen T"]
  obtain V f bc' where "organize_pass True bc = Inr (t = t \<or> t \<in> set (tl (V @ [f])), f, bc')" "chain_inv T bc'"
    "same_data (bt_gen T) bc bc'" "anc T f (bt_gen T)" "f = bt_gen T \<longrightarrow> organised T t bc'"
    using pass chain_inv_reset_all [OF inv] ready_reset [OF T inv]
    by (simp add: pt reset_sum [OF inv t(2)] again) metis
  then show ?thesis by auto
qed

text \<open>A rebuild from scratch, from any state that represents the tree.\<close>

lemma organizeChain_forced:
  assumes T: "tree_ok T rank" and inv: "chain_inv T bc"
  shows "\<exists>branch t bc'. organizeChain 2 True bc = Some (Inr (branch, bc')) \<and> organised T t bc' \<and> chain_inv T bc' \<and> same_data (bt_gen T) bc bc'"
proof -
  let ?pt = "known_top (bt_gen T) bc" and ?m = "difficultySum (heap (set_genesis (bt_gen T) (reset_all bc)) (known_top (bt_gen T) bc))"
  define t where "t = pick T (map snd (headerMap bc)) ?m ?pt"
  note pass = organize_pass_result [OF T, of True bc "bt_gen T", simplified, OF chain_inv_reset_all [OF inv] ready_reset [OF T inv],
      folded t_def]
  obtain V f bc1 where 1: "organize_pass True bc = Inr (t = ?pt \<or> ?pt \<in> set (tl (V @ [f])), f, bc1)" "chain_inv T bc1"
    "topBlockId bc1 = uniqueID (heap bc1 t)" "same_data (bt_gen T) bc bc1" "organised T t bc1"
    using pass(1) by auto
  show ?thesis
  proof (cases "t = ?pt \<or> ?pt \<in> set (tl (V @ [f]))")
    case True
    then have "organizeChain 2 True bc = Some (Inr (None, bc1))"
      using 1(1) by (simp add: numeral_2_eq_2)
    then show ?thesis using 1 by blast
  next
    case False
    then obtain f2 bc2 where 2: "organize_pass True bc1 = Inr (True, f2, bc2)" "organised T t bc2" "chain_inv T bc2"
      "same_data (bt_gen T) bc1 bc2"
      using second_pass [OF T 1(2,3) pass(3,2)] pass(4) 1(4) unfolding t_def same_data_def by auto
    have "organizeChain 2 True bc = Some (Inr (Some f, bc2))"
      using 1(1) 2(1) False by (simp add: numeral_2_eq_2)
    then show ?thesis using 2 same_data_trans [OF 1(4) 2(4)] by blast
  qed
qed

text \<open>
  The ordinary call, from a state organised up to \<open>k\<close>: the previous top, or the genesis block when nothing
  was organised before.
\<close>

lemma organizeChain_ordinary:
  assumes T: "tree_ok T rank" and inv: "chain_inv T bc" and aw: "awaits T k bc" "k \<in> bt_nodes T"
    and k: "k = known_top (bt_gen T) bc \<or> k = bt_gen T"
  shows "\<exists>branch t bc'. organizeChain 2 False bc = Some (Inr (branch, bc')) \<and> organised T t bc' \<and> chain_inv T bc' \<and>
     same_data (bt_gen T) bc bc' \<and>
     (case branch of
        None \<Rightarrow> anc T (known_top (bt_gen T) bc) t
      | Some f \<Rightarrow> \<not> anc T (known_top (bt_gen T) bc) t \<and> anc T f t \<and> anc T f k \<and>
          (\<forall>q. anc T q t \<longrightarrow> anc T q k \<longrightarrow> anc T q f))"
proof -
  let ?pt = "known_top (bt_gen T) bc" and ?m = "difficultySum (heap (set_genesis (bt_gen T) bc) (known_top (bt_gen T) bc))"
  define t where "t = pick T (map snd (headerMap bc)) ?m ?pt"
  note pass = organize_pass_result [OF T, of False bc k, simplified, OF inv aw(1), folded t_def]
  obtain V f bc1 where 1: "organize_pass False bc = Inr (t = ?pt \<or> ?pt \<in> set (tl (V @ [f])), f, bc1)" "chain_inv T bc1"
    "topBlockId bc1 = uniqueID (heap bc1 t)" "same_data (bt_gen T) bc bc1" "down_path T t V f" "anc T f k"
    "\<forall>c \<in> set V. \<not> anc T c k" "f = k \<longrightarrow> organised T t bc1"
    using pass(1) by auto
  have iff: "anc T q t \<longleftrightarrow> q \<in> set V \<or> anc T q f" for q
    by (rule down_path_anc_iff [OF 1(5)])
  have stop: "f = k" if "?pt \<in> set (V @ [f])"
    using k
  proof
    assume "k = ?pt"
    then show ?thesis
      using that 1(7) anc.self by auto
  qed (use 1(6) in simp)
  have hd: "hd (V @ [f]) = t"
    by (rule down_path_hd [OF 1(5)])
  show ?thesis
  proof (cases "t = ?pt \<or> ?pt \<in> set (tl (V @ [f]))")
    case True
    then have "?pt \<in> set (V @ [f])"
      using hd by (cases "V @ [f]") auto
    then have "organised T t bc1" "anc T ?pt t"
      using stop 1(8) iff anc.self by auto
    moreover have "organizeChain 2 False bc = Some (Inr (None, bc1))"
      using 1(1) True by (simp add: numeral_2_eq_2)
    ultimately show ?thesis
      using 1(2,4) by (intro exI [of _ None] exI [of _ t] exI [of _ bc1]) simp
  next
    case False
    then have out: "?pt \<notin> set (V @ [f])"
      using hd by (cases "V @ [f]") auto
    have "\<not> anc T ?pt f"
    proof
      assume a: "anc T ?pt f"
      have "f = ?pt"
        using k a 1(6) anc_antisym [OF a _ T] anc_rank [OF 1(6) T aw(2)] by auto
      then show False
        using out by simp
    qed
    then have no: "\<not> anc T ?pt t"
      using out iff by auto
    have lca: "anc T f t" "\<forall>q. anc T q t \<longrightarrow> anc T q k \<longrightarrow> anc T q f"
      using iff 1(7) anc.self by auto
    obtain f2 bc2 where 2: "organize_pass True bc1 = Inr (True, f2, bc2)" "organised T t bc2" "chain_inv T bc2"
      "same_data (bt_gen T) bc1 bc2"
      using second_pass [OF T 1(2,3) pass(3,2)] pass(4) False 1(4) unfolding t_def same_data_def by auto
    have "organizeChain 2 False bc = Some (Inr (Some f, bc2))"
      using 1(1) 2(1) False by (simp add: numeral_2_eq_2)
    then show ?thesis
      using 2(2,3) no lca 1(6) same_data_trans [OF 1(4) 2(4)] by (intro exI [of _ "Some f"] exI [of _ t] exI [of _ bc2]) simp
  qed
qed

end
