(* ===== verification/Chain_Growth.thy ===== *)
theory Chain_Growth
  imports Chain_Organize
begin

text \<open>
  A chain that grows: headers are added with \<open>addBlocksInBulk\<close> and the chain is organised again. An
  organised state stays ready for the next pass when new headers extend its tree.
\<close>

section \<open>Larger trees\<close>

definition extends :: "block_tree \<Rightarrow> block_tree \<Rightarrow> bool" where
  "extends T T' \<longleftrightarrow> bt_nodes T \<subseteq> bt_nodes T' \<and> bt_gen T' = bt_gen T \<and>
     (\<forall>p \<in> bt_nodes T. p \<noteq> bt_gen T \<longrightarrow> bt_work T' p = bt_work T p \<and>
        (\<forall>q. bt_parent T p = Some q \<longrightarrow> bt_parent T' p = Some q))"

lemma extends_chain_val: "chain_val T p s n \<Longrightarrow> extends T T' \<Longrightarrow> chain_val T' p s n"
proof (induction rule: chain_val.induct)
  case root
  then show ?case
    using chain_val.root [of T'] by (simp add: extends_def)
next
  case (child p q s n)
  have "p \<in> bt_nodes T'" "p \<noteq> bt_gen T'" "bt_parent T' p = Some q" "bt_work T' p = bt_work T p"
    using child.hyps child.prems unfolding extends_def by auto
  then show ?case
    using chain_val.child [of p T' q s n] child.IH child.prems by simp
qed

lemma extends_rooted: "rooted T p \<Longrightarrow> extends T T' \<Longrightarrow> rooted T' p"
  unfolding rooted_def using extends_chain_val by blast

lemma extends_anc: "chain_val T p s n \<Longrightarrow> extends T T' \<Longrightarrow> anc T' q p \<longleftrightarrow> anc T q p"
proof (induction rule: chain_val.induct)
  case root
  then show ?case
    using anc_gen [of T' q] by (simp add: extends_def)
next
  case (child p r s n)
  have T': "p \<noteq> bt_gen T'" "bt_parent T' p = Some r"
    using child.hyps child.prems unfolding extends_def by auto
  have "anc T' q p \<longleftrightarrow> q = p \<or> anc T' q r"
    using T' by (auto elim: ancE intro: anc.intros)
  moreover have "anc T q p \<longleftrightarrow> q = p \<or> anc T q r"
    using child.hyps(2,3) by (auto elim: ancE intro: anc.intros)
  ultimately show ?case
    using child.IH child.prems by blast
qed

lemma extends_rooted_anc: "rooted T p \<Longrightarrow> extends T T' \<Longrightarrow> anc T' q p \<longleftrightarrow> anc T q p"
  unfolding rooted_def using extends_anc by blast

text \<open>A header as it is when it was just read.\<close>

definition fresh_header :: "block_header \<Rightarrow> bool" where
  "fresh_header h \<longleftrightarrow> difficultySum h = Fin (- 1) \<and> isOrphan h \<and> \<not> isFinishedCalc h \<and> \<not> isMainBranch h \<and>
     length (dataCopy h) = HEADER_SIZE \<and> Fin 0 \<le> difficultyDbl h"

lemma ready_extends:
  assumes T: "tree_ok T rank" and rdy: "ready T t bc" "t \<in> bt_nodes T" and ext: "extends T T'" and rep: "represents T' bc'"
    and heap: "heap bc' = heap bc" and heights: "headersByHeight bc' = headersByHeight bc"
    and small: "length (headerMap bc') \<le> 2 ^ 31"
    and fresh: "\<And>p. p \<in> bt_nodes T' \<Longrightarrow> p \<notin> bt_nodes T \<Longrightarrow> fresh_header (heap bc p)"
  shows "ready T' t bc'"
proof -
  have old: "sums_ok T bc" "orphans_ok T bc" "solved bc (bt_gen T)" "organised_to T t bc"
    using rdy(1) unfolding ready_def by blast+
  note to = organised_toD [OF old(4)]
  have gen: "bt_gen T' = bt_gen T" and sub: "bt_nodes T \<subseteq> bt_nodes T'"
    using ext unfolding extends_def by blast+
  have anc: "anc T' q t \<longleftrightarrow> anc T q t" for q
    by (rule extends_rooted_anc [OF to(1) ext])
  have node: "q \<in> bt_nodes T" "rooted T q" if "anc T q t" for q
    using anc_rank [OF that T rdy(2)] anc_rooted [OF that to(1)] by auto
  have "sums_ok T' bc'"
    unfolding sums_ok_def heap
    using old(1) fresh extends_chain_val [OF _ ext] unfolding sums_ok_def fresh_header_def by metis
  moreover have "orphans_ok T' bc'"
    unfolding orphans_ok_def heap
    using old(2) fresh extends_rooted [OF _ ext] unfolding orphans_ok_def fresh_header_def by metis
  moreover have marks: "isFinishedCalc (heap bc q) \<longleftrightarrow> anc T q t" "isMainBranch (heap bc q) \<longleftrightarrow> anc T q t" if "q \<in> bt_nodes T'" for q
    using to(2,3) fresh [OF that] node(1) unfolding fresh_header_def by (cases "q \<in> bt_nodes T"; blast)+
  have links: "nextHash (heap bc d) = thisHash (heap bc c)" if c: "anc T c t" "c \<noteq> bt_gen T" "bt_parent T' c = Some d" for c d
  proof -
    obtain d' where d': "bt_parent T c = Some d'"
      using rooted_parent [OF node(2) [OF c(1)] c(2)] by blast
    then have "bt_parent T' c = Some d'"
      using ext node(1) [OF c(1)] c(2) unfolding extends_def by blast
    then show ?thesis
      using to(4) [OF c(1,2) d'] c(3) by simp
  qed
  have hts: "map_find u32_less (of_nat n) (headersByHeight bc) = Some q" if q: "anc T q t" "q \<noteq> t" "chain_val T' q s n" for q s n
  proof -
    obtain s' n' where v: "chain_val T q s' n'"
      using node(2) [OF q(1)] unfolding rooted_def by blast
    then have "n' = n"
      using chain_val_unique [OF q(3) extends_chain_val [OF v ext]] by simp
    then show ?thesis
      using to(6) [OF q(1,2) v] by simp
  qed
  have "organised_to T' t bc'"
    unfolding organised_to_def heap heights anc gen
    using extends_rooted [OF to(1) ext] marks links to(5) hts by blast
  ultimately show ?thesis
    using rep small old(3) unfolding ready_def solved_def heap gen by blast
qed

section \<open>addBlocksInBulk\<close>

definition unknown :: "blockchain \<Rightarrow> (bytes \<times> ptr) list \<Rightarrow> (bytes \<times> ptr) list" where
  "unknown bc hs = filter (\<lambda>(h, p). map_find bd_less h (headerMap bc) = None) hs"

definition all_full :: "blockchain \<Rightarrow> bool" where
  "all_full bc \<longleftrightarrow> (\<forall>p \<in> snd ` set (headerMap bc). length (dataCopy (heap bc p)) = HEADER_SIZE)"

lemma collect_new_eq:
  assumes "all_full bc"
  shows "collect_new areNew bc hs A I P R =
     (fold (\<lambda>(h, p). map_insert bd_less h p) (unknown bc hs) A,
      fold (\<lambda>(h, p). map_assign u32_less (uniqueID (heap bc p)) p) (unknown bc hs) I,
      P @ (if areNew then map snd (unknown bc hs) else []),
      fold (\<lambda>(h, p). set_insert u32_less (uniqueID (heap bc p))) (unknown bc hs) R)"
proof (induction hs arbitrary: A I P R)
  case (Cons e hs)
  obtain h p where e: "e = (h, p)" by force
  show ?case
  proof (cases "map_find bd_less h (headerMap bc)")
    case None
    then show ?thesis
      using Cons.IH by (simp add: e unknown_def)
  next
    case (Some q)
    then have "length (dataCopy (heap bc q)) = HEADER_SIZE"
      using assms map_find_in_set unfolding all_full_def by metis
    then show ?thesis
      using Some Cons.IH by (simp add: e unknown_def)
  qed
qed (simp add: unknown_def)

lemma fold_assign_ids:
  assumes "linorder_lt.map_wf I" "distinct (map (\<lambda>(h, p). i p) N)"
  shows "linorder_lt.map_wf (fold (\<lambda>(h, p). map_assign u32_less (i p) p) N I) \<and>
     map_find u32_less j (fold (\<lambda>(h, p). map_assign u32_less (i p) p) N I) =
       (case map_of (map (\<lambda>(h, p). (i p, p)) N) j of Some p \<Rightarrow> Some p | None \<Rightarrow> map_find u32_less j I)"
  using assms
proof (induction N arbitrary: I)
  case (Cons e N)
  obtain h p where e: "e = (h, p)" by force
  have "i p \<notin> (\<lambda>(h, p). i p) ` set N" and "distinct (map (\<lambda>(h, p). i p) N)"
    using Cons.prems(2) by (auto simp: e)
  then have "map_of (map (\<lambda>(h, p). (i p, p)) N) (i p) = None"
    by (auto simp: map_of_eq_None_iff image_image case_prod_beta)
  then show ?case
    using Cons.IH [of "map_assign u32_less (i p) p I"] Cons.prems \<open>distinct (map (\<lambda>(h, p). i p) N)\<close>
    by (auto simp: e linorder_lt.map_assign_wf linorder_lt.map_find_assign split: option.splits)
qed simp

text \<open>What the loader hands over: a map of freshly read headers with new identifiers.\<close>

definition new_headers :: "blockchain \<Rightarrow> (bytes \<times> ptr) list \<Rightarrow> bool" where
  "new_headers bc hs \<longleftrightarrow> bd.map_wf hs \<and> distinct (map snd hs) \<and>
     (\<forall>p \<in> snd ` set hs. p \<notin> snd ` set (headerMap bc) \<and> fresh_header (heap bc p) \<and>
        map_find u32_less (uniqueID (heap bc p)) (headersById bc) = None \<and>
        (\<forall>q \<in> snd ` set (headerMap bc). uniqueID (heap bc q) \<noteq> uniqueID (heap bc p))) \<and>
     distinct (map (\<lambda>(h, p). uniqueID (heap bc p)) hs) \<and>
     length (headerMap bc) + length hs \<le> 2 ^ 31"

lemma bd_updated_map:
  assumes "bd.map_wf u" "bd.map_wf m"
  shows "bd.map_wf (updated_map bd_less u m)"
    and "map_find bd_less k (updated_map bd_less u m) =
      (case map_find bd_less k u of Some v \<Rightarrow> Some v | None \<Rightarrow> map_find bd_less k m)"
  using assms(2) by (simp_all add: updated_map_def bd.map_insert_all_wf [OF assms(1)]
      bd.map_find_insert_all [OF assms(1)] bd.map_find_map_of [OF assms(2)] split: option.splits)

lemma addBlocks_eq:
  assumes "all_full bc" "addBlocksInBulk hs True bc = (ids, bc')"
  shows "bc' = bc\<lparr>newlyParsedBlocks := newlyParsedBlocks bc @ map snd (unknown bc hs),
      headerMap := updated_map bd_less (map_insert_all bd_less (unknown bc hs) []) (headerMap bc),
      headersById := updated_map u32_less
        (fold (\<lambda>(h, p). map_assign u32_less (uniqueID (heap bc p)) p) (unknown bc hs) []) (headersById bc)\<rparr>"
proof (cases "hs = []")
  case True
  then show ?thesis
    using assms(2) by (simp add: addBlocksInBulk_def unknown_def updated_map_def map_insert_all_def)
next
  case False
  then show ?thesis
    using assms(2) by (simp add: addBlocksInBulk_def collect_new_eq [OF assms(1)] map_insert_all_def)
qed

text \<open>The state after adding new headers, by its lookups.\<close>

lemma addBlocks_state:
  assumes full: "all_full bc" and wf: "bd.map_wf (headerMap bc)" and idwf: "linorder_lt.map_wf (headersById bc)"
    and new: "new_headers bc hs" and run: "addBlocksInBulk hs True bc = (ids, bc')"
  shows "heap bc' = heap bc" "genesisHash bc' = genesisHash bc" "headersByHeight bc' = headersByHeight bc"
    "topBlockId bc' = topBlockId bc" "bd.map_wf (headerMap bc')" "linorder_lt.map_wf (headersById bc')"
    "map_find bd_less k (headerMap bc') = (case map_find bd_less k (headerMap bc) of Some p \<Rightarrow> Some p | None \<Rightarrow> map_of hs k)"
    "map_find u32_less i (headersById bc') =
       (case map_of (map (\<lambda>(h, p). (uniqueID (heap bc p), p)) (unknown bc hs)) i of
          Some p \<Rightarrow> Some p | None \<Rightarrow> map_find u32_less i (headersById bc))"
proof -
  let ?N = "unknown bc hs"
  note bc' = addBlocks_eq [OF full run]
  have A: "bd.map_wf (map_insert_all bd_less ?N [])" "map_find bd_less k (map_insert_all bd_less ?N []) = map_of ?N k" for k
    by (simp_all add: bd.map_insert_all_wf bd.map_find_insert_all)
  have dist: "distinct (map (\<lambda>(h, p). uniqueID (heap bc p)) ?N)"
    using new unfolding new_headers_def unknown_def by (simp add: distinct_map_filter)
  note I = fold_assign_ids [of "[]" "\<lambda>p. uniqueID (heap bc p)" ?N, OF linorder_lt.map_wf_Nil dist]
  have ofN: "map_of ?N k = (if map_find bd_less k (headerMap bc) = None then map_of hs k else None)"
    unfolding unknown_def by (induction hs) auto
  show "heap bc' = heap bc" "genesisHash bc' = genesisHash bc" "headersByHeight bc' = headersByHeight bc"
    "topBlockId bc' = topBlockId bc"
    by (simp_all add: bc')
  show "bd.map_wf (headerMap bc')" "linorder_lt.map_wf (headersById bc')"
    by (simp_all add: bc' bd_updated_map(1) [OF A(1) wf] updated_map_find(1) [OF conjunct1 [OF I] idwf])
  show "map_find bd_less k (headerMap bc') = (case map_find bd_less k (headerMap bc) of Some p \<Rightarrow> Some p | None \<Rightarrow> map_of hs k)"
    by (simp add: bc' bd_updated_map(2) [OF A(1) wf] A(2) ofN split: option.splits)
  show "map_find u32_less i (headersById bc') =
       (case map_of (map (\<lambda>(h, p). (uniqueID (heap bc p), p)) ?N) i of
          Some p \<Rightarrow> Some p | None \<Rightarrow> map_find u32_less i (headersById bc))"
    using conjunct2 [OF I, of i] by (simp add: bc' updated_map_find(2) [OF conjunct1 [OF I] idwf] split: option.splits)
qed

section \<open>From one organised state to the next\<close>

lemma ready_cong:
  assumes "ready T k bc" "headerMap bc' = headerMap bc" "genesisHash bc' = genesisHash bc" "headersByHeight bc' = headersByHeight bc"
    and "\<And>p. p \<noteq> bt_gen T \<Longrightarrow> heap bc' p = heap bc p"
    and "dataCopy (heap bc' (bt_gen T)) = dataCopy (heap bc (bt_gen T))"
      "difficultySum (heap bc' (bt_gen T)) = difficultySum (heap bc (bt_gen T))"
      "blockHeight (heap bc' (bt_gen T)) = blockHeight (heap bc (bt_gen T))"
      "isOrphan (heap bc' (bt_gen T)) = isOrphan (heap bc (bt_gen T))"
      "isFinishedCalc (heap bc' (bt_gen T)) = isFinishedCalc (heap bc (bt_gen T))"
      "isMainBranch (heap bc' (bt_gen T)) = isMainBranch (heap bc (bt_gen T))"
      "nextHash (heap bc' (bt_gen T)) = nextHash (heap bc (bt_gen T))"
      "thisHash (heap bc' (bt_gen T)) = thisHash (heap bc (bt_gen T))"
  shows "ready T k bc'"
proof -
  have eq: "dataCopy (heap bc' p) = dataCopy (heap bc p)" "difficultySum (heap bc' p) = difficultySum (heap bc p)"
    "blockHeight (heap bc' p) = blockHeight (heap bc p)" "isOrphan (heap bc' p) = isOrphan (heap bc p)"
    "isFinishedCalc (heap bc' p) = isFinishedCalc (heap bc p)" "isMainBranch (heap bc' p) = isMainBranch (heap bc p)"
    "nextHash (heap bc' p) = nextHash (heap bc p)" "thisHash (heap bc' p) = thisHash (heap bc p)" for p
    using assms(5-) by (cases "p = bt_gen T"; simp)+
  have "represents T bc'"
    using assms(1) unfolding ready_def represents_def by (simp add: assms(2,3,5) eq(1))
  then show ?thesis
    using assms(1) unfolding ready_def sums_ok_def orphans_ok_def solved_def organised_to_def
    by (simp add: assms(2,4) eq)
qed

lemma ready_awaits:
  assumes T: "tree_ok T rank" and rdy: "ready T k bc"
  shows "awaits T k bc"
proof -
  have parts: "sums_ok T bc" "solved bc (bt_gen T)" "organised_to T k bc"
    using rdy unfolding ready_def by blast+
  note gen = tree_okD(2) [OF T]
  have "difficultySum (heap bc (bt_gen T)) = Fin 1" "blockHeight (heap bc (bt_gen T)) = 0" "\<not> isOrphan (heap bc (bt_gen T))"
    using solved_value [OF parts(1) gen parts(2) root] by simp_all
  moreover have "isFinishedCalc (heap bc (bt_gen T))" "isMainBranch (heap bc (bt_gen T))"
    using organised_toD(2,3) [OF parts(3) gen] anc_gen_rooted [OF organised_toD(1) [OF parts(3)]] by auto
  ultimately show ?thesis
    unfolding awaits_def by (intro ready_cong [OF rdy]) (simp_all add: set_genesis_def upd_header_def)
qed

lemma organised_ready:
  assumes T: "tree_ok T rank" and inv: "chain_inv T bc" and t: "organised T t bc"
  shows "ready T t bc" "t \<in> bt_nodes T" "known_top (bt_gen T) bc = t"
proof -
  have best: "rooted T t" and to: "organised_to T t bc" and id: "topBlockId bc = uniqueID (heap bc t)"
    and val: "\<And>p s n. p \<in> bt_nodes T \<Longrightarrow> chain_val T p s n \<Longrightarrow>
        difficultySum (heap bc p) = s \<and> blockHeight (heap bc p) = of_nat n \<and> \<not> isOrphan (heap bc p)"
    and orph: "\<And>p. p \<in> bt_nodes T \<Longrightarrow> \<not> rooted T p \<Longrightarrow> difficultySum (heap bc p) = Fin (- 1)"
    using t unfolding organised_def best_def by blast+
  show node: "t \<in> bt_nodes T"
    using best chain_val_node [OF T] unfolding rooted_def by blast
  have "sums_ok T bc"
    unfolding sums_ok_def using val orph unfolding rooted_def by metis
  moreover have "solved bc (bt_gen T)"
    using val [OF tree_okD(2) [OF T] root] by (simp add: solved_def)
  ultimately show "ready T t bc"
    using inv to unfolding chain_inv_def ready_def by blast
  show "known_top (bt_gen T) bc = t"
    using known_top_eq [OF _ node id] inv unfolding chain_inv_def by blast
qed

lemma wf_nodes: "bd.map_wf m \<Longrightarrow> snd ` set m = {p. \<exists>k. map_find bd_less k m = Some p}"
  by (force simp: bd.map_find_Some_iff image_iff)

lemma wf_distinct_ptrs:
  "bd.map_wf m \<Longrightarrow> (\<And>k k' p. map_find bd_less k m = Some p \<Longrightarrow> map_find bd_less k' m = Some p \<Longrightarrow> k = k') \<Longrightarrow> distinct (map snd m)"
  using bd.map_wf_distinct [of m] bd.map_find_Some_iff [of m]
  by (auto simp: distinct_map inj_on_def)

lemma distinct_ptrs_inj:
  "bd.map_wf m \<Longrightarrow> distinct (map snd m) \<Longrightarrow> map_find bd_less k m = Some p \<Longrightarrow> map_find bd_less k' m = Some p \<Longrightarrow> k = k'"
  by (force simp: bd.map_find_Some_iff distinct_map inj_on_def)

lemma tree_of_represents:
  assumes "bd.map_wf (headerMap bc)" "distinct (map snd (headerMap bc))"
    and "map_find bd_less (genesisHash bc) (headerMap bc) = Some g"
    and "\<And>p. p \<in> snd ` set (headerMap bc) \<Longrightarrow> p \<noteq> g \<Longrightarrow> 36 \<le> length (dataCopy (heap bc p))"
  shows "represents (tree_of bc) bc" "bt_gen (tree_of bc) = g"
  using assms by (auto simp: represents_def tree_of_def)

lemma addBlocks_represents:
  assumes inv: "chain_inv T bc" and full: "all_full bc" and new: "new_headers bc hs"
    and run: "addBlocksInBulk hs True bc = (ids, bc')"
  shows "represents (tree_of bc') bc'" "extends T (tree_of bc')" "length (headerMap bc') \<le> 2 ^ 31" "bt_gen (tree_of bc') = bt_gen T"
    "p \<in> bt_nodes (tree_of bc') \<longleftrightarrow> p \<in> bt_nodes T \<or> p \<in> snd ` set (unknown bc hs)"
proof -
  have rep: "represents T bc" and ids: "linorder_lt.map_wf (headersById bc)"
    using inv unfolding chain_inv_def ids_ok_def by blast+
  have old: "bd.map_wf (headerMap bc)" "distinct (map snd (headerMap bc))" "bt_nodes T = snd ` set (headerMap bc)"
    "map_find bd_less (genesisHash bc) (headerMap bc) = Some (bt_gen T)"
    using rep unfolding represents_def by blast+
  note st = addBlocks_state [OF full old(1) ids new run]
  have hs: "bd.map_wf hs" "distinct (map snd hs)" "\<And>p. p \<in> snd ` set hs \<Longrightarrow> p \<notin> snd ` set (headerMap bc) \<and> fresh_header (heap bc p)"
    using new unfolding new_headers_def by blast+
  have ofhs: "map_of hs k = map_find bd_less k hs" for k
    by (simp add: bd.map_find_map_of hs(1))
  have inhs: "p \<in> snd ` set hs" if "map_find bd_less k hs = Some p" for k p
    using that map_find_in_set by metis
  have dist: "distinct (map snd (headerMap bc'))"
  proof (rule wf_distinct_ptrs [OF st(5)])
    fix k k' p assume k: "map_find bd_less k (headerMap bc') = Some p" "map_find bd_less k' (headerMap bc') = Some p"
    have *: "map_find bd_less j (headerMap bc) = Some p \<or> p \<notin> snd ` set (headerMap bc) \<and> map_find bd_less j hs = Some p"
      if "map_find bd_less j (headerMap bc') = Some p" for j
      using that hs(3) [OF inhs] by (auto simp: st(7) ofhs split: option.splits)
    have "p \<in> snd ` set (headerMap bc)" if "map_find bd_less j (headerMap bc) = Some p" for j
      using that map_find_in_set by metis
    then show "k = k'"
      using * [OF k(1)] * [OF k(2)] distinct_ptrs_inj [OF old(1,2), of k p k'] distinct_ptrs_inj [OF hs(1,2), of k p k'] by blast
  qed
  have g: "map_find bd_less (genesisHash bc') (headerMap bc') = Some (bt_gen T)"
    by (simp add: st(2,7) old(4))
  have nodes: "p \<in> snd ` set (headerMap bc') \<longleftrightarrow> p \<in> bt_nodes T \<or> p \<in> snd ` set (unknown bc hs)" for p
  proof -
    have "p \<in> snd ` set (unknown bc hs) \<longleftrightarrow> (\<exists>k. map_find bd_less k hs = Some p \<and> map_find bd_less k (headerMap bc) = None)"
      by (force simp: unknown_def bd.map_find_Some_iff [OF hs(1)] image_iff)
    moreover have "map_find bd_less k (headerMap bc') = Some p \<longleftrightarrow>
        map_find bd_less k (headerMap bc) = Some p \<or> map_find bd_less k hs = Some p \<and> map_find bd_less k (headerMap bc) = None" for k
      by (auto simp: st(7) ofhs split: option.splits)
    ultimately show ?thesis
      unfolding wf_nodes [OF st(5)] old(3) wf_nodes [OF old(1)] by blast
  qed
  have len: "36 \<le> length (dataCopy (heap bc' p))" if p: "p \<in> snd ` set (headerMap bc')" "p \<noteq> bt_gen T" for p
  proof (cases "p \<in> bt_nodes T")
    case True
    then show ?thesis
      using rep p(2) unfolding represents_def st(1) by blast
  next
    case False
    then have "p \<in> snd ` set hs"
      using nodes p(1) by (auto simp: unknown_def)
    then show ?thesis
      using hs(3) by (auto simp: st(1) fresh_header_def HEADER_SIZE_def)
  qed
  show "represents (tree_of bc') bc'" "bt_gen (tree_of bc') = bt_gen T"
    using tree_of_represents [OF st(5) dist g len] by blast+
  show "p \<in> bt_nodes (tree_of bc') \<longleftrightarrow> p \<in> bt_nodes T \<or> p \<in> snd ` set (unknown bc hs)"
    using nodes by (simp add: tree_of_def)
  have "bt_work T p = difficultyDbl (heap bc p) \<and> bt_parent T p = map_find bd_less (bslice 4 32 (dataCopy (heap bc p))) (headerMap bc)"
    if "p \<in> bt_nodes T" "p \<noteq> bt_gen T" for p
    using rep that unfolding represents_def by blast
  then show "extends T (tree_of bc')"
    using nodes unfolding extends_def tree_of_def by (simp add: subset_eq st(1,2,7) old(4))
  have "snd ` set (headerMap bc') = bt_nodes T \<union> snd ` set (unknown bc hs)"
    using nodes by blast
  then have "length (headerMap bc') = card (bt_nodes T \<union> snd ` set (unknown bc hs))"
    using distinct_card [OF dist] by simp
  also have "\<dots> \<le> card (bt_nodes T) + card (snd ` set (unknown bc hs))"
    by (rule card_Un_le)
  also have "\<dots> \<le> length (headerMap bc) + length hs"
  proof (rule add_mono)
    show "card (bt_nodes T) \<le> length (headerMap bc)"
      using card_length [of "map snd (headerMap bc)"] by (simp add: old(3))
    show "card (snd ` set (unknown bc hs)) \<le> length hs"
      using card_length [of "map snd (unknown bc hs)"] length_filter_le [of _ hs] unfolding unknown_def by (auto intro: le_trans)
  qed
  finally show "length (headerMap bc') \<le> 2 ^ 31"
    using new unfolding new_headers_def by linarith
qed

text \<open>Identifiers stay in step when the new ones are unused.\<close>

lemma addBlocks_ids:
  assumes inv: "chain_inv T bc" and full: "all_full bc" and new: "new_headers bc hs"
    and run: "addBlocksInBulk hs True bc = (ids, bc')"
  shows "ids_ok (tree_of bc') bc'"
proof -
  let ?N = "unknown bc hs" and ?L = "map (\<lambda>(h, p). (uniqueID (heap bc p), p)) (unknown bc hs)"
  have rep: "represents T bc" and ok: "ids_ok T bc"
    using inv unfolding chain_inv_def by blast+
  have wf: "bd.map_wf (headerMap bc)" and nodesT: "bt_nodes T = snd ` set (headerMap bc)"
    using rep unfolding represents_def by blast+
  have idwf: "linorder_lt.map_wf (headersById bc)"
    using ok unfolding ids_ok_def by blast
  note st = addBlocks_state [OF full wf idwf new run]
  note nodes = addBlocks_represents(4,5) [OF inv full new run]
  have dist: "distinct (map fst ?L)"
    using new unfolding new_headers_def unknown_def by (simp add: distinct_map_filter comp_def case_prod_unfold)
  have newid: "map_of ?L (uniqueID (heap bc p)) = Some p" if "p \<in> snd ` set ?N" for p
    using that dist by (force intro: map_of_is_SomeI)
  have oldid: "map_of ?L (uniqueID (heap bc p)) = None" if "p \<in> bt_nodes T" for p
  proof -
    have "uniqueID (heap bc q) \<noteq> uniqueID (heap bc p)" if "q \<in> snd ` set ?N" for q
      using that new \<open>p \<in> bt_nodes T\<close> unfolding new_headers_def nodesT unknown_def by fastforce
    then show ?thesis
      by (force simp: map_of_eq_None_iff)
  qed
  have range: "q \<in> bt_nodes T \<or> q \<in> snd ` set ?N" if "map_find u32_less i (headersById bc') = Some q" for i q
  proof (cases "map_of ?L i")
    case None
    then show ?thesis
      using that ok unfolding ids_ok_def st(8) by (auto dest!: map_find_in_set)
  next
    case (Some r)
    then have "q = r" "(i, r) \<in> set ?L"
      using that map_of_SomeD by (fastforce simp: st(8))+
    then show ?thesis
      by force
  qed
  have "snd ` set (headersById bc') \<subseteq> bt_nodes (tree_of bc')"
    using range linorder_lt.map_find_Some_iff [OF st(6)] unfolding subset_iff nodes(2) by force
  moreover have "map_find u32_less (uniqueID (heap bc' p)) (headersById bc') = Some p \<or>
      p = bt_gen (tree_of bc') \<and> map_find u32_less (uniqueID (heap bc' p)) (headersById bc') = None"
    if "p \<in> bt_nodes (tree_of bc')" for p
  proof (cases "p \<in> bt_nodes T")
    case True
    then show ?thesis
      using ok oldid unfolding ids_ok_def nodes(1) st(1,8) by simp
  next
    case False
    then have "p \<in> snd ` set ?N"
      using that nodes(2) by blast
    then show ?thesis
      using newid unfolding st(1,8) by simp
  qed
  ultimately show ?thesis
    unfolding ids_ok_def using st(6) by blast
qed

theorem addBlocks_grows:
  assumes T: "tree_ok T rank" and inv: "chain_inv T bc" and org: "organised T t bc" and full: "all_full bc" and new: "new_headers bc hs"
    and run: "addBlocksInBulk hs True bc = (ids, bc')" and T': "tree_ok (tree_of bc') rank'"
  shows "chain_inv (tree_of bc') bc'" "awaits (tree_of bc') t bc'" "t \<in> bt_nodes (tree_of bc')"
    "known_top (bt_gen (tree_of bc')) bc' = t" "all_full bc'"
proof -
  note rdy = organised_ready [OF T inv org]
  have rep: "represents T bc" and ids: "linorder_lt.map_wf (headersById bc)" and wf: "bd.map_wf (headerMap bc)"
    and hts: "linorder_lt.map_wf (headersByHeight bc)"
    using inv unfolding chain_inv_def ids_ok_def represents_def by blast+
  note st = addBlocks_state [OF full wf ids new run]
  note grown = addBlocks_represents [OF inv full new run]
  have hs: "length (dataCopy (heap bc p)) = HEADER_SIZE" "fresh_header (heap bc p)" if "p \<in> snd ` set (unknown bc hs)" for p
    using that new unfolding new_headers_def unknown_def fresh_header_def by auto
  have rdy': "ready (tree_of bc') t bc'"
    by (rule ready_extends [OF T rdy(1,2) grown(2,1) st(1,3) grown(3)]) (use grown(5) hs(2) in blast)
  show node: "t \<in> bt_nodes (tree_of bc')"
    using rdy(2) grown(5) by blast
  show inv': "chain_inv (tree_of bc') bc'"
    using rdy' addBlocks_ids [OF inv full new run] grown(1,3) hts
    unfolding chain_inv_def ready_def by (simp add: st(3))
  show "awaits (tree_of bc') t bc'"
    by (rule ready_awaits [OF T' rdy'])
  have "topBlockId bc' = uniqueID (heap bc' t)"
    using org unfolding organised_def by (simp add: st(1,4))
  then show "known_top (bt_gen (tree_of bc')) bc' = t"
    using known_top_eq [OF _ node] inv' unfolding chain_inv_def by blast
  have "bt_nodes T = snd ` set (headerMap bc)" "bt_nodes (tree_of bc') = snd ` set (headerMap bc')"
    using rep unfolding represents_def by (simp_all add: tree_of_def)
  then show "all_full bc'"
    using full grown(5) hs(1) unfolding all_full_def st(1) by blast
qed

section \<open>The life of a chain\<close>

text \<open>
  The states of a chain that is loaded and organised from scratch once (\<open>start\<close>), then takes
  new headers (\<open>grow\<close>) that were allocated before (\<open>alloc\<close>). The hash links of a chain of
  headers have no cycle: that is what the rank in \<open>tree_ok\<close> says of them.
\<close>

inductive chain_life :: "blockchain \<Rightarrow> bool" where
  start: "tree_ok (tree_of bc) rank \<Longrightarrow> chain_inv (tree_of bc) bc \<Longrightarrow> all_full bc \<Longrightarrow>
    organizeChain 2 True bc = Some (Inr (branch, bc')) \<Longrightarrow> chain_life bc'"
| alloc: "chain_life bc \<Longrightarrow> p \<notin> snd ` set (headerMap bc) \<Longrightarrow> chain_life (upd_header p (\<lambda>_. h) bc)"
| grow: "chain_life bc \<Longrightarrow> new_headers bc hs \<Longrightarrow> addBlocksInBulk hs True bc = (ids, bc1) \<Longrightarrow>
    tree_ok (tree_of bc1) rank \<Longrightarrow> organizeChain 2 False bc1 = Some (Inr (branch, bc')) \<Longrightarrow> chain_life bc'"

definition settled :: "block_tree \<Rightarrow> ptr \<Rightarrow> blockchain \<Rightarrow> bool" where
  "settled T t bc \<longleftrightarrow> (\<exists>rank. tree_ok T rank) \<and> chain_inv T bc \<and> organised T t bc \<and> all_full bc"

lemma anc_node: "anc T q t \<Longrightarrow> tree_ok T rank \<Longrightarrow> t \<in> bt_nodes T \<Longrightarrow> q \<in> bt_nodes T"
  using anc_rank by blast

lemma settled_alloc:
  assumes st: "settled T t bc" and p: "p \<notin> snd ` set (headerMap bc)"
  shows "settled T t (upd_header p (\<lambda>_. h) bc)"
proof -
  let ?bc = "upd_header p (\<lambda>_. h) bc"
  obtain rank where T: "tree_ok T rank" and inv: "chain_inv T bc" and org: "organised T t bc" and full: "all_full bc"
    using st unfolding settled_def by blast
  have nodes: "bt_nodes T = snd ` set (headerMap bc)"
    using inv unfolding chain_inv_def represents_def by blast
  have same: "heap ?bc q = heap bc q" if "q \<in> bt_nodes T" for q
    using that p by (auto simp: upd_header_def nodes)
  have rest: "headerMap ?bc = headerMap bc" "genesisHash ?bc = genesisHash bc" "headersById ?bc = headersById bc"
    "headersByHeight ?bc = headersByHeight bc" "topBlockPtr ?bc = topBlockPtr bc" "topBlockId ?bc = topBlockId bc"
    by (simp_all add: upd_header_def)
  have t: "t \<in> bt_nodes T"
    by (rule organised_ready(2) [OF T inv org])
  have "represents T ?bc = represents T bc" "orphans_ok T ?bc = orphans_ok T bc" "ids_ok T ?bc = ids_ok T bc"
    unfolding represents_def orphans_ok_def ids_ok_def rest by (simp_all add: same cong: ball_cong)
  then have "chain_inv T ?bc"
    using inv unfolding chain_inv_def rest by simp
  moreover have "nextHash (heap ?bc d) = thisHash (heap ?bc c)"
    if "anc T c t" "c \<noteq> bt_gen T" "bt_parent T c = Some d" for c d
    using that org same anc_node [OF that(1) T t] tree_okD(4) [OF T] unfolding organised_def organised_to_def by metis
  then have "organised_to T t ?bc"
    using org unfolding organised_def organised_to_def rest by (simp add: same cong: ball_cong)
  then have "organised T t ?bc"
    using org unfolding organised_def rest by (simp add: same t cong: ball_cong)
  moreover have "all_full ?bc"
    using full same unfolding all_full_def rest nodes by simp
  ultimately show ?thesis
    using T unfolding settled_def by blast
qed

lemma settled_grow:
  assumes st: "settled T t bc" and new: "new_headers bc hs" and run: "addBlocksInBulk hs True bc = (ids, bc1)"
    and T1: "tree_ok (tree_of bc1) rank"
  shows "\<exists>branch t' bc'. organizeChain 2 False bc1 = Some (Inr (branch, bc')) \<and> settled (tree_of bc1) t' bc' \<and>
    (case branch of None \<Rightarrow> anc (tree_of bc1) t t'
     | Some f \<Rightarrow> \<not> anc (tree_of bc1) t t' \<and> anc (tree_of bc1) f t' \<and> anc (tree_of bc1) f t \<and>
         (\<forall>q. anc (tree_of bc1) q t' \<longrightarrow> anc (tree_of bc1) q t \<longrightarrow> anc (tree_of bc1) q f))"
proof -
  obtain rank0 where T: "tree_ok T rank0" and inv: "chain_inv T bc" and org: "organised T t bc" and full: "all_full bc"
    using st unfolding settled_def by blast
  note grown = addBlocks_grows [OF T inv org full new run T1]
  obtain branch t' bc' where res: "organizeChain 2 False bc1 = Some (Inr (branch, bc'))"
      "organised (tree_of bc1) t' bc'" "chain_inv (tree_of bc1) bc'" "same_data (bt_gen (tree_of bc1)) bc1 bc'"
      "case branch of None \<Rightarrow> anc (tree_of bc1) t t'
       | Some f \<Rightarrow> \<not> anc (tree_of bc1) t t' \<and> anc (tree_of bc1) f t' \<and> anc (tree_of bc1) f t \<and>
         (\<forall>q. anc (tree_of bc1) q t' \<longrightarrow> anc (tree_of bc1) q t \<longrightarrow> anc (tree_of bc1) q f)"
    using organizeChain_ordinary [OF T1 grown(1,2,3)] unfolding grown(4) by blast
  have "all_full bc'"
    using grown(5) res(4) unfolding all_full_def same_data_def by simp
  then show ?thesis
    using res T1 unfolding settled_def by blast
qed

lemma chain_life_settled: "chain_life bc \<Longrightarrow> \<exists>T t. settled T t bc"
proof (induction rule: chain_life.induct)
  case (start bc rank branch bc')
  obtain branch' t bc'' where res: "organizeChain 2 True bc = Some (Inr (branch', bc''))" "organised (tree_of bc) t bc''"
      "chain_inv (tree_of bc) bc''" "same_data (bt_gen (tree_of bc)) bc bc''"
    using organizeChain_forced [OF start.hyps(1,2)] by blast
  moreover have "all_full bc''"
    using start.hyps(3) res(4) unfolding all_full_def same_data_def by simp
  moreover have "bc'' = bc'"
    using res(1) start.hyps(4) by simp
  ultimately show ?case
    using start.hyps(1) unfolding settled_def by blast
next
  case (alloc bc p h)
  then show ?case
    using settled_alloc by blast
next
  case (grow bc hs ids bc1 rank branch bc')
  then obtain T t where "settled T t bc"
    by blast
  from settled_grow [OF this grow.hyps(2,3,4)] grow.hyps(5) show ?case
    by auto
qed

section \<open>A sample chain\<close>

text \<open>A genesis block with two rival successors, and one more header on top of the second.\<close>

definition sample_hash :: "byte \<Rightarrow> bytes" where
  "sample_hash n = n # replicate 31 0"

definition sample_header :: "byte \<Rightarrow> byte \<Rightarrow> block_header" where
  "sample_header prev n = default_header\<lparr>dataCopy := replicate 4 0 @ sample_hash prev @ replicate 44 0,
     thisHash := sample_hash n, uniqueID := ucast n, difficultyDbl := Fin 1, difficultySum := Fin (- 1),
     isInitialized := True, isOrphan := True\<rparr>"

definition sample_chain :: blockchain where
  "sample_chain =
     \<lparr>heap = (\<lambda>p. if p = 1 then sample_header 0 1 else if p = 2 then sample_header 1 2
                else if p = 3 then sample_header 1 3 else sample_header 3 4),
      nextPtr = 5, genesisHash = sample_hash 1,
      headerMap = [(sample_hash 1, 1), (sample_hash 2, 2), (sample_hash 3, 3)],
      headersById = [(1, 1), (2, 2), (3, 3)], headersByHeight = [], newlyParsedBlocks = [],
      topBlockPtr = Some 1, topBlockId = 0, topID = 0\<rparr>"

lemma sample_hash_simps [simp]:
  "bd_less (sample_hash a) (sample_hash b) \<longleftrightarrow> a < b" "sample_hash a = sample_hash b \<longleftrightarrow> a = b" "length (sample_hash a) = 32"
  by (auto simp: sample_hash_def bd_less_irrefl)

lemma sample_header_simps [simp]:
  "length (dataCopy (sample_header a b)) = 80" "bslice 4 32 (dataCopy (sample_header a b)) = sample_hash a"
  "uniqueID (sample_header a b) = ucast b" "difficultyDbl (sample_header a b) = Fin 1" "isOrphan (sample_header a b)"
  "fresh_header (sample_header a b)" "thisHash (sample_header a b) = sample_hash b" "isInitialized (sample_header a b)"
  by (auto simp: sample_header_def sample_hash_def bslice_def fresh_header_def HEADER_SIZE_def default_header_def)

lemma sample_tree:
  "bt_nodes (tree_of sample_chain) = {1, 2, 3}" "bt_gen (tree_of sample_chain) = 1"
  "bt_parent (tree_of sample_chain) p = (if p = 1 then None else if p = 2 \<or> p = 3 then Some 1 else Some 3)"
  "bt_work (tree_of sample_chain) p = Fin 1"
  by (auto simp: tree_of_def sample_chain_def)

lemma sample_tree_ok: "tree_ok (tree_of sample_chain) id"
  by (auto simp: tree_ok_def sample_tree)

lemma sample_inv: "chain_inv (tree_of sample_chain) sample_chain" "all_full sample_chain"
proof -
  have rep: "represents (tree_of sample_chain) sample_chain"
    by (rule tree_of_represents(1) [where g = 1]) (auto simp: sample_chain_def)
  moreover have "orphans_ok (tree_of sample_chain) sample_chain" "ids_ok (tree_of sample_chain) sample_chain"
    by (auto simp: orphans_ok_def ids_ok_def sample_tree) (auto simp: sample_chain_def)
  ultimately show "chain_inv (tree_of sample_chain) sample_chain"
    by (simp add: chain_inv_def) (simp add: sample_chain_def)
  show "all_full sample_chain"
    by (auto simp: all_full_def sample_chain_def HEADER_SIZE_def)
qed

text \<open>A state of the sample's life, with the last header allocated and about to be added.\<close>

definition sample_step :: "blockchain \<Rightarrow> blockchain \<Rightarrow> bool" where
  "sample_step bc bc1 \<longleftrightarrow> chain_life bc \<and> new_headers bc [(sample_hash 4, 4)] \<and>
     addBlocksInBulk [(sample_hash 4, 4)] True bc = ([4], bc1) \<and> tree_ok (tree_of bc1) id"

lemma sample_life: "\<exists>bc. chain_life bc \<and> same_data 1 sample_chain bc \<and> heap bc 4 = sample_header 3 4"
proof -
  obtain branch t bc' where run: "organizeChain 2 True sample_chain = Some (Inr (branch, bc'))" "same_data 1 sample_chain bc'"
    using organizeChain_forced [OF sample_tree_ok sample_inv(1)] unfolding sample_tree(2) by blast
  have "chain_life bc'"
    by (rule chain_life.start [OF sample_tree_ok sample_inv run(1)])
  moreover have "4 \<notin> snd ` set (headerMap bc')"
    using run(2) by (simp add: same_data_def sample_chain_def)
  ultimately have "chain_life (upd_header 4 (\<lambda>_. sample_header 3 4) bc')"
    by (rule chain_life.alloc)
  moreover have "same_data 1 sample_chain (upd_header 4 (\<lambda>_. sample_header 3 4) bc')"
    using run(2) by (auto simp: same_data_def upd_header_def sample_chain_def)
  ultimately show ?thesis
    by (auto simp: upd_header_def intro!: exI [of _ "upd_header 4 (\<lambda>_. sample_header 3 4) bc'"])
qed

lemma sample_step: "\<exists>bc bc1. sample_step bc bc1"
proof -
  obtain bc where life: "chain_life bc" and same: "same_data 1 sample_chain bc" and h4: "heap bc 4 = sample_header 3 4"
    using sample_life by blast
  have hm: "headerMap bc = [(sample_hash 1, 1), (sample_hash 2, 2), (sample_hash 3, 3)]" "headersById bc = [(1, 1), (2, 2), (3, 3)]"
    "genesisHash bc = sample_hash 1" and ids: "uniqueID (heap bc 1) = 1" "uniqueID (heap bc 2) = 2" "uniqueID (heap bc 3) = 3"
    and data: "dataCopy (heap bc 2) = dataCopy (sample_header 1 2)" "dataCopy (heap bc 3) = dataCopy (sample_header 1 3)"
    "length (dataCopy (heap bc 1)) = 80"
    and diff: "difficultyDbl (heap bc 2) = Fin 1" "difficultyDbl (heap bc 3) = Fin 1"
    using same by (simp_all add: same_data_def sample_chain_def)
  have new: "new_headers bc [(sample_hash 4, 4)]"
    by (simp add: new_headers_def hm ids h4 del: One_nat_def)
  have add: "addBlocksInBulk [(sample_hash 4, 4)] True bc = ([4], bc\<lparr>newlyParsedBlocks := newlyParsedBlocks bc @ [4],
      headerMap := headerMap bc @ [(sample_hash 4, 4)], headersById := headersById bc @ [(4, 4)]\<rparr>)"
    by (simp add: addBlocksInBulk_def hm h4 updated_map_def map_insert_all_def del: One_nat_def)
  moreover have "tree_ok (tree_of (bc\<lparr>newlyParsedBlocks := newlyParsedBlocks bc @ [4],
      headerMap := headerMap bc @ [(sample_hash 4, 4)], headersById := headersById bc @ [(4, 4)]\<rparr>)) id"
    by (auto simp: tree_ok_def tree_of_def hm data diff h4 simp del: One_nat_def)
  ultimately show ?thesis
    using life new unfolding sample_step_def by blast
qed



text \<open>
  C3: In the life of a chain, adding fresh headers and organising again always returns, and reports the
  branch point faithfully: none when the old top is still on the main chain, otherwise the last header
  the old and the new main chain share.
\<close>

theorem chain_grow_returns:
  assumes "chain_life bc" "new_headers bc hs" "addBlocksInBulk hs True bc = (ids, bc1)" "tree_ok (tree_of bc1) rank"
  shows "\<exists>t branch t' bc'. topBlockPtr bc = Some t \<and> organizeChain 2 False bc1 = Some (Inr (branch, bc')) \<and>
    organised (tree_of bc1) t' bc' \<and>
    (case branch of None \<Rightarrow> anc (tree_of bc1) t t'
     | Some f \<Rightarrow> \<not> anc (tree_of bc1) t t' \<and> anc (tree_of bc1) f t' \<and> anc (tree_of bc1) f t \<and>
         (\<forall>q. anc (tree_of bc1) q t' \<longrightarrow> anc (tree_of bc1) q t \<longrightarrow> anc (tree_of bc1) q f))"
proof -
  obtain T t where st: "settled T t bc"
    using chain_life_settled [OF assms(1)] by blast
  then have "topBlockPtr bc = Some t"
    unfolding settled_def organised_def by blast
  then show ?thesis
    using settled_grow [OF st assms(2-4)] unfolding settled_def by blast
qed

theorem chain_grow_returns_witness:
  "\<exists>bc bc1. sample_step bc bc1 \<and> (\<exists>t branch t' bc'. topBlockPtr bc = Some t \<and> organizeChain 2 False bc1 = Some (Inr (branch, bc')) \<and>
    organised (tree_of bc1) t' bc')"
proof -
  obtain bc bc1 where st: "sample_step bc bc1"
    using sample_step by blast
  then have "chain_life bc" "new_headers bc [(sample_hash 4, 4)]" "addBlocksInBulk [(sample_hash 4, 4)] True bc = ([4], bc1)"
    "tree_ok (tree_of bc1) id"
    unfolding sample_step_def by blast+
  from chain_grow_returns [OF this] st show ?thesis
    by blast
qed

end
