(* ===== verification/Chain_Branches.thy ===== *)
theory Chain_Branches
  imports Chain_Growth
begin

text \<open>
  What the database learns of the branches: \<open>findReorgPointFromBlock\<close>, \<open>updateBranchingMaps\<close> and the
  two tables of \<open>LMDBBlockDatabase\<close> it updates. The loops follow hash links that nothing bounds, so they are
  partial functions: None is a loop that does not end.
\<close>

section \<open>The operations\<close>

text \<open>Walking down to the first header of the main branch.\<close>

partial_function (option) find_main :: "blockchain \<Rightarrow> ptr \<Rightarrow> ptr res option" where
  "find_main bc bh =
     (if isMainBranch (heap bc bh) then Some (Inr bh)
      else case bind_res (getPrevHash (heap bc bh)) (getHeaderByHash bc) of
        Inl e \<Rightarrow> Some (Inl e)
      | Inr p \<Rightarrow> find_main bc p)"

definition findReorgPointFromBlock :: "blockchain \<Rightarrow> bytes \<Rightarrow> reorg_state res option" where
  "findReorgPointFromBlock bc blkHash =
     (case getHeaderByHash bc blkHash of
        Inl e \<Rightarrow> Some (Inl e)
      | Inr start \<Rightarrow>
          (case find_main bc start of
             None \<Rightarrow> None
           | Some (Inl e) \<Rightarrow> Some (Inl e)
           | Some (Inr bh) \<Rightarrow>
               Some (Inr \<lparr>prevTopStillValid = (bh = start), hasNewTop = False, prevTop = Some start,
                          newTop = topBlockPtr bc, reorgBranchPoint = (if bh = start then None else Some bh)\<rparr>)))"

type_synonym dup_map = "(u32 \<times> byte) list"
type_synonym branch_map = "(u32 \<times> bool) list"

text \<open>The walk up the next-hash links; an exception of \<open>getHeaderByHash\<close> ends it and keeps the maps.\<close>

definition note_header :: "blockchain \<Rightarrow> ptr \<Rightarrow> dup_map \<times> branch_map \<Rightarrow> dup_map \<times> branch_map" where
  "note_header bc p m =
     (map_insert u32_less (blockHeight (heap bc p)) (duplicateID (heap bc p)) (fst m),
      map_insert u32_less (uniqueID (heap bc p)) (isMainBranch (heap bc p)) (snd m))"

partial_function (option) walk_next :: "blockchain \<Rightarrow> bytes \<Rightarrow> ptr \<Rightarrow> dup_map \<times> branch_map \<Rightarrow> (dup_map \<times> branch_map) option" where
  "walk_next bc stop p m =
     (if thisHash (heap bc p) = stop then Some m
      else case getHeaderByHash bc (nextHash (heap bc p)) of
        Inl e \<Rightarrow> Some (note_header bc p m)
      | Inr q \<Rightarrow> walk_next bc stop q (note_header bc p m))"

text \<open>The walk down from the previous top to the branch point.\<close>

partial_function (option) walk_prev :: "blockchain \<Rightarrow> ptr option \<Rightarrow> ptr \<Rightarrow> branch_map \<Rightarrow> branch_map res option" where
  "walk_prev bc stop p m =
     (if Some p = stop then Some (Inr m)
      else let m' = map_insert u32_less (uniqueID (heap bc p)) (isMainBranch (heap bc p)) m
        in case getPrevHash (heap bc p) of
          Inl e \<Rightarrow> Some (Inl e)
        | Inr prev \<Rightarrow>
            (case getHeaderByHash bc prev of
               Inl e \<Rightarrow> Some (Inr m')
             | Inr q \<Rightarrow> walk_prev bc stop q m'))"

record branch_db =
  validDupByHeight :: dup_map
  blockIDMainChainMap :: branch_map

definition setValidDupIDForHeight :: "dup_map \<Rightarrow> branch_db \<Rightarrow> branch_db" where
  "setValidDupIDForHeight dupMap db = db\<lparr>validDupByHeight := updated_map u32_less dupMap (validDupByHeight db)\<rparr>"

definition setBlockIDBranch :: "branch_map \<Rightarrow> branch_db \<Rightarrow> branch_db" where
  "setBlockIDBranch idMap db = db\<lparr>blockIDMainChainMap := updated_map u32_less idMap (blockIDMainChainMap db)\<rparr>"

definition getValidDupIDForHeight :: "branch_db \<Rightarrow> u32 \<Rightarrow> byte" where
  "getValidDupIDForHeight db blockHgt =
     (case map_find u32_less blockHgt (validDupByHeight db) of None \<Rightarrow> 0xFF | Some dup \<Rightarrow> dup)"

definition isBlockIDOnMainBranch :: "branch_db \<Rightarrow> u32 \<Rightarrow> bool" where
  "isBlockIDOnMainBranch db blockId =
     (case map_find u32_less blockId (blockIDMainChainMap db) of None \<Rightarrow> False | Some b \<Rightarrow> b)"

text \<open>The header the walk up starts at; a null pointer there is undefined behaviour.\<close>

definition walk_start :: "blockchain \<Rightarrow> reorg_state \<Rightarrow> ptr res" where
  "walk_start bc st =
     (case (if prevTopStillValid st then prevTop st else reorgBranchPoint st) of
        None \<Rightarrow> Inl Undefined_Behaviour
      | Some p \<Rightarrow> if \<not> isInitialized (heap bc p) then getGenesisBlock bc else Inr p)"

definition updateBranchingMaps :: "blockchain \<Rightarrow> reorg_state \<Rightarrow> branch_db \<Rightarrow> branch_db res option" where
  "updateBranchingMaps bc st db =
     (case (case walk_start bc st of
              Inl Undefined_Behaviour \<Rightarrow> Some (Inl Undefined_Behaviour)
            | Inl e \<Rightarrow> Some (Inr ([], []))
            | Inr p \<Rightarrow>
                (case newTop st of
                   None \<Rightarrow> Some (Inl Undefined_Behaviour)
                 | Some t \<Rightarrow> map_option Inr (walk_next bc (nextHash (heap bc t)) p ([], [])))) of
        None \<Rightarrow> None
      | Some (Inl e) \<Rightarrow> Some (Inl e)
      | Some (Inr (dupIDs, blockIDs)) \<Rightarrow>
          (case (if prevTopStillValid st then Some (Inr blockIDs)
                 else case prevTop st of
                   None \<Rightarrow> if reorgBranchPoint st = None then Some (Inr blockIDs) else Some (Inl Undefined_Behaviour)
                 | Some k \<Rightarrow> walk_prev bc (reorgBranchPoint st) k blockIDs) of
             None \<Rightarrow> None
           | Some (Inl e) \<Rightarrow> Some (Inl e)
           | Some (Inr blockIDs') \<Rightarrow> Some (Inr (setBlockIDBranch blockIDs' (setValidDupIDForHeight dupIDs db)))))"

section \<open>findReorgPointFromBlock\<close>

lemma settledD:
  assumes "settled T t bc"
  shows "chain_inv T bc" "organised T t bc" "represents T bc" "organised_to T t bc" "rooted T t" "topBlockPtr bc = Some t"
  using assms unfolding settled_def chain_inv_def organised_def best_def by blast+

lemma settled_main:
  assumes "settled T t bc" "q \<in> bt_nodes T"
  shows "isMainBranch (heap bc q) \<longleftrightarrow> anc T q t"
  using organised_toD(3) [OF settledD(4) [OF assms(1)] assms(2)] .

lemma settled_prev:
  assumes "settled T t bc" "p \<in> bt_nodes T" "p \<noteq> bt_gen T"
  shows "\<exists>prev. getPrevHash (heap bc p) = Inr prev \<and>
    getHeaderByHash bc prev = (case bt_parent T p of None \<Rightarrow> Inl (Range_Error ''Cannot find block with hash'') | Some q \<Rightarrow> Inr q)"
  using settledD(3) [OF assms(1)] assms(2,3)
  by (auto simp: represents_def getPrevHash_def mem_read_def getHeaderByHash_def bslice_def)

lemma find_main_rooted:
  assumes st: "settled T t bc"
  shows "chain_val T p s n \<Longrightarrow>
    \<exists>f. find_main bc p = Some (Inr f) \<and> anc T f p \<and> anc T f t \<and> (\<forall>q. anc T q p \<longrightarrow> anc T q t \<longrightarrow> anc T q f)"
proof (induction rule: chain_val.induct)
  case root
  have "bt_gen T \<in> bt_nodes T"
    using st tree_okD(2) unfolding settled_def by blast
  then have "isMainBranch (heap bc (bt_gen T))" "anc T (bt_gen T) t"
    using settled_main [OF st] anc_gen_rooted [OF settledD(5) [OF st]] by auto
  then show ?case
    by (auto simp: find_main.simps [of bc "bt_gen T"] intro: anc.self)
next
  case (child p r s n)
  show ?case
  proof (cases "anc T p t")
    case True
    then show ?thesis
      using settled_main [OF st child.hyps(1)] by (auto simp: find_main.simps [of bc p] intro: anc.self)
  next
    case False
    obtain f where f: "find_main bc r = Some (Inr f)" "anc T f r" "anc T f t" "\<And>q. anc T q r \<Longrightarrow> anc T q t \<Longrightarrow> anc T q f"
      using child.IH by blast
    have "find_main bc p = find_main bc r"
      using False settled_main [OF st child.hyps(1)] settled_prev [OF st child.hyps(1,2)] child.hyps(3)
      by (auto simp: find_main.simps [of bc p])
    then show ?thesis
      using f False child.hyps(2,3) by (auto elim: ancE [of T _ p] intro: anc.link)
  qed
qed

lemma find_main_orphan:
  assumes st: "settled T t bc"
  shows "p \<in> bt_nodes T \<Longrightarrow> \<not> rooted T p \<Longrightarrow> find_main bc p = Some (Inl (Range_Error ''Cannot find block with hash''))"
proof -
  obtain rank where T: "tree_ok T rank"
    using st unfolding settled_def by blast
  show "p \<in> bt_nodes T \<Longrightarrow> \<not> rooted T p \<Longrightarrow> ?thesis"
  proof (induction "rank p" arbitrary: p rule: less_induct)
    case less
    have gen: "p \<noteq> bt_gen T"
      using less.prems(2) chain_val.root unfolding rooted_def by blast
    have side: "\<not> isMainBranch (heap bc p)"
      using settled_main [OF st less.prems(1)] anc_rooted [OF _ settledD(5) [OF st]] less.prems(2) by blast
    show ?case
    proof (cases "bt_parent T p")
      case None
      then show ?thesis
        using side settled_prev [OF st less.prems(1) gen] by (auto simp: find_main.simps [of bc p])
    next
      case (Some q)
      then have "q \<in> bt_nodes T" "rank q < rank p" "\<not> rooted T q"
        using tree_okD(4,5) [OF T less.prems(1) gen] chain_val.child [OF less.prems(1) gen Some] less.prems(2) unfolding rooted_def by blast+
      then have "find_main bc q = Some (Inl (Range_Error ''Cannot find block with hash''))"
        using less.hyps by blast
      then show ?thesis
        using side Some settled_prev [OF st less.prems(1) gen] by (auto simp: find_main.simps [of bc p])
    qed
  qed
qed

section \<open>updateBranchingMaps\<close>

text \<open>Every header is filed under its own hash, and no hash is the empty one.\<close>

definition keyed :: "blockchain \<Rightarrow> bool" where
  "keyed bc \<longleftrightarrow> (\<forall>(h, p) \<in> set (headerMap bc). thisHash (heap bc p) = h \<and> h \<noteq> EmptyHash)"

lemma keyed_find:
  assumes "keyed bc" "represents T bc" "p \<in> bt_nodes T"
  shows "getHeaderByHash bc (thisHash (heap bc p)) = Inr p" "thisHash (heap bc p) \<noteq> EmptyHash"
proof -
  have wf: "bd.map_wf (headerMap bc)" and "p \<in> snd ` set (headerMap bc)"
    using assms(2,3) unfolding represents_def by blast+
  then obtain h where "(h, p) \<in> set (headerMap bc)"
    by force
  moreover from this have "thisHash (heap bc p) = h" "h \<noteq> EmptyHash"
    using assms(1) unfolding keyed_def by blast+
  ultimately show "getHeaderByHash bc (thisHash (heap bc p)) = Inr p" "thisHash (heap bc p) \<noteq> EmptyHash"
    by (simp_all add: getHeaderByHash_def flip: bd.map_find_Some_iff [OF wf])
qed

lemma keyed_no_empty:
  assumes "keyed bc" "represents T bc"
  shows "getHeaderByHash bc EmptyHash = Inl (Range_Error ''Cannot find block with hash'')"
proof (cases "map_find bd_less EmptyHash (headerMap bc)")
  case (Some p)
  have "bd.map_wf (headerMap bc)"
    using assms(2) unfolding represents_def by blast
  from bd.map_find_Some_iff [OF this] Some have "(EmptyHash, p) \<in> set (headerMap bc)"
    by simp
  then show ?thesis
    using assms(1) unfolding keyed_def by blast
qed (simp add: getHeaderByHash_def)

text \<open>The segment of the chain from \<open>p\<close> up to \<open>x\<close>.\<close>

definition segment :: "block_tree \<Rightarrow> ptr \<Rightarrow> ptr \<Rightarrow> ptr set" where
  "segment T p x = {q. anc T p q \<and> anc T q x}"

lemma segment_self: "tree_ok T rank \<Longrightarrow> p \<in> bt_nodes T \<Longrightarrow> segment T p p = {p}"
  unfolding segment_def using anc_antisym by (auto intro: anc.self)

lemma segment_link:
  "x \<noteq> bt_gen T \<Longrightarrow> bt_parent T x = Some y \<Longrightarrow> anc T p y \<Longrightarrow> segment T p x = insert x (segment T p y)"
  unfolding segment_def by (auto elim: ancE [of T _ x] intro: anc.intros)

text \<open>A table of a value under a key, for a set of headers.\<close>

definition tabulates :: "(ptr \<Rightarrow> u32) \<Rightarrow> (ptr \<Rightarrow> 'v) \<Rightarrow> ptr set \<Rightarrow> (u32 \<times> 'v) list \<Rightarrow> bool" where
  "tabulates key val S m \<longleftrightarrow> linorder_lt.map_wf m \<and>
     (\<forall>i v. map_find u32_less i m = Some v \<longleftrightarrow> (\<exists>q \<in> S. key q = i \<and> val q = v))"

lemma tabulates_Nil: "tabulates key val {} []"
  by (simp add: tabulates_def linorder_lt.map_wf_Nil)

lemma tabulates_insert:
  assumes "tabulates key val S m" "inj_on key (insert q S)"
  shows "tabulates key val (insert q S) (map_insert u32_less (key q) (val q) m)"
proof -
  have wf: "linorder_lt.map_wf m" and find: "\<And>i v. map_find u32_less i m = Some v \<longleftrightarrow> (\<exists>q \<in> S. key q = i \<and> val q = v)"
    using assms(1) unfolding tabulates_def by blast+
  have same: "r = q" if "r \<in> S" "key r = key q" for r
    using assms(2) that unfolding inj_on_def by auto
  have none: "map_find u32_less (key q) m = None \<longleftrightarrow> q \<notin> S"
    using find [of "key q"] same by (cases "map_find u32_less (key q) m") auto
  show ?thesis
    unfolding tabulates_def
  proof (intro conjI allI)
    fix i v
    show "map_find u32_less i (map_insert u32_less (key q) (val q) m) = Some v \<longleftrightarrow> (\<exists>r \<in> insert q S. key r = i \<and> val r = v)"
      using find [of i v] none same by (auto simp: linorder_lt.map_find_insert [OF wf])
  qed (rule linorder_lt.map_insert_wf [OF wf])
qed

lemma settled_nodes: "settled T t bc \<Longrightarrow> t \<in> bt_nodes T \<and> bt_gen T \<in> bt_nodes T"
  unfolding settled_def using organised_ready(2) tree_okD(2) by blast

lemma settled_anc_node: "settled T t bc \<Longrightarrow> anc T q x \<Longrightarrow> x \<in> bt_nodes T \<Longrightarrow> q \<in> bt_nodes T"
  unfolding settled_def using anc_node by blast

text \<open>Identifiers tell headers apart, heights those of the main chain.\<close>

lemma settled_ids_inj:
  assumes "settled T t bc"
  shows "inj_on (\<lambda>p. uniqueID (heap bc p)) (bt_nodes T)"
proof (rule inj_onI)
  have ok: "ids_ok T bc"
    using settledD(1) [OF assms] unfolding chain_inv_def by blast
  fix p q assume "p \<in> bt_nodes T" "q \<in> bt_nodes T" "uniqueID (heap bc p) = uniqueID (heap bc q)"
  then show "p = q"
    using ok unfolding ids_ok_def by (metis option.distinct(1) option.inject)
qed

lemma settled_height_lookup:
  assumes st: "settled T t bc" and q: "anc T q t"
  shows "map_find u32_less (blockHeight (heap bc q)) (headersByHeight bc) = Some q"
proof -
  obtain s n where v: "chain_val T q s n"
    using anc_rooted [OF q settledD(5) [OF st]] unfolding rooted_def by blast
  have "blockHeight (heap bc q) = of_nat n"
    using settledD(2) [OF st] settled_anc_node [OF st q] settled_nodes [OF st] v unfolding organised_def by blast
  moreover have "map_find u32_less (of_nat n) (headersByHeight bc) = Some q"
    using settledD(2) [OF st] q v unfolding organised_def organised_to_def by (cases "q = t") blast+
  ultimately show ?thesis
    by simp
qed

lemma settled_heights_inj: "settled T t bc \<Longrightarrow> inj_on (\<lambda>p. blockHeight (heap bc p)) {q. anc T q t}"
  by (rule inj_onI) (metis settled_height_lookup mem_Collect_eq option.inject)

lemma segment_chain: "anc T x t \<Longrightarrow> segment T p x \<subseteq> {q. anc T q t}"
  unfolding segment_def using anc_trans by blast

definition ids_noted :: "blockchain \<Rightarrow> ptr set \<Rightarrow> branch_map \<Rightarrow> bool" where
  "ids_noted bc = tabulates (\<lambda>q. uniqueID (heap bc q)) (\<lambda>q. isMainBranch (heap bc q))"

definition noted :: "blockchain \<Rightarrow> ptr set \<Rightarrow> dup_map \<times> branch_map \<Rightarrow> bool" where
  "noted bc S m \<longleftrightarrow> tabulates (\<lambda>q. blockHeight (heap bc q)) (\<lambda>q. duplicateID (heap bc q)) S (fst m) \<and> ids_noted bc S (snd m)"

lemma noted_insert:
  assumes st: "settled T t bc" and m: "noted bc S m" and q: "insert q S \<subseteq> {q. anc T q t}"
  shows "noted bc (insert q S) (note_header bc q m)"
proof -
  have "insert q S \<subseteq> bt_nodes T"
    using q settled_anc_node [OF st] settled_nodes [OF st] by blast
  then have "inj_on (\<lambda>q. uniqueID (heap bc q)) (insert q S)"
    by (rule inj_on_subset [OF settled_ids_inj [OF st]])
  moreover have "inj_on (\<lambda>q. blockHeight (heap bc q)) (insert q S)"
    by (rule inj_on_subset [OF settled_heights_inj [OF st] q])
  ultimately show ?thesis
    using m tabulates_insert [of "\<lambda>q. blockHeight (heap bc q)" "\<lambda>q. duplicateID (heap bc q)" S "fst m" q]
      tabulates_insert [of "\<lambda>q. uniqueID (heap bc q)" "\<lambda>q. isMainBranch (heap bc q)" S "snd m" q]
    unfolding note_header_def noted_def ids_noted_def by (simp del: inj_on_insert)
qed

lemma parent_above:
  assumes "settled T t bc" "k \<in> bt_nodes T" "k \<noteq> bt_gen T" "bt_parent T k = Some y" "anc T f y"
  shows "f \<noteq> k"
proof -
  obtain rank where T: "tree_ok T rank"
    using assms(1) unfolding settled_def by blast
  have "rank f \<le> rank y" "rank y < rank k"
    using anc_rank [OF assms(5) T] tree_okD(4,5) [OF T assms(2-4)] by blast+
  then show ?thesis
    by auto
qed

lemma walk_next_from:
  assumes st: "settled T t bc" and key: "keyed bc"
  shows "anc T p x \<Longrightarrow> anc T x t \<Longrightarrow>
    \<exists>m. walk_next bc EmptyHash p ([], []) = walk_next bc EmptyHash x m \<and> noted bc (segment T p x - {x}) m"
proof (induction rule: anc.induct)
  case (self p)
  have "p \<in> bt_nodes T"
    using self settled_anc_node [OF st] settled_nodes [OF st] by blast
  then have "segment T p p = {p}"
    using segment_self st unfolding settled_def by blast
  then show ?case
    by (intro exI [of _ "([], [])"]) (simp add: noted_def ids_noted_def tabulates_Nil)
next
  case (link x y p)
  have y: "anc T y t" "y \<in> bt_nodes T" and x: "x \<in> bt_nodes T"
    using link.hyps(1,2) link.prems anc_trans [OF link.prems anc.link [OF link.hyps(1,2) anc.self]]
      settled_anc_node [OF st] settled_nodes [OF st] by blast+
  obtain m where m: "walk_next bc EmptyHash p ([], []) = walk_next bc EmptyHash y m" "noted bc (segment T p y - {y}) m"
    using link.IH [OF y(1)] by blast
  have next_x: "nextHash (heap bc y) = thisHash (heap bc x)"
    using organised_toD(4) [OF settledD(4) [OF st] link.prems link.hyps(1,2)] .
  have step: "walk_next bc EmptyHash y m = walk_next bc EmptyHash x (note_header bc y m)"
    using keyed_find [OF key settledD(3) [OF st]] x y(2) next_x by (simp add: walk_next.simps [of _ _ y])
  have "x \<notin> segment T p y"
    using parent_above [OF st x link.hyps(1,2)] unfolding segment_def by blast
  then have seg: "segment T p x - {x} = insert y (segment T p y - {y})"
    using segment_link [OF link.hyps(1,2)] link.hyps(3) unfolding segment_def by (auto intro: anc.self)
  have "insert y (segment T p y - {y}) \<subseteq> {q. anc T q t}"
    using segment_chain [OF y(1)] y(1) by blast
  from noted_insert [OF st m(2) this] have "noted bc (segment T p x - {x}) (note_header bc y m)"
    unfolding seg .
  then show ?case
    using m(1) step by (intro exI [of _ "note_header bc y m"]) simp
qed

lemma walk_next_result:
  assumes st: "settled T t bc" and key: "keyed bc" and p: "anc T p t"
  shows "\<exists>m. walk_next bc EmptyHash p ([], []) = Some m \<and> noted bc (segment T p t) m"
proof -
  obtain m where m: "walk_next bc EmptyHash p ([], []) = walk_next bc EmptyHash t m" "noted bc (segment T p t - {t}) m"
    using walk_next_from [OF st key p anc.self] by blast
  have "nextHash (heap bc t) = EmptyHash"
    using settledD(2) [OF st] unfolding organised_def by blast
  then have "walk_next bc EmptyHash p ([], []) = Some (note_header bc t m)"
    using keyed_no_empty [OF key settledD(3) [OF st]] keyed_find [OF key settledD(3) [OF st]] settled_nodes [OF st]
    by (simp add: m(1) walk_next.simps [of _ _ t])
  moreover have "t \<in> segment T p t"
    using p unfolding segment_def by (auto intro: anc.self)
  then have seg: "insert t (segment T p t - {t}) = segment T p t"
    by blast
  have "insert t (segment T p t - {t}) \<subseteq> {q. anc T q t}"
    unfolding seg by (rule segment_chain [OF anc.self])
  from noted_insert [OF st m(2) this] have "noted bc (segment T p t) (note_header bc t m)"
    unfolding seg .
  ultimately show ?thesis
    by (intro exI [of _ "note_header bc t m"]) simp
qed

lemma walk_prev_result:
  assumes st: "settled T t bc"
  shows "anc T f k \<Longrightarrow> k \<in> bt_nodes T \<Longrightarrow> S \<subseteq> bt_nodes T \<Longrightarrow>
    ids_noted bc S m \<Longrightarrow>
    \<exists>m'. walk_prev bc (Some f) k m = Some (Inr m') \<and>
      ids_noted bc (S \<union> (segment T f k - {f})) m'"
proof (induction arbitrary: S m rule: anc.induct)
  case (self p)
  have "segment T p p = {p}"
    using segment_self self.prems(1) st unfolding settled_def by blast
  then show ?case
    using self.prems by (simp add: walk_prev.simps [of bc "Some p" p])
next
  case (link k y f)
  have y: "y \<in> bt_nodes T"
    using settled_anc_node [OF st anc.link [OF link.hyps(1,2) anc.self]] link.prems(1) by blast
  have "k \<noteq> f"
    using parent_above [OF st link.prems(1) link.hyps] by blast
  let ?m = "map_insert u32_less (uniqueID (heap bc k)) (isMainBranch (heap bc k)) m"
  have step: "walk_prev bc (Some f) k m = walk_prev bc (Some f) y ?m"
    using settled_prev [OF st link.prems(1) link.hyps(1)] link.hyps(2) \<open>k \<noteq> f\<close> by (auto simp: walk_prev.simps [of _ _ k] Let_def)
  have sub: "insert k S \<subseteq> bt_nodes T"
    using link.prems(1,2) by blast
  then have "ids_noted bc (insert k S) ?m"
    using link.prems(3) unfolding ids_noted_def by (intro tabulates_insert inj_on_subset [OF settled_ids_inj [OF st]])
  from link.IH [OF y sub this] obtain m' where "walk_prev bc (Some f) y ?m = Some (Inr m')"
      "ids_noted bc (insert k S \<union> (segment T f y - {f})) m'"
    by blast
  moreover have "insert k S \<union> (segment T f y - {f}) = S \<union> (segment T f k - {f})"
    using segment_link [OF link.hyps] \<open>k \<noteq> f\<close> by blast
  ultimately show ?case
    unfolding step by (intro exI [of _ m']) simp
qed

text \<open>The tables after a published update.\<close>

lemma tabulates_updated:
  assumes "tabulates key val S u" "linorder_lt.map_wf m"
  shows "q \<in> S \<Longrightarrow> inj_on key S \<Longrightarrow> map_find u32_less (key q) (updated_map u32_less u m) = Some (val q)"
    "i \<notin> key ` S \<Longrightarrow> map_find u32_less i (updated_map u32_less u m) = map_find u32_less i m"
proof -
  have wf: "linorder_lt.map_wf u" and find: "\<And>i v. map_find u32_less i u = Some v \<longleftrightarrow> (\<exists>q \<in> S. key q = i \<and> val q = v)"
    using assms(1) unfolding tabulates_def by blast+
  note upd = updated_map_find(2) [OF wf assms(2)]
  show "map_find u32_less (key q) (updated_map u32_less u m) = Some (val q)" if "q \<in> S" "inj_on key S"
  proof -
    have "map_find u32_less (key q) u = Some (val q)"
      using find that by blast
    then show ?thesis
      by (simp add: upd)
  qed
  show "map_find u32_less i (updated_map u32_less u m) = map_find u32_less i m" if "i \<notin> key ` S"
  proof -
    have "map_find u32_less i u = None"
      using find [of i] that by (cases "map_find u32_less i u") auto
    then show ?thesis
      by (simp add: upd)
  qed
qed

lemma walk_start_valid:
  assumes "settled T t bc" "(if prevTopStillValid st then prevTop st else reorgBranchPoint st) = Some p" "isInitialized (heap bc p)"
    "newTop st = Some t"
  shows "walk_start bc st = Inr p" "nextHash (heap bc t) = EmptyHash"
  using assms settledD(2) [OF assms(1)] by (auto simp: walk_start_def organised_def)

text \<open>The headers whose branch the update settles.\<close>

definition branched :: "block_tree \<Rightarrow> reorg_state \<Rightarrow> ptr \<Rightarrow> ptr \<Rightarrow> ptr set" where
  "branched T st p t = segment T p t \<union> (if prevTopStillValid st then {} else segment T p (the (prevTop st)) - {p})"

lemma updateBranchingMaps_result:
  assumes st: "settled T t bc" and key: "keyed bc" and new: "newTop st = Some t" and k: "prevTop st = Some k" "k \<in> bt_nodes T"
    and start: "(if prevTopStillValid st then prevTop st else reorgBranchPoint st) = Some p" "isInitialized (heap bc p)"
    and p: "anc T p t" "anc T p k"
  shows "\<exists>dups ids. updateBranchingMaps bc st db = Some (Inr (setBlockIDBranch ids (setValidDupIDForHeight dups db))) \<and>
    tabulates (\<lambda>q. blockHeight (heap bc q)) (\<lambda>q. duplicateID (heap bc q)) (segment T p t) dups \<and> ids_noted bc (branched T st p t) ids"
proof -
  note ws = walk_start_valid [OF st start new]
  obtain m where m: "walk_next bc EmptyHash p ([], []) = Some m" "noted bc (segment T p t) m"
    using walk_next_result [OF st key p(1)] by blast
  have sub: "segment T p t \<subseteq> bt_nodes T"
    using settled_anc_node [OF st] settled_nodes [OF st] unfolding segment_def by blast
  have dups: "tabulates (\<lambda>q. blockHeight (heap bc q)) (\<lambda>q. duplicateID (heap bc q)) (segment T p t) (fst m)" "ids_noted bc (segment T p t) (snd m)"
    using m(2) unfolding noted_def by blast+
  obtain ids where ids: "ids_noted bc (branched T st p t) ids"
      "(if prevTopStillValid st then Some (Inr (snd m)) else walk_prev bc (reorgBranchPoint st) k (snd m)) = Some (Inr ids)"
  proof (cases "prevTopStillValid st")
    case True
    then show ?thesis
      using that [of "snd m"] dups(2) by (simp add: branched_def)
  next
    case False
    then have "reorgBranchPoint st = Some p" "branched T st p t = segment T p t \<union> (segment T p k - {p})"
      using start(1) k(1) by (auto simp: branched_def)
    then show ?thesis
      using that walk_prev_result [OF st p(2) k(2) sub dups(2)] False by auto
  qed
  have "updateBranchingMaps bc st db = Some (Inr (setBlockIDBranch ids (setValidDupIDForHeight (fst m) db)))"
    using ids(2) by (simp add: updateBranchingMaps_def ws new m(1) k(1) prod.case_eq_if split: if_splits)
  then show ?thesis
    using dups(1) ids(1) by blast
qed

text \<open>An organised chain of two headers.\<close>

definition pair_chain :: blockchain where
  "pair_chain =
     \<lparr>heap = (\<lambda>p. if p = 1 then (sample_header 0 1)\<lparr>isMainBranch := True, isOrphan := False, isFinishedCalc := True,
                  blockHeight := 0, difficultySum := Fin 1, nextHash := sample_hash 2, duplicateID := 0\<rparr>
                else (sample_header 1 2)\<lparr>isMainBranch := True, isOrphan := False, isFinishedCalc := True,
                  blockHeight := 1, difficultySum := dbl_add (Fin 1) (Fin 1), nextHash := EmptyHash, duplicateID := 5\<rparr>),
      nextPtr = 3, genesisHash = sample_hash 1,
      headerMap = [(sample_hash 1, 1), (sample_hash 2, 2)],
      headersById = [(1, 1), (2, 2)], headersByHeight = [(0, 1), (1, 2)], newlyParsedBlocks = [],
      topBlockPtr = Some 2, topBlockId = 2, topID = 2\<rparr>"

lemma pair_simps:
  "headersByHeight pair_chain = [(0, 1), (1, 2)]" "isFinishedCalc (heap pair_chain p)" "isMainBranch (heap pair_chain p)"
  "nextHash (heap pair_chain 1) = sample_hash 2" "nextHash (heap pair_chain 2) = EmptyHash" "thisHash (heap pair_chain 2) = sample_hash 2"
  "blockHeight (heap pair_chain 1) = 0" "blockHeight (heap pair_chain 2) = 1" "\<not> isOrphan (heap pair_chain p)"
  "difficultySum (heap pair_chain 1) = Fin 1" "difficultySum (heap pair_chain 2) = dbl_add (Fin 1) (Fin 1)"
  "topBlockPtr pair_chain = Some 2" "topBlockId pair_chain = uniqueID (heap pair_chain 2)"
  "uniqueID (heap pair_chain 1) = 1" "uniqueID (heap pair_chain 2) = 2" "headersById pair_chain = [(1, 1), (2, 2)]"
  "headerMap pair_chain = [(sample_hash 1, 1), (sample_hash 2, 2)]"
  by (simp_all add: pair_chain_def)

lemma pair_tree:
  "bt_nodes (tree_of pair_chain) = {1, 2}" "bt_gen (tree_of pair_chain) = 1"
  "bt_parent (tree_of pair_chain) 2 = Some 1" "bt_work (tree_of pair_chain) p = Fin 1"
  by (auto simp: tree_of_def pair_chain_def)

lemma pair_tree_ok: "tree_ok (tree_of pair_chain) id"
  by (auto simp: tree_ok_def pair_tree)

lemma pair_val:
  "chain_val (tree_of pair_chain) 1 (Fin 1) 0" "chain_val (tree_of pair_chain) 2 (dbl_add (Fin 1) (Fin 1)) 1"
proof -
  show one: "chain_val (tree_of pair_chain) 1 (Fin 1) 0"
    using chain_val.root [of "tree_of pair_chain"] by (simp add: pair_tree)
  show "chain_val (tree_of pair_chain) 2 (dbl_add (Fin 1) (Fin 1)) 1"
    using chain_val.child [of 2 "tree_of pair_chain", OF _ _ pair_tree(3) one] by (simp add: pair_tree)
qed

lemma pair_anc: "anc (tree_of pair_chain) q 2 \<longleftrightarrow> q = 1 \<or> q = 2" "anc (tree_of pair_chain) q 1 \<longleftrightarrow> q = 1"
  using anc_gen [of "tree_of pair_chain" q] by (auto simp: pair_tree elim: ancE intro: anc.intros)

lemma pair_val_cases:
  "chain_val (tree_of pair_chain) p s n \<Longrightarrow> p = 1 \<and> s = Fin 1 \<and> n = 0 \<or> p = 2 \<and> s = dbl_add (Fin 1) (Fin 1) \<and> n = 1"
  using chain_val_node [OF pair_tree_ok] chain_val_unique [OF _ pair_val(1)] chain_val_unique [OF _ pair_val(2)]
  unfolding pair_tree by blast

lemma pair_settled: "settled (tree_of pair_chain) 2 pair_chain"
proof -
  let ?T = "tree_of pair_chain"
  have rooted: "rooted ?T 1" "rooted ?T 2"
    using pair_val unfolding rooted_def by blast+
  have rep: "represents ?T pair_chain"
    by (rule tree_of_represents(1) [where g = 1]) (auto simp: pair_chain_def)
  have "Fin 1 \<le> dbl_add (Fin 1) (Fin 1)"
    using chain_val_ok [OF pair_val(2) pair_tree_ok] by simp
  then have "best ?T 2"
    using rooted tree_val_eq [OF pair_val(1)] tree_val_eq [OF pair_val(2)] unfolding best_def pair_tree by auto
  moreover have "organised_to ?T 2 pair_chain"
    unfolding organised_to_def
  proof (intro conjI ballI allI impI)
    fix c d assume "anc ?T c 2" "c \<noteq> bt_gen ?T" "bt_parent ?T c = Some d"
    then have "c = 2" "d = 1"
      using pair_anc(1) [of c] pair_tree(2,3) by auto
    then show "nextHash (heap pair_chain d) = thisHash (heap pair_chain c)"
      by (simp only: pair_simps)
  next
    fix q s n assume q: "anc ?T q 2" "q \<noteq> 2" "chain_val ?T q s n"
    then show "map_find u32_less (of_nat n) (headersByHeight pair_chain) = Some q"
      using pair_val_cases [OF q(3)] by (auto simp: pair_simps)
  next
    fix q assume "q \<in> bt_nodes ?T"
    then show "isFinishedCalc (heap pair_chain q) \<longleftrightarrow> anc ?T q 2" "isMainBranch (heap pair_chain q) \<longleftrightarrow> anc ?T q 2"
      by (simp_all only: pair_simps pair_anc pair_tree insert_iff empty_iff simp_thms)
  next
    show "rooted ?T 2"
      by (rule rooted(2))
    show "linorder_lt.map_wf (headersByHeight pair_chain)"
      by (simp add: pair_simps)
  qed
  moreover have "difficultySum (heap pair_chain p) = s \<and> blockHeight (heap pair_chain p) = of_nat n \<and> \<not> isOrphan (heap pair_chain p)"
    if "chain_val ?T p s n" for p s n
    using pair_val_cases [OF that] by (elim disjE) (simp_all add: pair_simps del: One_nat_def)
  moreover have "map_find u32_less (of_nat n) (headersByHeight pair_chain) = Some 2" if "chain_val ?T 2 s n" for s n
    using pair_val_cases [OF that] by (simp add: pair_simps)
  moreover have "rooted ?T p" if "p \<in> bt_nodes ?T" for p
    using that rooted unfolding pair_tree(1) by blast
  ultimately have "organised ?T 2 pair_chain"
    unfolding organised_def by (simp add: pair_simps del: One_nat_def)
  moreover have "orphans_ok ?T pair_chain"
    using rooted unfolding orphans_ok_def pair_tree(1) by blast
  moreover have "ids_ok ?T pair_chain"
    unfolding ids_ok_def pair_tree(1) by (simp add: pair_simps del: One_nat_def)
  moreover have "all_full pair_chain"
    by (auto simp: all_full_def pair_chain_def HEADER_SIZE_def)
  ultimately show ?thesis
    using pair_tree_ok rep unfolding settled_def chain_inv_def by (auto simp: pair_simps)
qed



text \<open>
  C5: In every organised state, \<open>findReorgPointFromBlock\<close> on the hash of a known header returns: for a
  header linked to the genesis block it names the last header shared with the main chain (none when the
  header is on the main chain itself), and for an orphan it fails with the missing-header error.
\<close>

theorem findReorgPoint_correct:
  assumes "settled T t bc" "getHeaderByHash bc blkHash = Inr p" "p \<in> bt_nodes T"
  shows "(rooted T p \<longrightarrow> (\<exists>st. findReorgPointFromBlock bc blkHash = Some (Inr st) \<and> newTop st = Some t \<and> prevTop st = Some p \<and>
       (prevTopStillValid st \<longleftrightarrow> anc T p t) \<and>
       (case reorgBranchPoint st of
          None \<Rightarrow> anc T p t
        | Some f \<Rightarrow> \<not> anc T p t \<and> anc T f p \<and> anc T f t \<and> (\<forall>q. anc T q p \<longrightarrow> anc T q t \<longrightarrow> anc T q f)))) \<and>
     (\<not> rooted T p \<longrightarrow> findReorgPointFromBlock bc blkHash = Some (Inl (Range_Error ''Cannot find block with hash'')))"
proof (intro conjI impI)
  assume "\<not> rooted T p"
  then show "findReorgPointFromBlock bc blkHash = Some (Inl (Range_Error ''Cannot find block with hash''))"
    using find_main_orphan [OF assms(1,3)] assms(2) by (simp add: findReorgPointFromBlock_def)
next
  assume "rooted T p"
  then obtain f where f: "find_main bc p = Some (Inr f)" "anc T f p" "anc T f t" "\<forall>q. anc T q p \<longrightarrow> anc T q t \<longrightarrow> anc T q f"
    using find_main_rooted [OF assms(1)] unfolding rooted_def by blast
  obtain rank where "tree_ok T rank"
    using assms(1) unfolding settled_def by blast
  then have "f = p \<longleftrightarrow> anc T p t"
    using f(2-4) anc_antisym [OF f(2)] assms(3) anc.self [of T p] by blast
  then show "\<exists>st. findReorgPointFromBlock bc blkHash = Some (Inr st) \<and> newTop st = Some t \<and> prevTop st = Some p \<and>
       (prevTopStillValid st \<longleftrightarrow> anc T p t) \<and>
       (case reorgBranchPoint st of
          None \<Rightarrow> anc T p t
        | Some f \<Rightarrow> \<not> anc T p t \<and> anc T f p \<and> anc T f t \<and> (\<forall>q. anc T q p \<longrightarrow> anc T q t \<longrightarrow> anc T q f))"
    using f settledD(6) [OF assms(1)] assms(2) by (simp add: findReorgPointFromBlock_def)
qed

theorem findReorgPoint_correct_witness:
  "settled (tree_of pair_chain) 2 pair_chain \<and>
   (\<exists>st. findReorgPointFromBlock pair_chain (sample_hash 1) = Some (Inr st) \<and> prevTopStillValid st \<and> reorgBranchPoint st = None)"
proof -
  have "getHeaderByHash pair_chain (sample_hash 1) = Inr 1" "1 \<in> bt_nodes (tree_of pair_chain)"
    by (simp_all add: getHeaderByHash_def pair_tree) (simp add: pair_chain_def)
  from findReorgPoint_correct [OF pair_settled this] obtain st where
    "findReorgPointFromBlock pair_chain (sample_hash 1) = Some (Inr st)" "prevTopStillValid st" "reorgBranchPoint st = None"
    using pair_val(1) pair_anc(1) [of 1] unfolding rooted_def by (auto split: option.splits)
  then show ?thesis
    using pair_settled by blast
qed

text \<open>
  C4: After a reorganisation to a new top, \<open>updateBranchingMaps\<close> returns, and then the database knows the
  duplicate ID of every header from the branch point (or the previous top) up to the new top, reports
  their block IDs as on the main branch, and reports those of the abandoned branch as off it.
\<close>

theorem updateBranchingMaps_correct:
  assumes "settled T t bc" "keyed bc" "newTop st = Some t" "prevTop st = Some k" "k \<in> bt_nodes T"
    and "(if prevTopStillValid st then prevTop st else reorgBranchPoint st) = Some p" "isInitialized (heap bc p)"
    and "anc T p t" "anc T p k"
    and "linorder_lt.map_wf (validDupByHeight db)" "linorder_lt.map_wf (blockIDMainChainMap db)"
  shows "\<exists>db'. updateBranchingMaps bc st db = Some (Inr db') \<and>
     (\<forall>q. anc T p q \<and> anc T q t \<longrightarrow> getValidDupIDForHeight db' (blockHeight (heap bc q)) = duplicateID (heap bc q) \<and>
        isBlockIDOnMainBranch db' (uniqueID (heap bc q))) \<and>
     (\<forall>q. \<not> prevTopStillValid st \<and> anc T p q \<and> anc T q k \<and> \<not> anc T q t \<longrightarrow> \<not> isBlockIDOnMainBranch db' (uniqueID (heap bc q))) \<and>
     (\<forall>h. h \<notin> (\<lambda>q. blockHeight (heap bc q)) ` {q. anc T p q \<and> anc T q t} \<longrightarrow> getValidDupIDForHeight db' h = getValidDupIDForHeight db h)"
proof -
  obtain dups ids where run: "updateBranchingMaps bc st db = Some (Inr (setBlockIDBranch ids (setValidDupIDForHeight dups db)))"
    and dups: "tabulates (\<lambda>q. blockHeight (heap bc q)) (\<lambda>q. duplicateID (heap bc q)) (segment T p t) dups"
    and ids: "tabulates (\<lambda>q. uniqueID (heap bc q)) (\<lambda>q. isMainBranch (heap bc q)) (branched T st p t) ids"
    using updateBranchingMaps_result [OF assms(1-9)] unfolding ids_noted_def by blast
  have sub: "branched T st p t \<subseteq> bt_nodes T"
    using settled_anc_node [OF assms(1)] settled_nodes [OF assms(1)] assms(4,5) unfolding branched_def segment_def by auto
  have hts: "inj_on (\<lambda>q. blockHeight (heap bc q)) (segment T p t)"
    by (rule inj_on_subset [OF settled_heights_inj [OF assms(1)] segment_chain [OF anc.self]])
  note idinj = inj_on_subset [OF settled_ids_inj [OF assms(1)] sub]
  have main: "isBlockIDOnMainBranch (setBlockIDBranch ids (setValidDupIDForHeight dups db)) (uniqueID (heap bc q)) \<longleftrightarrow> anc T q t"
    if "q \<in> branched T st p t" for q
    using tabulates_updated(1) [OF ids assms(11) that idinj] settled_main [OF assms(1)] sub that
    by (auto simp: isBlockIDOnMainBranch_def setBlockIDBranch_def setValidDupIDForHeight_def)
  have dup: "getValidDupIDForHeight (setBlockIDBranch ids (setValidDupIDForHeight dups db)) (blockHeight (heap bc q)) = duplicateID (heap bc q)"
    if "q \<in> segment T p t" for q
    using tabulates_updated(1) [OF dups assms(10) that hts]
    by (simp add: getValidDupIDForHeight_def setBlockIDBranch_def setValidDupIDForHeight_def)
  have old: "getValidDupIDForHeight (setBlockIDBranch ids (setValidDupIDForHeight dups db)) h = getValidDupIDForHeight db h"
    if "h \<notin> (\<lambda>q. blockHeight (heap bc q)) ` segment T p t" for h
    using tabulates_updated(2) [OF dups assms(10) that]
    by (simp add: getValidDupIDForHeight_def setBlockIDBranch_def setValidDupIDForHeight_def)
  have on: "q \<in> branched T st p t \<and> q \<in> segment T p t" if "anc T p q \<and> anc T q t" for q
    using that unfolding branched_def segment_def by auto
  have off: "q \<in> branched T st p t" if "\<not> prevTopStillValid st \<and> anc T p q \<and> anc T q k \<and> \<not> anc T q t" for q
    using that assms(4,8) unfolding branched_def segment_def by auto
  show ?thesis
    using run main dup old on off unfolding segment_def by (intro exI conjI) blast+
qed

theorem updateBranchingMaps_correct_witness:
  "\<exists>db'. updateBranchingMaps pair_chain \<lparr>prevTopStillValid = True, hasNewTop = True, prevTop = Some 1, newTop = Some 2, reorgBranchPoint = None\<rparr>
       \<lparr>validDupByHeight = [], blockIDMainChainMap = []\<rparr> = Some (Inr db') \<and>
     getValidDupIDForHeight db' 1 = 5 \<and> isBlockIDOnMainBranch db' 2"
proof -
  let ?st = "\<lparr>prevTopStillValid = True, hasNewTop = True, prevTop = Some 1, newTop = Some 2, reorgBranchPoint = None\<rparr>"
  have "sample_hash n \<noteq> EmptyHash" if "n \<noteq> 0" for n
    using that by (simp add: EmptyHash_def sample_hash_def numeral_eq_Suc)
  then have key: "keyed pair_chain" "isInitialized (heap pair_chain 1)" "duplicateID (heap pair_chain 2) = 5"
    by (auto simp: keyed_def pair_chain_def)
  have anc: "anc (tree_of pair_chain) 1 1" "anc (tree_of pair_chain) 1 2" "anc (tree_of pair_chain) 2 2"
    by (simp_all add: pair_anc del: One_nat_def)
  have node: "1 \<in> bt_nodes (tree_of pair_chain)"
    by (simp add: pair_tree(1))
  obtain db' where db': "updateBranchingMaps pair_chain ?st \<lparr>validDupByHeight = [], blockIDMainChainMap = []\<rparr> = Some (Inr db')"
    "\<forall>q. anc (tree_of pair_chain) 1 q \<and> anc (tree_of pair_chain) q 2 \<longrightarrow>
        getValidDupIDForHeight db' (blockHeight (heap pair_chain q)) = duplicateID (heap pair_chain q) \<and>
        isBlockIDOnMainBranch db' (uniqueID (heap pair_chain q))"
    using updateBranchingMaps_correct [OF pair_settled key(1) _ _ node _ key(2) anc(2,1), of ?st "\<lparr>validDupByHeight = [], blockIDMainChainMap = []\<rparr>"]
    unfolding reorg_state.select_convs branch_db.select_convs by (elim exE conjE meta_impE) (simp_all only: if_True simp_thms linorder_lt.map_wf_Nil)
  have "getValidDupIDForHeight db' 1 = 5 \<and> isBlockIDOnMainBranch db' 2"
    using db'(2) [rule_format, of 2] anc(2,3) key(3) pair_simps(8,15) by simp
  then show ?thesis
    using db'(1) by blast
qed

end
