(* ===== verification/Binary_Writer.thy ===== *)
theory Binary_Writer
  imports Binary_Reader
begin

text \<open>
  \<open>BinaryWriter\<close>, the bit fields \<open>BitPacker\<close> and \<open>BitUnpacker\<close> (BinaryData.h), and \<open>PackBits\<close>,
  \<open>UnpackBits\<close> (BtcUtils.h). A writer is the bytes written so far.
\<close>

section \<open>BinaryWriter\<close>

definition put_uint8_t :: "byte \<Rightarrow> bytes \<Rightarrow> bytes" where
  "put_uint8_t val bw = bw @ [val]"

definition put_uint16_t :: "u16 \<Rightarrow> endian \<Rightarrow> bytes \<Rightarrow> bytes" where
  "put_uint16_t val e bw = bw @ bytes_of_int e val"

definition put_uint32_t :: "u32 \<Rightarrow> endian \<Rightarrow> bytes \<Rightarrow> bytes" where
  "put_uint32_t val e bw = bw @ bytes_of_int e val"

definition put_int32_t :: "int \<Rightarrow> endian \<Rightarrow> bytes \<Rightarrow> bytes" where
  "put_int32_t val e bw = bw @ bytes_of_int e (word_of_int val :: u32)"

definition put_uint64_t :: "u64 \<Rightarrow> endian \<Rightarrow> bytes \<Rightarrow> bytes" where
  "put_uint64_t val e bw = bw @ bytes_of_int e val"

text \<open>Result: the number of bytes written, and the writer.\<close>

definition put_var_int :: "u64 \<Rightarrow> bytes \<Rightarrow> byte \<times> bytes" where
  "put_var_int val bw =
     (if val < 0xfd then (1, put_uint8_t (ucast val) bw)
      else if val \<le> 0xffff then
        (3, put_uint16_t (ucast val) ENDIAN_LITTLE (put_uint8_t 0xfd bw))
      else if val \<le> 0xffffffff then
        (5, put_uint32_t (ucast val) ENDIAN_LITTLE (put_uint8_t 0xfe bw))
      else
        (9, put_uint64_t val ENDIAN_LITTLE (put_uint8_t 0xff bw)))"

definition put_BinaryData :: "bytes \<Rightarrow> nat \<Rightarrow> nat \<Rightarrow> bytes \<Rightarrow> bytes res" where
  "put_BinaryData str offset sz bw =
     (if offset = 0 then
        (if sz = 0 then Inr (bw @ str)
         else bind_res (mem_read str 0 sz) (\<lambda>b. Inr (bw @ b)))
      else
        (if sz = 0 then bind_res (mem_read str offset (sz_sub (length str) offset)) (\<lambda>b. Inr (bw @ b))
         else bind_res (mem_read str offset sz) (\<lambda>b. Inr (bw @ b))))"

definition put_BinaryDataRef :: "bytes \<Rightarrow> bytes \<Rightarrow> bytes" where
  "put_BinaryDataRef str bw = bw @ str"

definition put_String :: "bytes \<Rightarrow> bytes \<Rightarrow> bytes" where
  "put_String str bw = bw @ str"

text \<open>The bytes a variable-length integer takes.\<close>

definition var_int_bytes :: "u64 \<Rightarrow> bytes" where
  "var_int_bytes val = snd (put_var_int val [])"

lemma put_var_int_appends: "snd (put_var_int val bw) = bw @ var_int_bytes val"
  by (simp add: var_int_bytes_def put_var_int_def put_uint8_t_def put_uint16_t_def
      put_uint32_t_def put_uint64_t_def)

lemma length_var_int_bytes: "length (var_int_bytes val) = unat (calcVarIntSize val)"
  by (simp add: var_int_bytes_def put_var_int_def put_uint8_t_def put_uint16_t_def
      put_uint32_t_def put_uint64_t_def calcVarIntSize_def)

lemma put_var_int_count: "unat (fst (put_var_int val bw)) = length (var_int_bytes val)"
  by (simp add: length_var_int_bytes put_var_int_def calcVarIntSize_def)

lemma var_int_bytes_ne: "var_int_bytes val \<noteq> []"
  by (simp add: var_int_bytes_def put_var_int_def put_uint8_t_def put_uint16_t_def
      put_uint32_t_def put_uint64_t_def)

lemma ucast_narrow:
  fixes v :: u64
  assumes "v < 2 ^ n" and "n \<le> LENGTH('b)" and "n < 64"
  shows "ucast (ucast v :: 'b::len word) = v"
proof -
  have "take_bit n v = v"
    using assms less_mask_eq [of v n] by (simp add: take_bit_eq_mask)
  then have "\<forall>k. bit v k \<longrightarrow> k < n"
    by (metis bit_take_bit_iff)
  then show ?thesis
    using assms(2) by (intro bit_eqI) (auto simp: bit_simps)
qed

lemma readVarInt_var_int_bytes:
  assumes "rem = length (var_int_bytes val @ ss)"
  shows "readVarInt (var_int_bytes val @ ss) rem = Inr (val, calcVarIntSize val)"
proof -
  note defs = var_int_bytes_def put_var_int_def put_uint8_t_def put_uint16_t_def put_uint32_t_def
    put_uint64_t_def readVarInt_def mem_read_def calcVarIntSize_def bslice_def bytes_of_int_def
  consider "val < 0xfd" | "\<not> val < 0xfd" "val \<le> 0xffff" | "\<not> val \<le> 0xffff" "val \<le> 0xffffffff"
    | "\<not> val \<le> 0xffffffff"
    by fastforce
  then show ?thesis
  proof cases
    case 1
    then have "(ucast (ucast val :: byte) :: u64) = val"
      by (intro ucast_narrow [where n = 8]) (auto intro: less_trans)
    moreover have "(ucast val :: byte) < 0xfd"
      using 1 by (simp add: word_less_nat_alt unsigned_ucast_eq unsigned_take_bit_eq take_bit_nat_eq_self)
    ultimately show ?thesis
      using 1 assms by (simp add: defs)
  next
    case 2
    then have "(ucast (ucast val :: u16) :: u64) = val"
      by (intro ucast_narrow [where n = 16]) (auto simp: word_le_nat_alt word_less_nat_alt)
    then show ?thesis
      using 2 assms by (simp add: defs)
  next
    case 3
    then have "(ucast (ucast val :: u32) :: u64) = val"
      by (intro ucast_narrow [where n = 32]) (auto simp: word_le_nat_alt word_less_nat_alt)
    moreover have "\<not> val < 0xfd"
      using 3 by (auto simp: word_le_nat_alt word_less_nat_alt)
    ultimately show ?thesis
      using 3 assms by (simp add: defs)
  next
    case 4
    then have "\<not> val < 0xfd" "\<not> val \<le> 0xffff"
      by (auto simp: word_le_nat_alt word_less_nat_alt)
    then show ?thesis
      using 4 assms by (simp add: defs)
  qed
qed

interpretation varint: codec var_int_bytes get_var_int "\<lambda>_. True"
proof unfold_locales
  show "get_var_int r = Inr (v, r\<lparr>brr_pos := brr_pos r + length (var_int_bytes v)\<rparr>)"
    if "brr_ok r" "getCurrPtr r = var_int_bytes v @ ss" for r v ss
    using that readVarInt_var_int_bytes [OF refl, of v ss]
    by (simp add: get_var_int_ok length_var_int_bytes)
  show "no_ub (get_var_int r)" if "brr_ok r" for r
    using that readVarInt_no_ub [of "getCurrPtr r"]
    by (cases "readVarInt (getCurrPtr r) (length (getCurrPtr r))") (auto simp: get_var_int_ok)
  show "\<exists>n \<le> length (getCurrPtr r). r' = r\<lparr>brr_pos := brr_pos r + n\<rparr>"
    if "brr_ok r" "get_var_int r = Inr (v, r')" for r v r'
    using that readVarInt_length [of "getCurrPtr r"]
    by (fastforce simp: get_var_int_ok bind_res_eq_Inr)
qed

lemma readVarIntLength_var_int_bytes:
  "readVarIntLength (var_int_bytes val @ ss) = Inr (calcVarIntSize val)"
proof -
  have "(ucast val :: byte) < 0xfd" if "val < 0xfd"
    using that by (simp add: word_less_nat_alt unsigned_ucast_eq take_bit_nat_eq_self)
  then show ?thesis
    by (auto simp: var_int_bytes_def put_var_int_def put_uint8_t_def put_uint16_t_def put_uint32_t_def
        put_uint64_t_def readVarIntLength_def mem_read_def calcVarIntSize_def)
qed

text \<open>
  C11: Variable-length integers: reading what \<open>put_var_int\<close> wrote returns the value and the number of
  bytes it took; the count that \<open>put_var_int\<close> returns, \<open>calcVarIntSize\<close> of the value and
  \<open>readVarIntLength\<close> of the first byte all agree with it.
\<close>

theorem var_int_roundtrip:
  "readVarInt (snd (put_var_int val []) @ rest) (length (snd (put_var_int val []) @ rest)) =
     Inr (val, calcVarIntSize val) \<and>
   readVarIntLength (snd (put_var_int val []) @ rest) = Inr (calcVarIntSize val) \<and>
   unat (fst (put_var_int val [])) = unat (calcVarIntSize val) \<and>
   length (snd (put_var_int val [])) = unat (calcVarIntSize val)"
  using readVarInt_var_int_bytes [OF refl, of val rest] readVarIntLength_var_int_bytes [of val rest]
    put_var_int_count [of val "[]"]
  by (simp add: put_var_int_appends length_var_int_bytes)

section \<open>Records of fields\<close>

text \<open>
  The serialised records of the program are sequences of \<open>put_\<close> calls read back by the matching
  sequence of \<open>get_\<close> calls.
\<close>

datatype field =
    F_uint8 byte
  | F_uint16 endian u16
  | F_uint32 endian u32
  | F_int32 endian int
  | F_uint64 endian u64
  | F_var_int u64
  | F_bytes bytes

datatype field_kind =
    K_uint8
  | K_uint16 endian
  | K_uint32 endian
  | K_int32 endian
  | K_uint64 endian
  | K_var_int
  | K_bytes nat

fun kind_of :: "field \<Rightarrow> field_kind" where
  "kind_of (F_uint8 _) = K_uint8"
| "kind_of (F_uint16 e _) = K_uint16 e"
| "kind_of (F_uint32 e _) = K_uint32 e"
| "kind_of (F_int32 e _) = K_int32 e"
| "kind_of (F_uint64 e _) = K_uint64 e"
| "kind_of (F_var_int _) = K_var_int"
| "kind_of (F_bytes b) = K_bytes (length b)"

fun field_ok :: "field \<Rightarrow> bool" where
  "field_ok (F_int32 _ i) \<longleftrightarrow> - (2 ^ 31) \<le> i \<and> i < 2 ^ 31"
| "field_ok _ \<longleftrightarrow> True"

fun put_field :: "bytes \<Rightarrow> field \<Rightarrow> bytes" where
  "put_field bw (F_uint8 v) = put_uint8_t v bw"
| "put_field bw (F_uint16 e v) = put_uint16_t v e bw"
| "put_field bw (F_uint32 e v) = put_uint32_t v e bw"
| "put_field bw (F_int32 e v) = put_int32_t v e bw"
| "put_field bw (F_uint64 e v) = put_uint64_t v e bw"
| "put_field bw (F_var_int v) = snd (put_var_int v bw)"
| "put_field bw (F_bytes b) = put_BinaryDataRef b bw"

definition put_fields :: "field list \<Rightarrow> bytes \<Rightarrow> bytes" where
  "put_fields fs bw = foldl put_field bw fs"

fun get_field :: "field_kind \<Rightarrow> brr \<Rightarrow> (field \<times> brr) res" where
  "get_field K_uint8 r = bind_res (get_uint8_t r) (\<lambda>(v, r'). Inr (F_uint8 v, r'))"
| "get_field (K_uint16 e) r = bind_res (get_uint16_t e r) (\<lambda>(v, r'). Inr (F_uint16 e v, r'))"
| "get_field (K_uint32 e) r = bind_res (get_uint32_t e r) (\<lambda>(v, r'). Inr (F_uint32 e v, r'))"
| "get_field (K_int32 e) r = bind_res (get_int32_t e r) (\<lambda>(v, r'). Inr (F_int32 e v, r'))"
| "get_field (K_uint64 e) r = bind_res (get_uint64_t e r) (\<lambda>(v, r'). Inr (F_uint64 e v, r'))"
| "get_field K_var_int r = bind_res (get_var_int r) (\<lambda>(v, r'). Inr (F_var_int v, r'))"
| "get_field (K_bytes n) r = bind_res (get_BinaryDataRef n r) (\<lambda>(v, r'). Inr (F_bytes v, r'))"

fun get_fields :: "field_kind list \<Rightarrow> brr \<Rightarrow> (field list \<times> brr) res" where
  "get_fields [] r = Inr ([], r)"
| "get_fields (k # ks) r =
     bind_res (get_field k r) (\<lambda>(f, r'). bind_res (get_fields ks r') (\<lambda>(fs, r''). Inr (f # fs, r'')))"

definition field_bytes :: "field \<Rightarrow> bytes" where
  "field_bytes f = put_field [] f"

lemma put_field_appends: "put_field bw f = bw @ field_bytes f"
  by (cases f) (simp_all add: field_bytes_def put_uint8_t_def put_uint16_t_def put_uint32_t_def
      put_int32_t_def put_uint64_t_def put_var_int_appends put_BinaryDataRef_def)

lemma put_fields_appends: "put_fields fs bw = bw @ concat (map field_bytes fs)"
  by (induction fs arbitrary: bw) (simp_all add: put_fields_def put_field_appends)

lemma get_field_put:
  assumes "brr_ok r" "field_ok f" "getCurrPtr r = field_bytes f @ ss"
  shows "get_field (kind_of f) r = Inr (f, r\<lparr>brr_pos := brr_pos r + length (field_bytes f)\<rparr>)"
  using assms
  by (cases f) (simp_all add: field_bytes_def put_uint8_t_def put_uint16_t_def put_uint32_t_def
      put_int32_t_def put_uint64_t_def put_var_int_appends put_BinaryDataRef_def
      u8.dec_enc u16.dec_enc u32.dec_enc i32.dec_enc u64.dec_enc varint.dec_enc ref.dec_enc)

lemma get_fields_put:
  assumes "brr_ok r" "list_all field_ok fs" "getCurrPtr r = concat (map field_bytes fs) @ ss"
  shows "get_fields (map kind_of fs) r =
     Inr (fs, r\<lparr>brr_pos := brr_pos r + length (concat (map field_bytes fs))\<rparr>)"
  using assms
proof (induction fs arbitrary: r)
  case (Cons f fs)
  let ?r = "r\<lparr>brr_pos := brr_pos r + length (field_bytes f)\<rparr>"
  have "get_field (kind_of f) r = Inr (f, ?r)"
    using Cons.prems by (intro get_field_put [where ss = "concat (map field_bytes fs) @ ss"]) auto
  moreover have "brr_ok ?r" "getCurrPtr ?r = concat (map field_bytes fs) @ ss"
    using Cons.prems by (auto intro!: brr_ok_forward)
  then have "get_fields (map kind_of fs) ?r =
      Inr (fs, ?r\<lparr>brr_pos := brr_pos ?r + length (concat (map field_bytes fs))\<rparr>)"
    using Cons.prems by (intro Cons.IH) auto
  ultimately show ?case
    by (simp add: add.assoc)
qed simp



section \<open>BitPacker and BitUnpacker\<close>

text \<open>
  A field that does not fit makes the shift amount wrap around, and a shift by the width of the (promoted)
  type or more is undefined.
\<close>

record (overloaded) ('a::len) bit_packer =
  bp_int :: "'a word"
  bp_used :: nat

definition bit_packer_reset :: "'a::len bit_packer" where
  "bit_packer_reset = \<lparr>bp_int = 0, bp_used = 0\<rparr>"

definition putBits :: "'a::len word \<Rightarrow> nat \<Rightarrow> 'a bit_packer \<Rightarrow> 'a bit_packer res" where
  "putBits val bitWidth bp =
     (if bp_used bp = 0 \<and> bitWidth = LENGTH('a) then
        Inr \<lparr>bp_int = val, bp_used = LENGTH('a)\<rparr>
      else if bp_used bp + bitWidth > LENGTH('a) \<or> bitWidth \<ge> 64 then Inl Undefined_Behaviour
      else
        let shiftAmt = LENGTH('a) - (bp_used bp + bitWidth)
        in if shiftAmt \<ge> max 32 LENGTH('a) then Inl Undefined_Behaviour
           else Inr \<lparr>bp_int = bp_int bp OR push_bit shiftAmt (val AND mask bitWidth),
                     bp_used = bp_used bp + bitWidth\<rparr>)"

definition putBit :: "bool \<Rightarrow> 'a::len bit_packer \<Rightarrow> 'a bit_packer res" where
  "putBit val bp = putBits (if val then 1 else 0) 1 bp"

definition bp_getBinaryData :: "'a::len bit_packer \<Rightarrow> bytes" where
  "bp_getBinaryData bp = IntToStrBE (bp_int bp)"

record (overloaded) ('a::len) bit_unpacker =
  bu_int :: "'a word"
  bu_read :: nat

definition bu_setValue :: "'a::len word \<Rightarrow> 'a bit_unpacker" where
  "bu_setValue val = \<lparr>bu_int = val, bu_read = 0\<rparr>"

definition bu_from_reader :: "brr \<Rightarrow> ('a::len bit_unpacker \<times> brr) res" where
  "bu_from_reader r =
     bind_res (get_BinaryData (LENGTH('a) div 8) r) (\<lambda>(b, r').
       Inr (bu_setValue (StrToIntBE b), r'))"

definition getBits :: "nat \<Rightarrow> 'a::len bit_unpacker \<Rightarrow> ('a word \<times> 'a bit_unpacker) res" where
  "getBits bitWidth bu =
     (if bu_read bu = 0 \<and> bitWidth = LENGTH('a) then Inr (bu_int bu, bu\<lparr>bu_read := bitWidth\<rparr>)
      else if bu_read bu + bitWidth > LENGTH('a) \<or> bitWidth \<ge> 64 then Inl Undefined_Behaviour
      else
        let shiftAmt = LENGTH('a) - (bu_read bu + bitWidth)
        in if shiftAmt \<ge> max 32 LENGTH('a) then Inl Undefined_Behaviour
           else Inr (drop_bit shiftAmt (bu_int bu) AND mask bitWidth,
                     bu\<lparr>bu_read := bu_read bu + bitWidth\<rparr>))"

definition getBit :: "'a::len bit_unpacker \<Rightarrow> (bool \<times> 'a bit_unpacker) res" where
  "getBit bu = bind_res (getBits 1 bu) (\<lambda>(v, bu'). Inr (v > 0, bu'))"

fun putBits_all :: "('a::len word \<times> nat) list \<Rightarrow> 'a bit_packer \<Rightarrow> 'a bit_packer res" where
  "putBits_all [] bp = Inr bp"
| "putBits_all ((v, w) # fs) bp = bind_res (putBits v w bp) (putBits_all fs)"

fun getBits_all :: "nat list \<Rightarrow> 'a::len bit_unpacker \<Rightarrow> ('a word list \<times> 'a bit_unpacker) res" where
  "getBits_all [] bu = Inr ([], bu)"
| "getBits_all (w # ws) bu =
     bind_res (getBits w bu) (\<lambda>(v, bu'). bind_res (getBits_all ws bu') (\<lambda>(vs, bu''). Inr (v # vs, bu'')))"

definition bp_ok :: "'a::len bit_packer \<Rightarrow> bool" where
  "bp_ok bp \<longleftrightarrow> bp_used bp \<le> LENGTH('a) \<and> (\<forall>i < LENGTH('a) - bp_used bp. \<not> bit (bp_int bp) i)"

text \<open>The bits a field of width \<open>w\<close> leaves, and what it keeps of the earlier ones.\<close>

lemma putBits_ok:
  fixes bp :: "'a::len bit_packer"
  assumes ok: "bp_ok bp" and w: "0 < w" and "bp_used bp + w \<le> LENGTH('a)" and "LENGTH('a) \<le> 64"
  shows "\<exists>bp'. putBits v w bp = Inr bp' \<and> bp_ok bp' \<and> bp_used bp' = bp_used bp + w \<and>
     (\<forall>i < LENGTH('a). bit (bp_int bp') i \<longleftrightarrow>
        (if i \<ge> LENGTH('a) - bp_used bp then bit (bp_int bp) i
         else if i \<ge> LENGTH('a) - (bp_used bp + w) then bit v (i - (LENGTH('a) - (bp_used bp + w)))
         else False))"
proof (cases "bp_used bp = 0 \<and> w = LENGTH('a)")
  case True
  then show ?thesis
    by (simp add: putBits_def bp_ok_def)
next
  case False
  then have "w < 64"
    using assms by auto
  then show ?thesis
    using False assms by (auto simp: putBits_def bp_ok_def Let_def bit_simps)
qed

lemma putBits_all_ok:
  fixes bp :: "'a::len bit_packer"
  assumes "bp_ok bp" "\<forall>(v, w) \<in> set fs. 0 < w" "bp_used bp + sum_list (map snd fs) \<le> LENGTH('a)" "LENGTH('a) \<le> 64"
  shows "\<exists>bp'. putBits_all fs bp = Inr bp' \<and> bp_used bp' = bp_used bp + sum_list (map snd fs) \<and>
     (\<forall>i < LENGTH('a). i \<ge> LENGTH('a) - bp_used bp \<longrightarrow> bit (bp_int bp') i = bit (bp_int bp) i)"
  using assms
proof (induction fs arbitrary: bp)
  case (Cons f fs)
  obtain v w where f: "f = (v, w)" by force
  obtain bp1 where bp1: "putBits v w bp = Inr bp1" "bp_ok bp1" "bp_used bp1 = bp_used bp + w"
    "\<forall>i < LENGTH('a). i \<ge> LENGTH('a) - bp_used bp \<longrightarrow> bit (bp_int bp1) i = bit (bp_int bp) i"
    using putBits_ok [of bp w v] Cons.prems by (auto simp: f)
  obtain bp2 where "putBits_all fs bp1 = Inr bp2" "bp_used bp2 = bp_used bp1 + sum_list (map snd fs)"
    "\<forall>i < LENGTH('a). i \<ge> LENGTH('a) - bp_used bp1 \<longrightarrow> bit (bp_int bp2) i = bit (bp_int bp1) i"
    using Cons.IH [of bp1] Cons.prems bp1 by (auto simp: f)
  then show ?case
    using bp1 by (auto simp: f)
qed simp

lemma getBits_field:
  fixes bu :: "'a::len bit_unpacker"
  assumes w: "0 < w" "bu_read bu + w \<le> LENGTH('a)" "LENGTH('a) \<le> 64"
    and bits: "\<And>i. i < LENGTH('a) \<Longrightarrow> LENGTH('a) - (bu_read bu + w) \<le> i \<Longrightarrow> i < LENGTH('a) - bu_read bu \<Longrightarrow>
      bit (bu_int bu) i \<longleftrightarrow> bit v (i - (LENGTH('a) - (bu_read bu + w)))"
  shows "getBits w bu = Inr (v AND mask w, bu\<lparr>bu_read := bu_read bu + w\<rparr>)"
proof (cases "bu_read bu = 0 \<and> w = LENGTH('a)")
  case True
  then have "bu_int bu = v"
    using bits by (intro bit_word_eqI) auto
  then show ?thesis
    using True by (simp add: getBits_def)
next
  case False
  let ?s = "LENGTH('a) - (bu_read bu + w)"
  have "drop_bit ?s (bu_int bu) AND mask w = v AND mask w"
    using w bits by (intro bit_word_eqI) (auto simp: bit_simps)
  then show ?thesis
    using False w by (auto simp: getBits_def Let_def)
qed

lemma getBits_of_putBits_all:
  fixes bp :: "'a::len bit_packer"
  assumes "bp_ok bp" "\<forall>(v, w) \<in> set fs. 0 < w" "bp_used bp + sum_list (map snd fs) \<le> LENGTH('a)"
    "LENGTH('a) \<le> 64" "putBits_all fs bp = Inr bp'"
    "bu_int bu = bp_int bp'" "bu_read bu = bp_used bp"
  shows "\<exists>bu'. getBits_all (map snd fs) bu = Inr (map (\<lambda>(v, w). v AND mask w) fs, bu')"
  using assms
proof (induction fs arbitrary: bp bu)
  case (Cons f fs)
  obtain v w where f: "f = (v, w)" by force
  obtain bp1 where bp1: "putBits v w bp = Inr bp1" "bp_ok bp1" "bp_used bp1 = bp_used bp + w"
    "\<forall>i < LENGTH('a). bit (bp_int bp1) i \<longleftrightarrow>
        (if i \<ge> LENGTH('a) - bp_used bp then bit (bp_int bp) i
         else if i \<ge> LENGTH('a) - (bp_used bp + w) then bit v (i - (LENGTH('a) - (bp_used bp + w)))
         else False)"
    using putBits_ok [of bp w v] Cons.prems by (auto simp: f)
  have all: "putBits_all fs bp1 = Inr bp'"
    using Cons.prems bp1 by (simp add: f)
  then have keep: "\<forall>i < LENGTH('a). i \<ge> LENGTH('a) - bp_used bp1 \<longrightarrow> bit (bp_int bp') i = bit (bp_int bp1) i"
    using putBits_all_ok [of bp1 fs] Cons.prems bp1 by (auto simp: f)
  let ?bu = "bu\<lparr>bu_read := bu_read bu + w\<rparr>"
  have "getBits w bu = Inr (v AND mask w, ?bu)"
    using Cons.prems bp1(3,4) keep by (intro getBits_field) (auto simp: f)
  moreover obtain bu' where "getBits_all (map snd fs) ?bu = Inr (map (\<lambda>(v, w). v AND mask w) fs, bu')"
    using Cons.IH [of bp1 ?bu] Cons.prems bp1 all by (auto simp: f)
  ultimately show ?case
    by (simp add: f)
qed simp


definition put_BitPacker :: "'a::len bit_packer \<Rightarrow> bytes \<Rightarrow> bytes" where
  "put_BitPacker bp bw = bw @ bp_getBinaryData bp"

text \<open>
  C12: Fields packed into a \<open>BitPacker\<close> of at most 64 bits, written with \<open>put_BitPacker\<close> and read back
  through a \<open>BitUnpacker\<close> on a reader, come out as the values cut to their widths; no shift of either
  class is out of range.
\<close>

theorem bit_fields_roundtrip:
  assumes "8 dvd LENGTH('a::len)" "LENGTH('a) \<le> 64"
    and "\<forall>(v, w) \<in> set fs. 0 < w" "sum_list (map snd fs) \<le> LENGTH('a)"
  shows "\<exists>bp (bu :: 'a bit_unpacker) r' bu'. putBits_all (fs :: ('a word \<times> nat) list) bit_packer_reset = Inr bp \<and>
     bu_from_reader (setNewData (put_BitPacker bp [])) = Inr (bu, r') \<and> isEndOfStream r' \<and>
     getBits_all (map snd fs) bu = Inr (map (\<lambda>(v, w). v AND mask w) fs, bu')"
proof -
  have ok: "bp_ok (bit_packer_reset :: 'a bit_packer)" "bp_used (bit_packer_reset :: 'a bit_packer) = 0"
    by (simp_all add: bp_ok_def bit_packer_reset_def)
  obtain bp where bp: "putBits_all fs bit_packer_reset = Inr bp"
    using putBits_all_ok [of bit_packer_reset fs] assms ok by auto
  obtain bu' where "getBits_all (map snd fs) (bu_setValue (bp_int bp)) = Inr (map (\<lambda>(v, w). v AND mask w) fs, bu')"
    using getBits_of_putBits_all [of bit_packer_reset fs bp "bu_setValue (bp_int bp)"] assms ok bp
    by (auto simp: bu_setValue_def)
  moreover have "LENGTH('a) div 8 \<le> 8"
    using assms(2) by simp
  then have "\<exists>r'. bu_from_reader (setNewData (put_BitPacker bp [])) = Inr (bu_setValue (bp_int bp), r') \<and> isEndOfStream r'"
    using assms(1) by (simp add: bu_from_reader_def get_BinaryData_def checked_read_def mem_read_def
        getSizeRemaining_def setNewData_def put_BitPacker_def bp_getBinaryData_def isEndOfStream_def)
  ultimately show ?thesis
    using bp by blast
qed

theorem bit_fields_roundtrip_witness:
  "\<exists>bp (bu :: 16 bit_unpacker) r' bu'. putBits_all [(5 :: u16, 4), (0x1ff, 8), (1, 1)] bit_packer_reset = Inr bp \<and>
     bu_from_reader (setNewData (put_BitPacker bp [])) = Inr (bu, r') \<and> isEndOfStream r' \<and>
     getBits_all [4, 8, 1] bu = Inr ([5, 0xff, 1], bu')"
  using bit_fields_roundtrip [of "[(5 :: u16, 4), (0x1ff, 8), (1, 1)]"]
  by (simp add: mask_eq_exp_minus_1)

section \<open>PackBits and UnpackBits\<close>

fun packBits_loop :: "bool list \<Rightarrow> nat \<Rightarrow> bytes \<Rightarrow> bytes" where
  "packBits_loop [] i out = out"
| "packBits_loop (b # bs) i out =
     packBits_loop bs (i + 1)
       (if b then out[i div 8 := out ! (i div 8) OR push_bit (7 - i mod 8) 1] else out)"

definition PackBits :: "bool list \<Rightarrow> bytes" where
  "PackBits vectBool = packBits_loop vectBool 0 (replicate ((length vectBool + 7) div 8) 0)"

fun unpackBits_loop :: "bytes \<Rightarrow> nat \<Rightarrow> nat \<Rightarrow> bool list res" where
  "unpackBits_loop bits i 0 = Inr []"
| "unpackBits_loop bits i (Suc n) =
     (if i div 8 < length bits then
        bind_res (unpackBits_loop bits (i + 1) n) (\<lambda>out.
          Inr (((bits ! (i div 8)) AND push_bit (7 - i mod 8) 1 > 0) # out))
      else Inl Undefined_Behaviour)"

definition UnpackBits :: "bytes \<Rightarrow> u32 \<Rightarrow> bool list res" where
  "UnpackBits bits nBits = unpackBits_loop bits 0 (unat nBits)"

text \<open>Bit \<open>i\<close> of a packed string, most significant bit first.\<close>

definition packed_bit :: "bytes \<Rightarrow> nat \<Rightarrow> bool" where
  "packed_bit out i \<longleftrightarrow> bit (out ! (i div 8)) (7 - i mod 8)"

lemma length_packBits_loop [simp]: "length (packBits_loop bs i out) = length out"
  by (induction bs i out rule: packBits_loop.induct) auto

lemma and_bit_pos: "(0 < x AND 2 ^ k) = bit (x :: byte) k"
  by (simp add: word_gt_0 and_exp_eq_0_iff_not_bit)

lemma packed_bit_set:
  assumes "i div 8 < length out"
  shows "packed_bit (out[i div 8 := out ! (i div 8) OR push_bit (7 - i mod 8) 1]) j \<longleftrightarrow> (j = i \<or> packed_bit out j)"
proof (cases "j div 8 = i div 8")
  case True
  have "7 - j mod 8 = 7 - i mod 8 \<longleftrightarrow> j mod 8 = i mod 8"
    using mod_less_divisor [of 8 j] mod_less_divisor [of 8 i] by linarith
  also have "\<dots> \<longleftrightarrow> j = i"
    using True by (metis div_mult_mod_eq)
  finally have "7 - j mod 8 = 7 - i mod 8 \<longleftrightarrow> j = i" .
  then show ?thesis
    using True assms by (auto simp: packed_bit_def bit_simps)
next
  case False
  then show ?thesis
    by (auto simp: packed_bit_def)
qed

lemma packBits_loop_bits:
  assumes "\<forall>j. i \<le> j \<longrightarrow> j < 8 * length out \<longrightarrow> \<not> packed_bit out j" "i + length bs \<le> 8 * length out" "j < 8 * length out"
  shows "packed_bit (packBits_loop bs i out) j \<longleftrightarrow>
     (if i \<le> j \<and> j < i + length bs then bs ! (j - i) else packed_bit out j)"
  using assms
proof (induction bs i out rule: packBits_loop.induct)
  case (2 b bs i out)
  have i: "i div 8 < length out"
    using 2(3) by auto
  let ?out = "if b then out[i div 8 := out ! (i div 8) OR push_bit (7 - i mod 8) 1] else out"
  have bit: "packed_bit ?out k \<longleftrightarrow> (b \<and> k = i \<or> packed_bit out k)" for k
    using packed_bit_set [OF i] by auto
  have IH: "packed_bit (packBits_loop bs (i + 1) ?out) j \<longleftrightarrow>
     (if i + 1 \<le> j \<and> j < i + 1 + length bs then bs ! (j - (i + 1)) else packed_bit ?out j)"
    using 2(2-) by (intro 2(1)) (auto simp: bit)
  show ?case
    unfolding packBits_loop.simps IH bit using 2(2-) by (auto simp: nth_Cons')
qed auto

lemma unpackBits_loop_bits:
  "i + n \<le> 8 * length bits \<Longrightarrow> unpackBits_loop bits i n = Inr (map (packed_bit bits) [i ..< i + n])"
proof (induction bits i n rule: unpackBits_loop.induct)
  case (2 bits i n)
  then have "i div 8 < length bits" by auto
  then show ?case
    using 2 by (simp add: packed_bit_def and_bit_pos upt_conv_Cons del: upt_Suc)
qed simp

text \<open>Unpacking a packed bit list returns it, for every list whose length fits the \<open>uint32_t\<close> counter.\<close>

lemma UnpackBits_PackBits:
  assumes "length vectBool < 2 ^ 32"
  shows "UnpackBits (PackBits vectBool) (of_nat (length vectBool)) = Inr vectBool"
proof -
  let ?n = "length vectBool" and ?out = "replicate ((length vectBool + 7) div 8) (0 :: byte)"
  have n: "?n \<le> 8 * length ?out" by simp
  have zero: "\<not> packed_bit ?out j" if "j < 8 * length ?out" for j
    using that by (simp add: packed_bit_def)
  have "packed_bit (PackBits vectBool) j = vectBool ! j" if "j < ?n" for j
    using packBits_loop_bits [of 0 ?out vectBool j] zero n that by (simp add: PackBits_def)
  then have "map (packed_bit (PackBits vectBool)) [0 ..< ?n] = vectBool"
    by (intro nth_equalityI) auto
  moreover have "unpackBits_loop (PackBits vectBool) 0 ?n = Inr (map (packed_bit (PackBits vectBool)) [0 ..< ?n])"
    using n unpackBits_loop_bits [of 0 ?n "PackBits vectBool"] by (simp add: PackBits_def)
  ultimately show ?thesis
    using assms by (simp add: UnpackBits_def unat_of_nat)
qed

end
