(* ===== verification/Tx_Layout.thy ===== *)
theory Tx_Layout
  imports Binary_Writer
begin

text \<open>
  The layout of raw transactions (BtcUtils.h): the functions that measure inputs, outputs, witnesses
  and whole transactions without copying them. Lengths are accumulated in \<open>uint32_t\<close>, so the sums
  wrap. The argument is the memory behind the pointer; its length is the \<open>size\<close> the callers pass.
\<close>

section \<open>Inputs, outputs and witnesses\<close>

definition TxInCalcLength :: "bytes \<Rightarrow> nat res" where
  "TxInCalcLength ptr =
     (if length ptr < 37 then Inl (Block_Deserializing '''')
      else bind_res (readVarInt (drop 36 ptr) (length ptr - 36)) (\<lambda>(v, viLen).
        let scrLen = (ucast v :: u32) in Inr (unat (36 + viLen + scrLen + 4))))"

definition TxOutCalcLength :: "bytes \<Rightarrow> nat res" where
  "TxOutCalcLength ptr =
     (if length ptr < 9 then Inl (Block_Deserializing '''')
      else bind_res (readVarInt (drop 8 ptr) (length ptr - 8)) (\<lambda>(v, viLen).
        let scrLen = (ucast v :: u32) in Inr (unat (8 + viLen + scrLen))))"

fun witness_loop :: "nat \<Rightarrow> bytes \<Rightarrow> u32 \<Rightarrow> u32 res" where
  "witness_loop 0 ptr witLen = Inr witLen"
| "witness_loop (Suc k) ptr witLen =
     (if sz_sub (length ptr) (unat witLen) < 1 then Inl (Block_Deserializing '''')
      else bind_res (readVarInt (drop (unat witLen) ptr) (sz_sub (length ptr) (unat witLen))) (\<lambda>(v, viLen).
        let witLen' = witLen + (ucast v :: u32) + viLen
        in if unat witLen' > length ptr then Inl (Block_Deserializing '''')
           else witness_loop k ptr witLen'))"

definition TxWitnessCalcLength :: "bytes \<Rightarrow> nat res" where
  "TxWitnessCalcLength ptr =
     (if length ptr < 1 then Inl (Block_Deserializing '''')
      else bind_res (readVarInt ptr (length ptr)) (\<lambda>(v, viStackLen).
        let stackLen = (ucast v :: u32)
        in bind_res (witness_loop (unat stackLen) ptr (0 + viStackLen)) (\<lambda>w. Inr (unat w))))"

section \<open>Transactions\<close>

text \<open>
  Leaping over a list of items, recording where each starts. The vector of offsets has \<open>n + 1\<close> slots,
  a \<open>uint32_t\<close> sum: for the largest \<open>n\<close> it is empty and the first write is out of bounds.
\<close>

fun leap_loop :: "(bytes \<Rightarrow> nat res) \<Rightarrow> nat \<Rightarrow> brr \<Rightarrow> (nat list \<times> brr) res" where
  "leap_loop calc 0 r = Inr ([], r)"
| "leap_loop calc (Suc k) r =
     bind_res (calc (getCurrPtr r)) (\<lambda>n.
       bind_res (advance n r) (\<lambda>r'.
         bind_res (leap_loop calc k r') (\<lambda>(offs, r''). Inr (brr_pos r # offs, r''))))"

definition leap :: "(bytes \<Rightarrow> nat res) \<Rightarrow> bool \<Rightarrow> u32 \<Rightarrow> brr \<Rightarrow> (nat list \<times> brr) res" where
  "leap calc track n r =
     (if track \<and> n + 1 = 0 then Inl Undefined_Behaviour
      else bind_res (leap_loop calc (unat n) r) (\<lambda>(offs, r').
        Inr (if track then offs @ [brr_pos r'] else [], r')))"

text \<open>\<open>TxInCalcLength\<close> with a vector of offsets, for transactions without the witness marker.\<close>

definition TxInCalcLength_offsets :: "bytes \<Rightarrow> bool \<Rightarrow> nat list res" where
  "TxInCalcLength_offsets ptr offsetsIn =
     (let r = setNewData ptr in
      if getSizeRemaining r < 4 then Inl (Block_Deserializing '''')
      else bind_res (advance 4 r) (\<lambda>r1.
        bind_res (get_var_int r1) (\<lambda>(v, r2).
          let nIn = (ucast v :: u32)
          in if offsetsIn then bind_res (leap TxInCalcLength True nIn r2) (\<lambda>(offs, r3). Inr offs)
             else Inr [])))"

record tx_offsets =
  off_size :: nat
  off_in :: "nat list"
  off_out :: "nat list"
  off_witness :: "nat list"

text \<open>The marker is read through a \<open>uint16_t\<close> pointer, with no check that two bytes are left.\<close>

definition skip_marker :: "brr \<Rightarrow> (bool \<times> brr) res" where
  "skip_marker r =
     bind_res (mem_read (getCurrPtr r) 0 2) (\<lambda>m.
       if (StrToIntLE m :: u16) = 0x0100
       then bind_res (advance 2 r) (\<lambda>r'. Inr (True, r'))
       else Inr (False, r))"

definition leap_witnesses :: "bool \<Rightarrow> bool \<Rightarrow> u32 \<Rightarrow> brr \<Rightarrow> (nat list \<times> brr) res" where
  "leap_witnesses usesWitness track nIn r =
     (if usesWitness then leap TxWitnessCalcLength track nIn r
      else Inr (if track then [brr_pos r] else [], r))"

definition TxCalcLength :: "bytes \<Rightarrow> bool \<Rightarrow> bool \<Rightarrow> bool \<Rightarrow> tx_offsets res" where
  "TxCalcLength ptr offsetsIn offsetsOut offsetsWitness =
     (let r = setNewData ptr in
      if getSizeRemaining r < 4 then Inl (Block_Deserializing '''')
      else bind_res (advance 4 r) (\<lambda>r1.
        bind_res (skip_marker r1) (\<lambda>(usesWitness, r2).
        bind_res (get_var_int r2) (\<lambda>(vIn, r3).
          let nIn = (ucast vIn :: u32) in
        bind_res (leap TxInCalcLength offsetsIn nIn r3) (\<lambda>(offsIn, r4).
        bind_res (get_var_int r4) (\<lambda>(vOut, r5).
          let nOut = (ucast vOut :: u32) in
        bind_res (leap TxOutCalcLength offsetsOut nOut r5) (\<lambda>(offsOut, r6).
        bind_res (leap_witnesses usesWitness offsetsWitness nIn r6) (\<lambda>(offsWit, r7).
        bind_res (advance 4 r7) (\<lambda>r8.
          Inr \<lparr>off_size = brr_pos r8, off_in = offsIn, off_out = offsOut, off_witness = offsWit\<rparr>)))))))))"

text \<open>
  A stored transaction may be \<open>fragged\<close>: its outputs are kept elsewhere, and all output offsets are the
  position behind the inputs. Then \<open>offsetsOut\<close> is used without a test for null.
\<close>

definition StoredTxCalcLength :: "bytes \<Rightarrow> bool \<Rightarrow> bool \<Rightarrow> bool \<Rightarrow> bool \<Rightarrow> tx_offsets res" where
  "StoredTxCalcLength ptr fragged offsetsIn offsetsOut offsetsWitness =
     bind_res (advance 4 (setNewData ptr)) (\<lambda>r1.
        bind_res (skip_marker r1) (\<lambda>(usesWitness, r2).
        bind_res (get_var_int r2) (\<lambda>(vIn, r3).
          let nIn = (ucast vIn :: u32) in
        bind_res (leap TxInCalcLength offsetsIn nIn r3) (\<lambda>(offsIn, r4).
        bind_res (get_var_int r4) (\<lambda>(vOut, r5).
          let nOut = (ucast vOut :: u32) in
        bind_res
          (if fragged then
             (if \<not> offsetsOut then Inl Undefined_Behaviour
              else Inr (replicate (unat (nOut + 1)) (brr_pos r5), r5))
           else leap TxOutCalcLength offsetsOut nOut r5) (\<lambda>(offsOut, r6).
        bind_res (leap_witnesses usesWitness offsetsWitness nIn r6) (\<lambda>(offsWit, r7).
        bind_res (advance 4 r7) (\<lambda>r8.
          Inr \<lparr>off_size = brr_pos r8, off_in = offsIn, off_out = offsOut, off_witness = offsWit\<rparr>))))))))"

section \<open>Memory safety\<close>

lemma TxInCalcLength_no_ub: "no_ub (TxInCalcLength ptr)"
  using readVarInt_no_ub [of "drop 36 ptr"]
  by (cases "readVarInt (drop 36 ptr) (length ptr - 36)") (auto simp: TxInCalcLength_def Let_def)

lemma TxOutCalcLength_no_ub: "no_ub (TxOutCalcLength ptr)"
  using readVarInt_no_ub [of "drop 8 ptr"]
  by (cases "readVarInt (drop 8 ptr) (length ptr - 8)") (auto simp: TxOutCalcLength_def Let_def)

text \<open>The witness loop stays inside the buffer: its position is checked before every read.\<close>

lemma witness_loop_no_ub:
  assumes "length ptr < size_t_mod"
  shows "unat w \<le> length ptr \<Longrightarrow> no_ub (witness_loop k ptr w) \<and>
    (\<forall>w'. witness_loop k ptr w = Inr w' \<longrightarrow> unat w' \<le> length ptr)"
proof (induction k arbitrary: w)
  case (Suc k)
  have rem: "sz_sub (length ptr) (unat w) = length (drop (unat w) ptr)"
    using Suc.prems assms by simp
  show ?case
  proof (cases "readVarInt (drop (unat w) ptr) (length (drop (unat w) ptr))")
    case (Inl e)
    then show ?thesis
      using readVarInt_no_ub [of "drop (unat w) ptr"] by (simp add: rem)
  next
    case (Inr p)
    show ?thesis
      using Inr Suc.IH [of "w + ucast (fst p) + snd p"] by (cases p) (simp add: rem Let_def not_less)
  qed
qed simp

lemma TxWitnessCalcLength_no_ub:
  assumes "length ptr < size_t_mod"
  shows "no_ub (TxWitnessCalcLength ptr)"
proof (cases "readVarInt ptr (length ptr)")
  case (Inl e)
  then show ?thesis
    using readVarInt_no_ub [of ptr] by (simp add: TxWitnessCalcLength_def)
next
  case (Inr p)
  obtain v l where "p = (v, l)"
    by fastforce
  then show ?thesis
    using Inr readVarInt_length [of ptr v l] witness_loop_no_ub [OF assms, of l "unat (ucast v :: u32)"]
    by (auto simp: TxWitnessCalcLength_def Let_def intro!: no_ub_bind)
qed

definition safe_calc :: "(bytes \<Rightarrow> nat res) \<Rightarrow> bool" where
  "safe_calc calc \<longleftrightarrow> (\<forall>ptr. length ptr < size_t_mod \<longrightarrow> no_ub (calc ptr))"

lemma safe_calcs: "safe_calc TxInCalcLength" "safe_calc TxOutCalcLength" "safe_calc TxWitnessCalcLength"
  by (simp_all add: safe_calc_def TxInCalcLength_no_ub TxOutCalcLength_no_ub TxWitnessCalcLength_no_ub)

lemma leap_loop_ok:
  assumes "safe_calc calc"
  shows "brr_ok r \<Longrightarrow> no_ub (leap_loop calc k r) \<and>
    (\<forall>offs r'. leap_loop calc k r = Inr (offs, r') \<longrightarrow> length offs = k \<and> brr_data r' = brr_data r \<and> brr_ok r' \<and> brr_pos r \<le> brr_pos r')"
proof (induction k arbitrary: r)
  case (Suc k)
  have "length (getCurrPtr r) < size_t_mod"
    using Suc.prems by (auto simp: brr_ok_def getCurrPtr_def)
  then have safe: "no_ub (calc (getCurrPtr r))"
    using assms by (simp add: safe_calc_def)
  show ?case
  proof (cases "calc (getCurrPtr r)")
    case (Inr n)
    let ?r = "r\<lparr>brr_pos := brr_pos r + n\<rparr>"
    show ?thesis
    proof (cases "n \<le> length (getCurrPtr r)")
      case True
      have step: "leap_loop calc (Suc k) r = bind_res (leap_loop calc k ?r) (\<lambda>(offs, r''). Inr (brr_pos r # offs, r''))"
        using Inr True Suc.prems by (simp add: advance_ok)
      show ?thesis
        using Suc.IH [OF brr_ok_forward [OF Suc.prems True]] unfolding step
        by (cases "leap_loop calc k ?r") (fastforce split: prod.splits)+
    qed (use Inr Suc.prems in \<open>simp add: advance_ok\<close>)
  qed (use safe in simp)
qed simp

lemma leap_ok:
  assumes "safe_calc calc" and "brr_ok r"
  shows "\<not> (track \<and> n + 1 = 0) \<Longrightarrow> no_ub (leap calc track n r)"
    "leap calc track n r = Inr (offs, r') \<Longrightarrow> brr_data r' = brr_data r \<and> brr_ok r' \<and> brr_pos r \<le> brr_pos r'"
proof -
  have e: "(\<exists>e. leap_loop calc (unat n) r = Inl e \<and> e \<noteq> Undefined_Behaviour) \<or>
      (\<exists>offs0 r0. leap_loop calc (unat n) r = Inr (offs0, r0) \<and> brr_data r0 = brr_data r \<and> brr_ok r0 \<and> brr_pos r \<le> brr_pos r0)"
  proof (cases "leap_loop calc (unat n) r")
    case (Inl e)
    then show ?thesis
      using leap_loop_ok [where k = "unat n", OF assms] by simp
  next
    case (Inr p)
    then show ?thesis
      using leap_loop_ok [where k = "unat n", OF assms] by (cases p) simp
  qed
  show "no_ub (leap calc track n r)" if "\<not> (track \<and> n + 1 = 0)"
    unfolding leap_def if_not_P [OF that] using e by (elim disjE exE conjE) simp_all
  show "brr_data r' = brr_data r \<and> brr_ok r' \<and> brr_pos r \<le> brr_pos r'" if run: "leap calc track n r = Inr (offs, r')"
  proof (cases "track \<and> n + 1 = 0")
    case False
    show ?thesis
      using run e unfolding leap_def if_not_P [OF False] by (elim disjE exE conjE) simp_all
  next
    case True
    then show ?thesis
      using run unfolding leap_def by (simp only: if_P) simp
  qed
qed

lemma get_var_int_forward:
  "brr_ok r \<Longrightarrow> get_var_int r = Inr (v, r') \<Longrightarrow> brr_ok r' \<and> brr_data r' = brr_data r \<and> brr_pos r \<le> brr_pos r'"
  using varint.dec_step [of r v r'] varint.dec_ok [of r v r'] by auto

lemma advance_forward:
  "brr_ok r \<Longrightarrow> advance n r = Inr r' \<Longrightarrow> brr_ok r' \<and> brr_data r' = brr_data r \<and> brr_pos r' = brr_pos r + n"
  by (auto simp: advance_ok split: if_splits)

lemma advance_no_ub: "no_ub (advance n r)"
  by (simp add: advance_def)

lemma skip_marker_ok:
  assumes "brr_ok r"
  shows "2 \<le> length (getCurrPtr r) \<Longrightarrow> no_ub (skip_marker r)"
    "skip_marker r = Inr (b, r') \<Longrightarrow> brr_ok r' \<and> brr_data r' = brr_data r \<and> brr_pos r \<le> brr_pos r'"
proof -
  show "no_ub (skip_marker r)" if "2 \<le> length (getCurrPtr r)"
    using that by (simp add: skip_marker_def mem_read_def advance_no_ub no_ub_bind)
  show "brr_ok r' \<and> brr_data r' = brr_data r \<and> brr_pos r \<le> brr_pos r'" if "skip_marker r = Inr (b, r')"
  proof -
    obtain m where "mem_read (getCurrPtr r) 0 2 = Inr m"
      using \<open>skip_marker r = Inr (b, r')\<close> by (auto simp: skip_marker_def bind_res_eq_Inr)
    then have "advance 2 r = Inr r' \<or> r' = r"
      using that by (cases "advance 2 r") (simp_all add: skip_marker_def split: if_splits)
    then show ?thesis
      using assms advance_forward [OF assms] by auto
  qed
qed

lemma leap_witnesses_ok:
  assumes "brr_ok r"
  shows "\<not> (track \<and> n + 1 = 0) \<Longrightarrow> no_ub (leap_witnesses b track n r)"
    "leap_witnesses b track n r = Inr (offs, r') \<Longrightarrow> brr_data r' = brr_data r \<and> brr_ok r' \<and> brr_pos r \<le> brr_pos r'"
  using leap_ok [OF safe_calcs(3) assms] assms by (auto simp: leap_witnesses_def split: if_splits)

section \<open>The layout itself\<close>

text \<open>A transaction on the wire, and the positions of its parts.\<close>

record wire_in =
  wi_outpoint :: bytes
  wi_script :: bytes
  wi_sequence :: bytes

record wire_out =
  wo_value :: bytes
  wo_script :: bytes

record wire_tx =
  wt_version :: bytes
  wt_segwit :: bool
  wt_ins :: "wire_in list"
  wt_outs :: "wire_out list"
  wt_witnesses :: "bytes list list"
  wt_locktime :: bytes

definition sized :: "bytes \<Rightarrow> bytes" where
  "sized b = var_int_bytes (of_nat (length b)) @ b"

definition txin_bytes :: "wire_in \<Rightarrow> bytes" where
  "txin_bytes i = wi_outpoint i @ sized (wi_script i) @ wi_sequence i"

definition txout_bytes :: "wire_out \<Rightarrow> bytes" where
  "txout_bytes w = wo_value w @ sized (wo_script w)"

definition witness_bytes :: "bytes list \<Rightarrow> bytes" where
  "witness_bytes ws = var_int_bytes (of_nat (length ws)) @ concat (map sized ws)"

definition tx_bytes :: "wire_tx \<Rightarrow> bytes" where
  "tx_bytes t = wt_version t @ (if wt_segwit t then [0, 1] else []) @
     var_int_bytes (of_nat (length (wt_ins t))) @ concat (map txin_bytes (wt_ins t)) @
     var_int_bytes (of_nat (length (wt_outs t))) @ concat (map txout_bytes (wt_outs t)) @
     (if wt_segwit t then concat (map witness_bytes (wt_witnesses t)) else []) @ wt_locktime t"

definition txin_ok :: "wire_in \<Rightarrow> bool" where
  "txin_ok i \<longleftrightarrow> length (wi_outpoint i) = 36 \<and> length (wi_sequence i) = 4 \<and> length (txin_bytes i) < 2 ^ 32"

definition txout_ok :: "wire_out \<Rightarrow> bool" where
  "txout_ok w \<longleftrightarrow> length (wo_value w) = 8 \<and> length (txout_bytes w) < 2 ^ 32"

definition witness_ok :: "bytes list \<Rightarrow> bool" where
  "witness_ok ws \<longleftrightarrow> length (witness_bytes ws) < 2 ^ 32"

text \<open>
  Without the marker a transaction must have an input, or the zero count would be taken for the marker.
\<close>

definition tx_ok :: "wire_tx \<Rightarrow> bool" where
  "tx_ok t \<longleftrightarrow> length (wt_version t) = 4 \<and> length (wt_locktime t) = 4 \<and>
     list_all txin_ok (wt_ins t) \<and> list_all txout_ok (wt_outs t) \<and> list_all witness_ok (wt_witnesses t) \<and>
     length (wt_ins t) < 2 ^ 32 - 1 \<and> length (wt_outs t) < 2 ^ 32 - 1 \<and>
     (if wt_segwit t then length (wt_witnesses t) = length (wt_ins t) else wt_ins t \<noteq> [])"

fun starts :: "nat \<Rightarrow> nat list \<Rightarrow> nat list" where
  "starts p [] = []"
| "starts p (n # ns) = p # starts (p + n) ns"

definition positions :: "nat \<Rightarrow> nat list \<Rightarrow> nat list" where
  "positions p ns = starts p ns @ [p + sum_list ns]"

subsection \<open>Measuring one item\<close>

lemma word_of_length [simp]: "n < 2 ^ 32 \<Longrightarrow> unat (ucast (of_nat n :: u64) :: u32) = n"
  by (simp add: unsigned_ucast_eq unsigned_of_nat take_bit_nat_eq_self)

lemma calcVarIntSize_bounds: "unat (calcVarIntSize v) \<le> 9" "0 < unat (calcVarIntSize v)"
  by (simp_all add: calcVarIntSize_def)

lemma unat_sum32:
  fixes a b c d :: u32
  shows "unat a + unat b + unat c + unat d < 2 ^ 32 \<Longrightarrow> unat (a + b + c + d) = unat a + unat b + unat c + unat d"
    "unat a + unat b + unat c < 2 ^ 32 \<Longrightarrow> unat (a + b + c) = unat a + unat b + unat c"
  by (simp_all add: unat_word_ariths)

lemma TxInCalcLength_enc: "txin_ok i \<Longrightarrow> TxInCalcLength (txin_bytes i @ ss) = Inr (length (txin_bytes i))"
proof -
  assume ok: "txin_ok i"
  let ?n = "length (wi_script i)"
  have len: "length (txin_bytes i) = 36 + unat (calcVarIntSize (of_nat ?n)) + ?n + 4" and small: "length (txin_bytes i) < 2 ^ 32"
    using ok by (simp_all add: txin_ok_def txin_bytes_def sized_def length_var_int_bytes)
  have "drop 36 (txin_bytes i @ ss) = var_int_bytes (of_nat ?n) @ (wi_script i @ wi_sequence i @ ss)"
    using ok by (simp add: txin_ok_def txin_bytes_def sized_def)
  from readVarInt_var_int_bytes [of "length (txin_bytes i @ ss) - 36", of "of_nat ?n" "wi_script i @ wi_sequence i @ ss", folded this]
  have rv: "readVarInt (drop 36 (txin_bytes i @ ss)) (length (txin_bytes i @ ss) - 36) = Inr (of_nat ?n, calcVarIntSize (of_nat ?n))"
    by (simp only: length_drop)
  have "\<not> length (txin_bytes i @ ss) < 37"
    using len by simp
  then have "TxInCalcLength (txin_bytes i @ ss) = Inr (unat (36 + calcVarIntSize (of_nat ?n) + (ucast (of_nat ?n :: u64) :: u32) + 4))"
    using rv by (simp only: TxInCalcLength_def if_False bind_res_Inr prod.case Let_def)
  moreover have "unat (36 + calcVarIntSize (of_nat ?n) + (ucast (of_nat ?n :: u64) :: u32) + 4) = length (txin_bytes i)"
    using small len by (subst unat_sum32(1)) simp_all
  ultimately show ?thesis
    by simp
qed

lemma TxOutCalcLength_enc: "txout_ok w \<Longrightarrow> TxOutCalcLength (txout_bytes w @ ss) = Inr (length (txout_bytes w))"
proof -
  assume ok: "txout_ok w"
  let ?n = "length (wo_script w)"
  have len: "length (txout_bytes w) = 8 + unat (calcVarIntSize (of_nat ?n)) + ?n" and small: "length (txout_bytes w) < 2 ^ 32"
    using ok by (simp_all add: txout_ok_def txout_bytes_def sized_def length_var_int_bytes)
  have "drop 8 (txout_bytes w @ ss) = var_int_bytes (of_nat ?n) @ (wo_script w @ ss)"
    using ok by (simp add: txout_ok_def txout_bytes_def sized_def)
  from readVarInt_var_int_bytes [of "length (txout_bytes w @ ss) - 8", of "of_nat ?n" "wo_script w @ ss", folded this]
  have rv: "readVarInt (drop 8 (txout_bytes w @ ss)) (length (txout_bytes w @ ss) - 8) = Inr (of_nat ?n, calcVarIntSize (of_nat ?n))"
    by (simp only: length_drop)
  have "\<not> length (txout_bytes w @ ss) < 9"
    using len calcVarIntSize_bounds(2) [of "of_nat ?n"] by simp
  then have "TxOutCalcLength (txout_bytes w @ ss) = Inr (unat (8 + calcVarIntSize (of_nat ?n) + (ucast (of_nat ?n :: u64) :: u32)))"
    using rv by (simp only: TxOutCalcLength_def if_False bind_res_Inr prod.case Let_def)
  moreover have "unat (8 + calcVarIntSize (of_nat ?n) + (ucast (of_nat ?n :: u64) :: u32)) = length (txout_bytes w)"
    using small len by (subst unat_sum32(2)) simp_all
  ultimately show ?thesis
    by simp
qed

lemma witness_loop_enc:
  assumes "length ptr < size_t_mod"
  shows "ptr = pre @ concat (map sized ws) @ ss \<Longrightarrow> length pre = unat w \<Longrightarrow> length pre + length (concat (map sized ws)) < 2 ^ 32 \<Longrightarrow>
    \<exists>w'. witness_loop (length ws) ptr w = Inr w' \<and> unat w' = length pre + length (concat (map sized ws))"
proof (induction ws arbitrary: pre w)
  case (Cons x ws)
  let ?v = "of_nat (length x) :: u64"
  let ?w = "w + (ucast ?v :: u32) + calcVarIntSize ?v"
  have sx: "length (sized x) = unat (calcVarIntSize ?v) + length x"
    by (simp add: sized_def length_var_int_bytes)
  have small: "length x < 2 ^ 32" "unat w + length x + unat (calcVarIntSize ?v) < 2 ^ 32"
    using Cons.prems(2,3) sx by simp_all
  have w: "unat ?w = length (pre @ sized x)"
    using unat_sum32(2) [of w "ucast ?v" "calcVarIntSize ?v"] small Cons.prems(2) sx by simp
  have split: "drop (unat w) ptr = var_int_bytes ?v @ (x @ concat (map sized ws) @ ss)"
    using Cons.prems(1,2) by (simp add: sized_def [of x])
  have "unat w \<le> length ptr"
    using Cons.prems(1,2) by simp
  then have rem: "sz_sub (length ptr) (unat w) = length (drop (unat w) ptr)"
    using assms by simp
  have pos: "\<not> length (drop (unat w) ptr) < 1"
    unfolding split using var_int_bytes_ne [of ?v] by simp
  have "readVarInt (drop (unat w) ptr) (length (drop (unat w) ptr)) = Inr (?v, calcVarIntSize ?v)"
    unfolding split by (rule readVarInt_var_int_bytes [OF refl])
  moreover have "\<not> length ptr < unat ?w"
    unfolding w Cons.prems(1) by simp
  ultimately have "witness_loop (length (x # ws)) ptr w = witness_loop (length ws) ptr ?w"
    by (simp only: list.size(4) add.right_neutral add_Suc_right witness_loop.simps rem if_not_P [OF pos] bind_res_Inr prod.case Let_def if_False)
  moreover have "\<exists>w'. witness_loop (length ws) ptr ?w = Inr w' \<and> unat w' = length (pre @ sized x) + length (concat (map sized ws))"
    using Cons.prems by (intro Cons.IH [OF _ w [symmetric]]) simp_all
  ultimately show ?case
    by auto
qed simp

lemma TxWitnessCalcLength_enc:
  assumes "witness_ok ws" "length (witness_bytes ws @ ss) < size_t_mod"
  shows "TxWitnessCalcLength (witness_bytes ws @ ss) = Inr (length (witness_bytes ws))"
proof -
  let ?v = "of_nat (length ws) :: u64"
  have ne: "\<not> length (witness_bytes ws @ ss) < 1"
    using var_int_bytes_ne [of ?v] by (simp add: witness_bytes_def)
  have sized_pos: "length xs \<le> length (concat (map sized xs))" for xs
  proof (induction xs)
    case (Cons a xs)
    have "1 \<le> length (sized a)"
      using var_int_bytes_ne by (simp add: sized_def Suc_le_eq)
    with Cons have "1 + length xs \<le> length (sized a) + length (concat (map sized xs))"
      by (rule add_mono [rotated])
    then show ?case
      by simp
  qed simp
  have len: "length (witness_bytes ws) = unat (calcVarIntSize ?v) + length (concat (map sized ws))"
    by (simp add: witness_bytes_def length_var_int_bytes)
  have small: "length ws < 2 ^ 32"
    using assms(1) sized_pos [of ws] len unfolding witness_ok_def by linarith
  have rv: "readVarInt (witness_bytes ws @ ss) (length (witness_bytes ws @ ss)) = Inr (?v, calcVarIntSize ?v)"
    using readVarInt_var_int_bytes [OF refl, of ?v "concat (map sized ws) @ ss"] by (simp add: witness_bytes_def)
  obtain w' where "witness_loop (length ws) (witness_bytes ws @ ss) (calcVarIntSize ?v) = Inr w'" "unat w' = length (witness_bytes ws)"
    using witness_loop_enc [OF assms(2), of "var_int_bytes ?v" ws ss "calcVarIntSize ?v"] assms(1) len
    by (auto simp: witness_bytes_def witness_ok_def length_var_int_bytes)
  then show ?thesis
    using small by (simp only: TxWitnessCalcLength_def if_not_P [OF ne] rv bind_res_Inr prod.case Let_def word_of_length add_0)
qed

subsection \<open>Leaping over a list of items\<close>

locale measured =
  fixes enc :: "'a \<Rightarrow> bytes" and calc :: "bytes \<Rightarrow> nat res" and ok :: "'a \<Rightarrow> bool"
  assumes calc_enc: "ok x \<Longrightarrow> length (enc x @ ss) < size_t_mod \<Longrightarrow> calc (enc x @ ss) = Inr (length (enc x))"
begin

lemma leap_loop_enc:
  "brr_ok r \<Longrightarrow> list_all ok xs \<Longrightarrow> getCurrPtr r = concat (map enc xs) @ ss \<Longrightarrow>
    leap_loop calc (length xs) r =
      Inr (starts (brr_pos r) (map (length \<circ> enc) xs), r\<lparr>brr_pos := brr_pos r + sum_list (map (length \<circ> enc) xs)\<rparr>)"
proof (induction xs arbitrary: r)
  case (Cons x xs)
  let ?r = "r\<lparr>brr_pos := brr_pos r + length (enc x)\<rparr>"
  have ptr: "getCurrPtr r = enc x @ (concat (map enc xs) @ ss)"
    using Cons.prems(3) by simp
  have "length (enc x @ (concat (map enc xs) @ ss)) < size_t_mod"
    using Cons.prems(1) unfolding ptr [symmetric] by (auto simp: brr_ok_def getCurrPtr_def)
  then have "calc (getCurrPtr r) = Inr (length (enc x))"
    unfolding ptr using calc_enc Cons.prems(2) by simp
  moreover have "advance (length (enc x)) r = Inr ?r" "brr_ok ?r" "getCurrPtr ?r = concat (map enc xs) @ ss"
    using Cons.prems(1) ptr by (auto simp: advance_ok)
  ultimately show ?case
    using Cons.IH [of ?r] Cons.prems(2) by (simp add: add.assoc)
qed (simp add: brr.equality)

lemma leap_enc:
  assumes "brr_ok r" "list_all ok xs" "getCurrPtr r = concat (map enc xs) @ ss" "length xs < 2 ^ 32 - 1"
  shows "leap calc True (ucast (of_nat (length xs) :: u64)) r =
    Inr (positions (brr_pos r) (map (length \<circ> enc) xs), r\<lparr>brr_pos := brr_pos r + length (concat (map enc xs))\<rparr>)"
proof -
  let ?n = "ucast (of_nat (length xs) :: u64) :: u32"
  have n: "unat ?n = length xs"
    using assms(4) by (intro word_of_length) simp
  then have "?n + 1 \<noteq> 0"
    using assms(4) unat_word_ariths(1) [of ?n 1] by auto
  moreover have "sum_list (map (length \<circ> enc) xs) = length (concat (map enc xs))"
    by (simp add: length_concat comp_def)
  ultimately show ?thesis
    using leap_loop_enc [OF assms(1-3)] n by (simp add: leap_def positions_def)
qed

end

interpretation txins: measured txin_bytes TxInCalcLength txin_ok
  by unfold_locales (rule TxInCalcLength_enc)

interpretation txouts: measured txout_bytes TxOutCalcLength txout_ok
  by unfold_locales (rule TxOutCalcLength_enc)

interpretation witnesses: measured witness_bytes TxWitnessCalcLength witness_ok
  by unfold_locales (rule TxWitnessCalcLength_enc)

subsection \<open>Measuring a transaction\<close>

lemma marker_value: "(StrToIntLE [a, b] :: u16) = 0x0100 \<longleftrightarrow> a = 0 \<and> b = 1"
proof -
  have "IntToStrLE (0x0100 :: u16) = [0, 1]"
    by code_simp
  moreover have "IntToStrLE (StrToIntLE [a, b] :: u16) = [a, b]"
    by (intro IntToStrLE_StrToIntLE) simp_all
  moreover have "(StrToIntLE [0, 1] :: u16) = 0x0100"
    by code_simp
  ultimately show ?thesis
    by (metis list.inject)
qed

lemma skip_marker_enc:
  assumes "brr_ok r"
  shows "getCurrPtr r = [0, 1] @ ss \<Longrightarrow> skip_marker r = Inr (True, r\<lparr>brr_pos := brr_pos r + 2\<rparr>)"
    "getCurrPtr r = b # c # ss \<Longrightarrow> b \<noteq> 0 \<Longrightarrow> skip_marker r = Inr (False, r)"
  using marker_value [of 0 1] marker_value [of b c] assms by (simp_all add: skip_marker_def mem_read_def advance_ok)

lemma var_int_bytes_first:
  assumes "0 < v"
  shows "\<exists>b bs. var_int_bytes v = b # bs \<and> b \<noteq> 0"
proof -
  have "ucast v \<noteq> (0 :: byte)" if "v < 0xfd"
  proof
    assume z: "ucast v = (0 :: byte)"
    have "v = ucast (ucast v :: byte)"
      using that by (intro ucast_narrow [where n = 8, symmetric]) (auto intro: less_trans)
    then have "v = 0"
      by (simp add: z)
    then show False
      using assms by simp
  qed
  then show ?thesis
    by (auto simp: var_int_bytes_def put_var_int_def put_uint8_t_def put_uint16_t_def put_uint32_t_def put_uint64_t_def)
qed

text \<open>A reader at a position of a buffer.\<close>

definition at_pos :: "bytes \<Rightarrow> nat \<Rightarrow> brr" where
  "at_pos ptr k = (setNewData ptr)\<lparr>brr_pos := k\<rparr>"

lemma at_pos_simps [simp]:
  "(at_pos ptr k)\<lparr>brr_pos := j\<rparr> = at_pos ptr j" "brr_pos (at_pos ptr k) = k" "getCurrPtr (at_pos ptr k) = drop k ptr"
  by (simp_all add: at_pos_def setNewData_def getCurrPtr_def)

lemma brr_ok_at_pos [simp]: "length ptr < size_t_mod \<Longrightarrow> k \<le> length ptr \<Longrightarrow> brr_ok (at_pos ptr k)"
  by (simp add: at_pos_def setNewData_def brr_ok_def)

lemma setNewData_at_pos: "setNewData ptr = at_pos ptr 0"
  by (simp add: at_pos_def setNewData_def)

text \<open>Where the inputs, the outputs and the witnesses of a transaction start.\<close>

definition pos_in :: "wire_tx \<Rightarrow> nat" where
  "pos_in t = 4 + (if wt_segwit t then 2 else 0) + length (var_int_bytes (of_nat (length (wt_ins t))))"

definition pos_out :: "wire_tx \<Rightarrow> nat" where
  "pos_out t = pos_in t + length (concat (map txin_bytes (wt_ins t))) + length (var_int_bytes (of_nat (length (wt_outs t))))"

definition pos_witness :: "wire_tx \<Rightarrow> nat" where
  "pos_witness t = pos_out t + length (concat (map txout_bytes (wt_outs t)))"

definition expected_offsets :: "wire_tx \<Rightarrow> tx_offsets" where
  "expected_offsets t =
     \<lparr>off_size = length (tx_bytes t),
      off_in = positions (pos_in t) (map (length \<circ> txin_bytes) (wt_ins t)),
      off_out = positions (pos_out t) (map (length \<circ> txout_bytes) (wt_outs t)),
      off_witness = (if wt_segwit t then positions (pos_witness t) (map (length \<circ> witness_bytes) (wt_witnesses t)) else [pos_witness t])\<rparr>"

lemma tx_parts:
  assumes "tx_ok t"
  shows "drop (pos_in t) (tx_bytes t @ rest) = concat (map txin_bytes (wt_ins t)) @ var_int_bytes (of_nat (length (wt_outs t))) @
       concat (map txout_bytes (wt_outs t)) @ (if wt_segwit t then concat (map witness_bytes (wt_witnesses t)) else []) @ wt_locktime t @ rest"
proof -
  have "length (wt_version t @ (if wt_segwit t then [0, 1] else []) @ var_int_bytes (of_nat (length (wt_ins t)))) = pos_in t"
    using assms by (simp add: tx_ok_def pos_in_def)
  moreover have "tx_bytes t @ rest = (wt_version t @ (if wt_segwit t then [0, 1] else []) @ var_int_bytes (of_nat (length (wt_ins t)))) @
      concat (map txin_bytes (wt_ins t)) @ var_int_bytes (of_nat (length (wt_outs t))) @
      concat (map txout_bytes (wt_outs t)) @ (if wt_segwit t then concat (map witness_bytes (wt_witnesses t)) else []) @ wt_locktime t @ rest"
    by (simp only: tx_bytes_def append_assoc)
  ultimately show ?thesis
    by (metis append_eq_conv_conj)
qed

lemma pos_witness_le: "tx_ok t \<Longrightarrow> pos_in t \<le> pos_out t \<and> pos_out t \<le> pos_witness t \<and> pos_witness t + 4 \<le> length (tx_bytes t @ rest)"
  by (simp add: tx_ok_def tx_bytes_def pos_in_def pos_out_def pos_witness_def)

lemma drop_more: "drop k xs = ys @ zs \<Longrightarrow> drop (k + length ys) xs = zs"
  by (metis add.commute append_eq_conv_conj drop_drop)

lemma skip_marker_tx:
  assumes "tx_ok t" "length (tx_bytes t @ rest) < size_t_mod"
  shows "skip_marker (at_pos (tx_bytes t @ rest) 4) = Inr (wt_segwit t, at_pos (tx_bytes t @ rest) (if wt_segwit t then 6 else 4))"
proof (cases "wt_segwit t")
  case True
  then have "drop 4 (tx_bytes t @ rest) = [0, 1] @ drop 6 (tx_bytes t @ rest)"
    using assms(1) by (simp add: tx_ok_def tx_bytes_def)
  moreover have "4 \<le> length (tx_bytes t @ rest)"
    using pos_witness_le [OF assms(1), of rest] by (simp add: pos_in_def)
  ultimately show ?thesis
    using skip_marker_enc(1) [of "at_pos (tx_bytes t @ rest) 4"] assms(2) True by simp
next
  case False
  let ?v = "of_nat (length (wt_ins t)) :: u64"
  have ins: "wt_ins t \<noteq> []" "length (wt_ins t) < 2 ^ 32"
    using False assms(1) by (simp_all add: tx_ok_def)
  then have "unat ?v = length (wt_ins t)"
    by (simp add: unsigned_of_nat take_bit_nat_eq_self)
  then have "0 < ?v"
    using ins(1) by (simp add: word_gt_0_no unat_eq_zero flip: unat_eq_zero word_neq_0_conv)
  then obtain b bs where b: "var_int_bytes ?v = b # bs" "b \<noteq> 0"
    using var_int_bytes_first by blast
  define tail where "tail = bs @ concat (map txin_bytes (wt_ins t)) @ var_int_bytes (of_nat (length (wt_outs t))) @
      concat (map txout_bytes (wt_outs t)) @ wt_locktime t @ rest"
  have "tail \<noteq> []"
    using assms(1) by (auto simp: tail_def tx_ok_def)
  then obtain c ss where "tail = c # ss"
    by (cases tail) auto
  moreover have "drop 4 (tx_bytes t @ rest) = b # tail"
    using assms(1) False b by (simp add: tx_ok_def tx_bytes_def tail_def)
  moreover have "4 \<le> length (tx_bytes t @ rest)"
    using pos_witness_le [OF assms(1), of rest] by (simp add: pos_in_def)
  ultimately show ?thesis
    using skip_marker_enc(2) [of "at_pos (tx_bytes t @ rest) 4" b c ss] assms(2) False b(2) by simp
qed

lemma advance_at: "length ptr < size_t_mod \<Longrightarrow> k + n \<le> length ptr \<Longrightarrow> advance n (at_pos ptr k) = Inr (at_pos ptr (k + n))"
  by (simp add: advance_ok)

lemma get_var_int_at:
  "length ptr < size_t_mod \<Longrightarrow> k \<le> length ptr \<Longrightarrow> drop k ptr = var_int_bytes v @ ss \<Longrightarrow>
    get_var_int (at_pos ptr k) = Inr (v, at_pos ptr (k + length (var_int_bytes v)))"
  using varint.dec_enc [of "at_pos ptr k" v ss] by simp

lemma leap_witnesses_tx:
  assumes "tx_ok t" "length (tx_bytes t @ rest) < size_t_mod"
  shows "leap_witnesses (wt_segwit t) True (ucast (of_nat (length (wt_ins t)) :: u64)) (at_pos (tx_bytes t @ rest) (pos_witness t)) =
    Inr (off_witness (expected_offsets t), at_pos (tx_bytes t @ rest) (length (tx_bytes t) - 4)) \<and> 4 \<le> length (tx_bytes t)"
proof -
  have d: "drop (pos_witness t) (tx_bytes t @ rest) = (if wt_segwit t then concat (map witness_bytes (wt_witnesses t)) else []) @ wt_locktime t @ rest"
    using drop_more [OF drop_more [OF drop_more [OF tx_parts [OF assms(1)]]], of rest] by (simp only: pos_out_def pos_witness_def)
  have le: "pos_witness t + 4 \<le> length (tx_bytes t @ rest)" "pos_witness t \<le> length (tx_bytes t @ rest)"
    using pos_witness_le [OF assms(1), of rest] by simp_all
  have len: "length (tx_bytes t) = pos_witness t + length (if wt_segwit t then concat (map witness_bytes (wt_witnesses t)) else []) + 4"
    using assms(1) by (simp add: tx_bytes_def tx_ok_def pos_in_def pos_out_def pos_witness_def)
  show ?thesis
  proof (cases "wt_segwit t")
    case True
    then have "list_all witness_ok (wt_witnesses t)" "length (wt_witnesses t) = length (wt_ins t)" "length (wt_witnesses t) < 2 ^ 32 - 1"
      using assms(1) unfolding tx_ok_def by simp_all
    then show ?thesis
      using witnesses.leap_enc [of "at_pos (tx_bytes t @ rest) (pos_witness t)" "wt_witnesses t" "wt_locktime t @ rest"] d len True assms(2) le(2)
      by (simp add: leap_witnesses_def expected_offsets_def)
  next
    case False
    then show ?thesis
      using len by (simp add: leap_witnesses_def expected_offsets_def)
  qed
qed

lemma tx_walk:
  assumes "tx_ok t" "length (tx_bytes t @ rest) < size_t_mod"
  defines "P \<equiv> tx_bytes t @ rest"
  shows "advance 4 (setNewData P) = Inr (at_pos P 4)" "getSizeRemaining (setNewData P) = length P" "4 \<le> length P"
    "get_var_int (at_pos P (if wt_segwit t then 6 else 4)) = Inr (of_nat (length (wt_ins t)), at_pos P (pos_in t))"
    "leap TxInCalcLength True (ucast (of_nat (length (wt_ins t)) :: u64)) (at_pos P (pos_in t)) =
       Inr (off_in (expected_offsets t), at_pos P (pos_in t + length (concat (map txin_bytes (wt_ins t)))))"
    "get_var_int (at_pos P (pos_in t + length (concat (map txin_bytes (wt_ins t))))) = Inr (of_nat (length (wt_outs t)), at_pos P (pos_out t))"
    "leap TxOutCalcLength True (ucast (of_nat (length (wt_outs t)) :: u64)) (at_pos P (pos_out t)) =
       Inr (off_out (expected_offsets t), at_pos P (pos_witness t))"
    "advance 4 (at_pos P (length (tx_bytes t) - 4)) = Inr (at_pos P (length (tx_bytes t)))"
proof -
  note small = assms(2) [folded P_def]
  have lens: "pos_in t \<le> pos_out t" "pos_out t \<le> pos_witness t" "pos_witness t + 4 \<le> length P" "4 \<le> pos_in t"
    using pos_witness_le [OF assms(1), of rest] by (simp_all add: P_def pos_in_def)
  show "4 \<le> length P"
    using lens by simp
  then show "advance 4 (setNewData P) = Inr (at_pos P 4)" "getSizeRemaining (setNewData P) = length P"
    using small by (simp_all add: setNewData_at_pos advance_ok getSizeRemaining_ok)
  have d0: "drop (if wt_segwit t then 6 else 4) P = var_int_bytes (of_nat (length (wt_ins t))) @ drop (pos_in t) P"
    unfolding P_def tx_parts [OF assms(1)] using assms(1) by (simp add: tx_bytes_def tx_ok_def)
  have "pos_in t = (if wt_segwit t then 6 else 4) + length (var_int_bytes (of_nat (length (wt_ins t))))"
    by (simp add: pos_in_def)
  then show "get_var_int (at_pos P (if wt_segwit t then 6 else 4)) = Inr (of_nat (length (wt_ins t)), at_pos P (pos_in t))"
    using get_var_int_at [OF small _ d0] lens by simp
  note d1 = tx_parts [OF assms(1), of rest, folded P_def]
  have okr: "brr_ok (at_pos P (pos_in t))" "brr_ok (at_pos P (pos_out t))"
    using small lens by simp_all
  show "leap TxInCalcLength True (ucast (of_nat (length (wt_ins t)) :: u64)) (at_pos P (pos_in t)) =
       Inr (off_in (expected_offsets t), at_pos P (pos_in t + length (concat (map txin_bytes (wt_ins t)))))"
    using txins.leap_enc [OF okr(1), of "wt_ins t"] assms(1) d1 by (simp add: tx_ok_def expected_offsets_def)
  show "get_var_int (at_pos P (pos_in t + length (concat (map txin_bytes (wt_ins t))))) = Inr (of_nat (length (wt_outs t)), at_pos P (pos_out t))"
    using get_var_int_at [OF small _ drop_more [OF d1]] lens by (simp add: pos_out_def)
  have d2: "drop (pos_out t) P = concat (map txout_bytes (wt_outs t)) @ (if wt_segwit t then concat (map witness_bytes (wt_witnesses t)) else []) @ wt_locktime t @ rest"
    using drop_more [OF drop_more [OF d1]] by (simp add: pos_out_def)
  show "leap TxOutCalcLength True (ucast (of_nat (length (wt_outs t)) :: u64)) (at_pos P (pos_out t)) =
       Inr (off_out (expected_offsets t), at_pos P (pos_witness t))"
    using txouts.leap_enc [OF okr(2), of "wt_outs t"] assms(1) d2 by (simp add: tx_ok_def expected_offsets_def pos_witness_def)
  show "advance 4 (at_pos P (length (tx_bytes t) - 4)) = Inr (at_pos P (length (tx_bytes t)))"
    using advance_at [OF small, of "length (tx_bytes t) - 4" 4] leap_witnesses_tx [OF assms(1,2)] by (simp add: P_def)
qed

lemmas tx_walk_all = tx_walk skip_marker_tx leap_witnesses_tx [THEN conjunct1]

text \<open>
  C17: Layout of transactions: in front of any well-formed transaction, with or without witnesses and
  whatever follows it, \<open>TxCalcLength\<close> returns the length of exactly its bytes and the offsets at which its
  inputs, outputs and witnesses start.
\<close>

theorem TxCalcLength_layout:
  assumes "tx_ok t" "length (tx_bytes t @ rest) < size_t_mod"
  shows "TxCalcLength (tx_bytes t @ rest) True True True = Inr (expected_offsets t)"
proof -
  have "\<not> length (tx_bytes t @ rest) < 4"
    using tx_walk(3) [OF assms] by simp
  then show ?thesis
    by (simp only: TxCalcLength_def Let_def tx_walk_all [OF assms] if_False bind_res_Inr prod.case at_pos_simps)
      (simp add: expected_offsets_def)
qed

definition sample_tx :: wire_tx where
  "sample_tx = \<lparr>wt_version = [1, 0, 0, 0], wt_segwit = True,
     wt_ins = [\<lparr>wi_outpoint = replicate 36 7, wi_script = [], wi_sequence = [255, 255, 255, 255]\<rparr>],
     wt_outs = [\<lparr>wo_value = replicate 8 1, wo_script = [0x51]\<rparr>],
     wt_witnesses = [[[1, 2], []]], wt_locktime = [0, 0, 0, 0]\<rparr>"

theorem TxCalcLength_layout_witness:
  "TxCalcLength (tx_bytes sample_tx @ [9, 9]) True True True =
     Inr \<lparr>off_size = 68, off_in = [7, 48], off_out = [49, 59], off_witness = [59, 64]\<rparr>"
proof -
  have "tx_ok sample_tx" "length (tx_bytes sample_tx @ [9, 9]) < size_t_mod"
    "expected_offsets sample_tx = \<lparr>off_size = 68, off_in = [7, 48], off_out = [49, 59], off_witness = [59, 64]\<rparr>"
    by (simp_all add: sample_tx_def tx_ok_def txin_ok_def txout_ok_def witness_ok_def expected_offsets_def positions_def pos_in_def
        pos_out_def pos_witness_def tx_bytes_def txin_bytes_def txout_bytes_def witness_bytes_def sized_def length_var_int_bytes calcVarIntSize_def)
  then show ?thesis
    using TxCalcLength_layout [of sample_tx "[9, 9]"] by simp
qed



lemma brr_ok_pos: "brr_ok r \<Longrightarrow> brr_pos r \<le> length (brr_data r)"
  by (simp add: brr_ok_def)

text \<open>The reader stays within the buffer through every step of \<open>TxCalcLength\<close>.\<close>

lemma TxCalcLength_size:
  assumes small: "length ptr < size_t_mod" and run: "TxCalcLength ptr i out w = Inr offs"
  shows "off_size offs \<le> length ptr"
proof -
  have ok0: "brr_ok (setNewData ptr)"
    using small by simp
  obtain r1 b r2 v r3 oi r4 v' r5 oo r6 ow r7 r8 where
    "advance 4 (setNewData ptr) = Inr r1" "skip_marker r1 = Inr (b, r2)" "get_var_int r2 = Inr (v, r3)"
    "leap TxInCalcLength i (ucast v) r3 = Inr (oi, r4)" "get_var_int r4 = Inr (v', r5)"
    "leap TxOutCalcLength out (ucast v') r5 = Inr (oo, r6)" "leap_witnesses b w (ucast v) r6 = Inr (ow, r7)"
    "advance 4 r7 = Inr r8" "off_size offs = brr_pos r8"
    using run by (auto simp: TxCalcLength_def Let_def bind_res_eq_Inr split: if_splits)
  note steps = this
  note ok1 = advance_forward [OF ok0 steps(1)]
  note ok2 = skip_marker_ok(2) [OF conjunct1 [OF ok1] steps(2)]
  note ok3 = get_var_int_forward [OF conjunct1 [OF ok2] steps(3)]
  have ok4: "brr_data r4 = brr_data r3 \<and> brr_ok r4"
    using leap_ok(2) [OF safe_calcs(1) conjunct1 [OF ok3] steps(4)] by blast
  note ok5 = get_var_int_forward [OF conjunct2 [OF ok4] steps(5)]
  have ok6: "brr_data r6 = brr_data r5 \<and> brr_ok r6"
    using leap_ok(2) [OF safe_calcs(2) conjunct1 [OF ok5] steps(6)] by blast
  have ok7: "brr_data r7 = brr_data r6 \<and> brr_ok r7"
    using leap_witnesses_ok(2) [OF conjunct2 [OF ok6] steps(7)] by blast
  note ok8 = advance_forward [OF conjunct2 [OF ok7] steps(8)]
  have "brr_data r8 = ptr"
    using ok1 ok2 ok3 ok4 ok5 ok6 ok7 ok8 by (simp add: setNewData_def)
  then show ?thesis
    using brr_ok_pos [OF conjunct1 [OF ok8]] steps(9) by simp
qed

lemma TxCalcLength_untracked_safe:
  assumes small: "length ptr < size_t_mod" and long: "\<not> (4 \<le> length ptr \<and> length ptr < 6)"
  shows "no_ub (TxCalcLength ptr False False False)"
proof (cases "length ptr < 4")
  case True
  then show ?thesis
    using small by (simp add: TxCalcLength_def Let_def getSizeRemaining_ok setNewData_at_pos)
next
  case False
  have ok0: "brr_ok (setNewData ptr)"
    using small by simp
  have r1: "advance 4 (setNewData ptr) = Inr (at_pos ptr 4)" "brr_ok (at_pos ptr 4)" "2 \<le> length (getCurrPtr (at_pos ptr 4))"
    using small False long by (simp_all add: setNewData_at_pos advance_ok)
  show ?thesis
    unfolding TxCalcLength_def Let_def r1(1) bind_res_Inr
    using r1 by (auto intro!: no_ub_bind skip_marker_ok(1) leap_ok(1) leap_witnesses_ok(1) varint.dec_safe advance_no_ub safe_calcs
        simp: getSizeRemaining_ok dest!: skip_marker_ok(2) [rotated] get_var_int_forward [rotated] leap_ok(2) [OF safe_calcs(1), rotated] leap_ok(2) [OF safe_calcs(2), rotated])
qed

text \<open>
  C18: \<open>TxCalcLength\<close> on arbitrary bytes: called without offset vectors it reads inside its buffer, except
  when four or five bytes are given, and whenever it returns, the length it reports lies in the buffer.
\<close>

theorem TxCalcLength_safe:
  assumes "length ptr < size_t_mod" "\<not> (4 \<le> length ptr \<and> length ptr < 6)"
  shows "no_ub (TxCalcLength ptr False False False) \<and> (\<forall>i out w offs. TxCalcLength ptr i out w = Inr offs \<longrightarrow> off_size offs \<le> length ptr)"
  using TxCalcLength_untracked_safe [OF assms] TxCalcLength_size [OF assms(1)] by blast

theorem TxCalcLength_safe_witness:
  "no_ub (TxCalcLength [1, 0, 0, 0, 0, 1, 255] False False False)"
  using TxCalcLength_safe [of "[1, 0, 0, 0, 0, 1, 255]"] by simp

text \<open>
  C25: The gaps in the checks of \<open>TxCalcLength\<close>: on a buffer that ends behind the version number it reads the
  marker out of bounds, and an input count of \<open>0xFFFFFFFF\<close> makes it write to an empty vector of offsets,
  whatever follows.
\<close>

theorem TxCalcLength_gaps:
  assumes "length rest < 2 ^ 32"
  shows "TxCalcLength [v0, v1, v2, v3] i out w = Inl Undefined_Behaviour \<and>
    TxCalcLength ([v0, v1, v2, v3, 0xfe, 0xff, 0xff, 0xff, 0xff] @ rest) True out w = Inl Undefined_Behaviour"
proof -
  let ?p = "[v0, v1, v2, v3, 0xfe, 0xff, 0xff, 0xff, 0xff] @ rest"
  have small: "length ?p < size_t_mod"
    using assms by simp
  have "skip_marker (at_pos ?p 4) = Inr (False, at_pos ?p 4)"
    using skip_marker_enc(2) [of "at_pos ?p 4", where b = "0xfe" and c = "0xff" and ss = "[0xff, 0xff, 0xff] @ rest"] small by simp
  moreover have "var_int_bytes 0xFFFFFFFF = [0xfe, 0xff, 0xff, 0xff, 0xff]"
    by code_simp
  then have "get_var_int (at_pos ?p 4) = Inr (0xFFFFFFFF, at_pos ?p 9)"
    using get_var_int_at [OF small, where k = 4 and v = "0xFFFFFFFF" and ss = rest] by simp
  moreover have "leap TxInCalcLength True (ucast (0xFFFFFFFF :: u64)) (at_pos ?p 9) = Inl Undefined_Behaviour"
    by (simp add: leap_def)
  moreover have "advance 4 (setNewData ?p) = Inr (at_pos ?p 4)" "\<not> getSizeRemaining (setNewData ?p) < 4"
    using small by (simp_all add: setNewData_at_pos advance_ok getSizeRemaining_ok)
  ultimately have "TxCalcLength ?p True out w = Inl Undefined_Behaviour"
    by (simp only: TxCalcLength_def Let_def if_False bind_res_Inr bind_res_Inl prod.case)
  moreover have "TxCalcLength [v0, v1, v2, v3] i out w = Inl Undefined_Behaviour"
    by (simp add: TxCalcLength_def Let_def setNewData_at_pos advance_ok getSizeRemaining_ok skip_marker_def mem_read_def)
  ultimately show ?thesis
    by blast
qed

theorem TxCalcLength_gaps_witness:
  "TxCalcLength [1, 0, 0, 0, 0xfe, 0xff, 0xff, 0xff, 0xff, 7] True False False = Inl Undefined_Behaviour"
  using TxCalcLength_gaps [of "[7]" 1 0 0 0] by simp

end
