(* ===== verification/Network_Config.thy ===== *)
theory Network_Config
  imports Binary_Data
begin

text \<open>
  \<open>NetworkConfig\<close> (NetworkConfig.h, NetworkConfig.cpp): the static choice of network and the constants
  that depend on it. Its getters throw before a network is selected.
\<close>

datatype NETWORK_MODE =
    NETWORK_MODE_NA
  | NETWORK_MODE_MAINNET
  | NETWORK_MODE_TESTNET
  | NETWORK_MODE_REGTEST

text \<open>\<open>SCRIPT_PREFIX\<close>, by its values.\<close>

abbreviation SCRIPT_PREFIX_HASH160 :: byte where "SCRIPT_PREFIX_HASH160 \<equiv> 0x00"
abbreviation SCRIPT_PREFIX_P2SH :: byte where "SCRIPT_PREFIX_P2SH \<equiv> 0x05"
abbreviation SCRIPT_PREFIX_HASH160_TESTNET :: byte where "SCRIPT_PREFIX_HASH160_TESTNET \<equiv> 0x6f"
abbreviation PRIVKEY_PREFIX :: byte where "PRIVKEY_PREFIX \<equiv> 0x80"
abbreviation SCRIPT_PREFIX_P2WPKH :: byte where "SCRIPT_PREFIX_P2WPKH \<equiv> 0x90"
abbreviation SCRIPT_PREFIX_P2WSH :: byte where "SCRIPT_PREFIX_P2WSH \<equiv> 0x95"
abbreviation SCRIPT_PREFIX_P2SH_TESTNET :: byte where "SCRIPT_PREFIX_P2SH_TESTNET \<equiv> 0xc4"
abbreviation PRIVKEY_PREFIX_TESTNET :: byte where "PRIVKEY_PREFIX_TESTNET \<equiv> 0xef"
abbreviation SCRIPT_PREFIX_MULTISIG :: byte where "SCRIPT_PREFIX_MULTISIG \<equiv> 0xfe"
abbreviation SCRIPT_PREFIX_NONSTD :: byte where "SCRIPT_PREFIX_NONSTD \<equiv> 0xff"
abbreviation SCRIPT_PREFIX_OPRETURN :: byte where "SCRIPT_PREFIX_OPRETURN \<equiv> 0x6a"

record network =
  nc_mode :: NETWORK_MODE
  nc_genesisBlockHash :: bytes
  nc_genesisTxHash :: bytes
  nc_magicBytes :: bytes
  nc_pubkeyHashPrefix :: byte
  nc_scriptHashPrefix :: byte
  nc_privKeyPrefix :: byte
  nc_bech32Prefix :: string

definition READHEX :: "string \<Rightarrow> bytes res" where
  "READHEX str = createFromHex (map of_char str)"

definition network_constants :: "string \<Rightarrow> string \<Rightarrow> string \<Rightarrow> byte \<Rightarrow> byte \<Rightarrow> byte \<Rightarrow> string \<Rightarrow> network \<Rightarrow> network res" where
  "network_constants blockHash txHash magic pubkey script priv bech32 nc =
     bind_res (READHEX blockHash) (\<lambda>genesis.
     bind_res (READHEX txHash) (\<lambda>genesisTx.
     bind_res (READHEX magic) (\<lambda>m.
       Inr (nc\<lparr>nc_genesisBlockHash := genesis, nc_genesisTxHash := genesisTx, nc_magicBytes := m,
          nc_pubkeyHashPrefix := pubkey, nc_scriptHashPrefix := script, nc_privKeyPrefix := priv, nc_bech32Prefix := bech32\<rparr>))))"

text \<open>Result: the new configuration, also when an exception is thrown.\<close>

definition selectNetwork :: "NETWORK_MODE \<Rightarrow> network \<Rightarrow> network \<times> unit res" where
  "selectNetwork mode nc =
     (case
       (case mode of
          NETWORK_MODE_MAINNET \<Rightarrow> network_constants
            ''6fe28c0ab6f1b372c1a6a246ae63f74f931e8365e15a089c68d6190000000000''
            ''3ba3edfd7a7b12b27ac72c3e67768f617fc81bc3888a51323a9fb8aa4b1e5e4a''
            ''f9beb4d9'' SCRIPT_PREFIX_HASH160 SCRIPT_PREFIX_P2SH PRIVKEY_PREFIX ''bc'' nc
        | NETWORK_MODE_TESTNET \<Rightarrow> network_constants
            ''43497fd7f826957108f4a30fd9cec3aeba79972084e90ead01ea330900000000''
            ''3ba3edfd7a7b12b27ac72c3e67768f617fc81bc3888a51323a9fb8aa4b1e5e4a''
            ''0b110907'' SCRIPT_PREFIX_HASH160_TESTNET SCRIPT_PREFIX_P2SH_TESTNET PRIVKEY_PREFIX_TESTNET ''tb'' nc
        | NETWORK_MODE_REGTEST \<Rightarrow> network_constants
            ''06226e46111a0b59caaf126043eb5bbf28c34f3a5e332a1fc7b2b73cf188910f''
            ''3ba3edfd7a7b12b27ac72c3e67768f617fc81bc3888a51323a9fb8aa4b1e5e4a''
            ''fabfb5da'' SCRIPT_PREFIX_HASH160_TESTNET SCRIPT_PREFIX_P2SH_TESTNET PRIVKEY_PREFIX_TESTNET ''tb'' nc
        | NETWORK_MODE_NA \<Rightarrow> Inl (Runtime_Error ''invalid network mode selection'')) of
        Inl e \<Rightarrow> (nc\<lparr>nc_mode := (if mode = NETWORK_MODE_NA then NETWORK_MODE_NA else nc_mode nc)\<rparr>, Inl e)
      | Inr nc' \<Rightarrow> (nc'\<lparr>nc_mode := mode\<rparr>, Inr ()))"

definition nc_isInitialized :: "network \<Rightarrow> bool" where
  "nc_isInitialized nc \<longleftrightarrow> nc_mode nc \<noteq> NETWORK_MODE_NA"

definition getPubkeyHashPrefix :: "network \<Rightarrow> byte res" where
  "getPubkeyHashPrefix nc =
     (if \<not> nc_isInitialized nc then Inl (Runtime_Error ''NetworkConfig is uninitialized!'')
      else Inr (nc_pubkeyHashPrefix nc))"

definition getScriptHashPrefix :: "network \<Rightarrow> byte res" where
  "getScriptHashPrefix nc =
     (if \<not> nc_isInitialized nc then Inl (Runtime_Error ''NetworkConfig is uninitialized!'')
      else Inr (nc_scriptHashPrefix nc))"

definition getPrivKeyPrefix :: "network \<Rightarrow> byte res" where
  "getPrivKeyPrefix nc =
     (if \<not> nc_isInitialized nc then Inl (Runtime_Error ''NetworkConfig is uninitialized!'')
      else Inr (nc_privKeyPrefix nc))"

definition getGenesisBlockHash :: "network \<Rightarrow> bytes res" where
  "getGenesisBlockHash nc =
     (if \<not> nc_isInitialized nc then Inl (Runtime_Error ''NetworkConfig is uninitialized!'')
      else Inr (nc_genesisBlockHash nc))"

definition getGenesisTxHash :: "network \<Rightarrow> bytes res" where
  "getGenesisTxHash nc =
     (if \<not> nc_isInitialized nc then Inl (Runtime_Error ''NetworkConfig is uninitialized!'')
      else Inr (nc_genesisTxHash nc))"

definition getMagicBytes :: "network \<Rightarrow> bytes res" where
  "getMagicBytes nc =
     (if \<not> nc_isInitialized nc then Inl (Runtime_Error ''NetworkConfig is uninitialized!'')
      else Inr (nc_magicBytes nc))"

text \<open>The address prefixes of a selected network: the public-key and script prefixes differ from each other and from every prefix the program adds.\<close>

definition prefixes_ok :: "network \<Rightarrow> bool" where
  "prefixes_ok nc \<longleftrightarrow> nc_isInitialized nc \<and>
     (nc_pubkeyHashPrefix nc = SCRIPT_PREFIX_HASH160 \<and> nc_scriptHashPrefix nc = SCRIPT_PREFIX_P2SH \<or>
      nc_pubkeyHashPrefix nc = SCRIPT_PREFIX_HASH160_TESTNET \<and> nc_scriptHashPrefix nc = SCRIPT_PREFIX_P2SH_TESTNET)"

lemma length_unhex_loop: "length (unhex_loop cs) = length cs div 2"
  by (induction cs rule: unhex_loop.induct) auto

lemma selectNetwork_ok:
  "mode \<noteq> NETWORK_MODE_NA \<Longrightarrow>
    \<exists>nc'. selectNetwork mode nc = (nc', Inr ()) \<and> prefixes_ok nc' \<and> nc_mode nc' = mode \<and> length (nc_genesisBlockHash nc') = 32 \<and> length (nc_magicBytes nc') = 4"
  by (cases mode) (simp_all add: selectNetwork_def network_constants_def READHEX_def createFromHex_def prefixes_ok_def nc_isInitialized_def
      length_unhex_loop del: unhex_loop.simps)

lemma prefixes_okD:
  assumes "prefixes_ok nc"
  shows "getPubkeyHashPrefix nc = Inr (nc_pubkeyHashPrefix nc)" "getScriptHashPrefix nc = Inr (nc_scriptHashPrefix nc)"
    "nc_pubkeyHashPrefix nc \<noteq> nc_scriptHashPrefix nc"
    "nc_pubkeyHashPrefix nc \<notin> {SCRIPT_PREFIX_P2WPKH, SCRIPT_PREFIX_P2WSH, SCRIPT_PREFIX_MULTISIG, SCRIPT_PREFIX_NONSTD, SCRIPT_PREFIX_OPRETURN}"
    "nc_scriptHashPrefix nc \<notin> {SCRIPT_PREFIX_P2WPKH, SCRIPT_PREFIX_P2WSH, SCRIPT_PREFIX_MULTISIG, SCRIPT_PREFIX_NONSTD, SCRIPT_PREFIX_OPRETURN}"
    "nc_pubkeyHashPrefix nc \<in> {SCRIPT_PREFIX_HASH160, SCRIPT_PREFIX_HASH160_TESTNET}"
    "nc_scriptHashPrefix nc \<in> {SCRIPT_PREFIX_P2SH, SCRIPT_PREFIX_P2SH_TESTNET}"
  using assms by (auto simp: prefixes_ok_def getPubkeyHashPrefix_def getScriptHashPrefix_def)

definition mainnet :: network where
  "mainnet = \<lparr>nc_mode = NETWORK_MODE_MAINNET, nc_genesisBlockHash = [], nc_genesisTxHash = [], nc_magicBytes = [0xf9, 0xbe, 0xb4, 0xd9],
     nc_pubkeyHashPrefix = SCRIPT_PREFIX_HASH160, nc_scriptHashPrefix = SCRIPT_PREFIX_P2SH, nc_privKeyPrefix = PRIVKEY_PREFIX, nc_bech32Prefix = ''bc''\<rparr>"

lemma mainnet_ok: "prefixes_ok mainnet"
  by (simp add: mainnet_def prefixes_ok_def nc_isInitialized_def)

end
