(* ===== verification/Script_Class.thy ===== *)
theory Script_Class
  imports Binary_Writer Network_Config
begin

text \<open>
  Standard scripts and addresses (BtcUtils.h, BtcUtils.cpp): classification of output and input
  scripts, the multisig keys, the script builders, and the \<open>scrAddr\<close> keys under which the database
  files scripts. The hash functions are third-party code and appear as the argument \<open>hash160\<close>.
\<close>

datatype TXOUT_SCRIPT_TYPE =
    TXOUT_SCRIPT_STDHASH160
  | TXOUT_SCRIPT_STDPUBKEY65
  | TXOUT_SCRIPT_STDPUBKEY33
  | TXOUT_SCRIPT_MULTISIG
  | TXOUT_SCRIPT_P2SH
  | TXOUT_SCRIPT_NONSTANDARD
  | TXOUT_SCRIPT_P2WPKH
  | TXOUT_SCRIPT_P2WSH
  | TXOUT_SCRIPT_OPRETURN

datatype TXIN_SCRIPT_TYPE =
    TXIN_SCRIPT_STDUNCOMPR
  | TXIN_SCRIPT_STDCOMPR
  | TXIN_SCRIPT_COINBASE
  | TXIN_SCRIPT_SPENDPUBKEY
  | TXIN_SCRIPT_SPENDMULTI
  | TXIN_SCRIPT_SPENDP2SH
  | TXIN_SCRIPT_NONSTANDARD
  | TXIN_SCRIPT_WITNESS
  | TXIN_SCRIPT_P2WPKH_P2SH
  | TXIN_SCRIPT_P2WSH_P2SH

section \<open>Multisig scripts\<close>

text \<open>Reading the public keys. A key of another size ends the loop and leaves the other slots empty.\<close>

fun pk_loop :: "nat \<Rightarrow> brr \<Rightarrow> (bool \<times> bytes list) res" where
  "pk_loop 0 r = Inr (True, [])"
| "pk_loop (Suc k) r =
     bind_res (get_uint8_t r) (\<lambda>(nextSz, r1).
       if nextSz \<noteq> 0x41 \<and> nextSz \<noteq> 0x21 then Inr (False, replicate (Suc k) [])
       else bind_res (get_BinaryDataRef (unat nextSz) r1) (\<lambda>(pk, r2).
         bind_res (pk_loop k r2) (\<lambda>(ok, pks). Inr (ok, pk # pks))))"

definition getMultisigPubKeyList :: "bytes \<Rightarrow> (byte \<times> bytes list) res" where
  "getMultisigPubKeyList script =
     bind_res (byte_at script (- 1)) (\<lambda>lastOp.
       if lastOp \<noteq> 0xae then Inr (0, [])
       else bind_res (byte_at script 0) (\<lambda>M.
         bind_res (byte_at script (- 2)) (\<lambda>N.
           if M < 81 \<or> M > 96 \<or> N < 81 \<or> N > 96 then Inr (0, [])
           else bind_res (advance 1 (setNewData script)) (\<lambda>r.
             bind_res (pk_loop (unat (N - 80)) r) (\<lambda>(ok, pkList).
               Inr (if ok then M - 80 else 0, pkList))))))"

definition getMultisigAddrList :: "(bytes \<Rightarrow> bytes) \<Rightarrow> bytes \<Rightarrow> (byte \<times> bytes list) res" where
  "getMultisigAddrList hash160 script =
     bind_res (getMultisigPubKeyList script) (\<lambda>(M, pkList).
       if M = 0 then Inr (0, []) else Inr (M, map hash160 pkList))"

text \<open>\<open>std::sort\<close> on byte strings: equal strings cannot be told apart, so there is one sorted result.\<close>

fun bd_insort :: "bytes \<Rightarrow> bytes list \<Rightarrow> bytes list" where
  "bd_insort x [] = [x]"
| "bd_insort x (y # ys) = (if bd_less y x then y # bd_insort x ys else x # y # ys)"

definition bd_sort :: "bytes list \<Rightarrow> bytes list" where
  "bd_sort xs = foldr bd_insort xs []"

definition getMultisigUniqueKey :: "(bytes \<Rightarrow> bytes) \<Rightarrow> bytes \<Rightarrow> bytes res" where
  "getMultisigUniqueKey hash160 script =
     bind_res (getMultisigAddrList hash160 script) (\<lambda>(M, a160List).
       let N = length a160List in
       if M = 0 then Inr []
       else Inr (put_BinaryDataRef (concat (bd_sort a160List)) (put_uint8_t (of_nat N) (put_uint8_t M []))))"

definition isMultisigScript :: "(bytes \<Rightarrow> bytes) \<Rightarrow> bytes \<Rightarrow> bool res" where
  "isMultisigScript hash160 script =
     bind_res (getMultisigUniqueKey hash160 script) (\<lambda>k. Inr (length k > 0))"

definition getMultisigAddr160InfoStr :: "(bytes \<Rightarrow> bytes) \<Rightarrow> bytes \<Rightarrow> bytes res" where
  "getMultisigAddr160InfoStr hash160 script =
     bind_res (getMultisigAddrList hash160 script) (\<lambda>(M, outVect).
       Inr (put_BinaryDataRef (concat outVect) (put_uint8_t (of_nat (length outVect)) (put_uint8_t M []))))"

definition getMultisigPubKeyInfoStr :: "bytes \<Rightarrow> bytes res" where
  "getMultisigPubKeyInfoStr script =
     bind_res (getMultisigPubKeyList script) (\<lambda>(M, outVect).
       Inr (put_BinaryDataRef (concat outVect) (put_uint8_t (of_nat (length outVect)) (put_uint8_t M []))))"

section \<open>Output scripts\<close>

definition getTxOutScriptType :: "(bytes \<Rightarrow> bytes) \<Rightarrow> bytes \<Rightarrow> TXOUT_SCRIPT_TYPE res" where
  "getTxOutScriptType hash160 s =
     (let sz = length s in
      if sz > 0 \<and> sz < 81 \<and> byte_is s 0 0x6a then Inr TXOUT_SCRIPT_OPRETURN
      else if sz < 21 then Inr TXOUT_SCRIPT_NONSTANDARD
      else if sz = 22 \<and> byte_is s 0 0x00 \<and> byte_is s 1 0x14 then Inr TXOUT_SCRIPT_P2WPKH
      else if sz = 34 \<and> byte_is s 0 0x00 \<and> byte_is s 1 0x20 then Inr TXOUT_SCRIPT_P2WSH
      else if sz = 25 \<and> byte_is s 0 0x76 \<and> byte_is s 1 0xa9 \<and> byte_is s 2 0x14 \<and> byte_is s (- 2) 0x88 \<and> byte_is s (- 1) 0xac
        then Inr TXOUT_SCRIPT_STDHASH160
      else if sz = 67 \<and> byte_is s 0 0x41 \<and> byte_is s 1 0x04 \<and> byte_is s (- 1) 0xac then Inr TXOUT_SCRIPT_STDPUBKEY65
      else if sz = 35 \<and> byte_is s 0 0x21 \<and> (byte_is s 1 0x02 \<or> byte_is s 1 0x03) \<and> byte_is s (- 1) 0xac
        then Inr TXOUT_SCRIPT_STDPUBKEY33
      else if sz = 23 \<and> byte_is s 0 0xa9 \<and> byte_is s 1 0x14 \<and> byte_is s (- 1) 0x87 then Inr TXOUT_SCRIPT_P2SH
      else if byte_is s (- 1) 0xae then
        bind_res (isMultisigScript hash160 s) (\<lambda>multi. Inr (if multi then TXOUT_SCRIPT_MULTISIG else TXOUT_SCRIPT_NONSTANDARD))
      else Inr TXOUT_SCRIPT_NONSTANDARD)"

definition BadAddress :: bytes where
  "BadAddress = replicate 20 0"

definition getTxOutRecipientAddr :: "(bytes \<Rightarrow> bytes) \<Rightarrow> bytes \<Rightarrow> TXOUT_SCRIPT_TYPE \<Rightarrow> bytes res" where
  "getTxOutRecipientAddr hash160 script type0 =
     bind_res (if type0 = TXOUT_SCRIPT_NONSTANDARD then getTxOutScriptType hash160 script else Inr type0) (\<lambda>type.
       case type of
         TXOUT_SCRIPT_STDHASH160 \<Rightarrow> getSliceCopy script 3 20
       | TXOUT_SCRIPT_STDPUBKEY65 \<Rightarrow> bind_res (getSliceCopy script 1 65) (\<lambda>k. Inr (hash160 k))
       | TXOUT_SCRIPT_STDPUBKEY33 \<Rightarrow> bind_res (getSliceCopy script 1 33) (\<lambda>k. Inr (hash160 k))
       | TXOUT_SCRIPT_P2SH \<Rightarrow> getSliceCopy script 2 20
       | TXOUT_SCRIPT_P2WSH \<Rightarrow> getSliceCopy script 2 32
       | TXOUT_SCRIPT_P2WPKH \<Rightarrow> getSliceCopy script 2 20
       | _ \<Rightarrow> Inr BadAddress)"

section \<open>Addresses of scripts\<close>

definition getTxOutScrAddr :: "network \<Rightarrow> (bytes \<Rightarrow> bytes) \<Rightarrow> bytes \<Rightarrow> TXOUT_SCRIPT_TYPE \<Rightarrow> bytes res" where
  "getTxOutScrAddr nc hash160 script type0 =
     bind_res (if type0 = TXOUT_SCRIPT_NONSTANDARD then getTxOutScriptType hash160 script else Inr type0) (\<lambda>type.
     bind_res (getPubkeyHashPrefix nc) (\<lambda>h160Prefix.
     bind_res (getScriptHashPrefix nc) (\<lambda>scriptPrefix.
       case type of
         TXOUT_SCRIPT_STDHASH160 \<Rightarrow> bind_res (getSliceCopy script 3 20) (\<lambda>b. Inr (h160Prefix # b))
       | TXOUT_SCRIPT_P2WPKH \<Rightarrow> bind_res (getSliceCopy script 2 20) (\<lambda>b. Inr (SCRIPT_PREFIX_P2WPKH # b))
       | TXOUT_SCRIPT_P2WSH \<Rightarrow> bind_res (getSliceCopy script 2 32) (\<lambda>b. Inr (SCRIPT_PREFIX_P2WSH # b))
       | TXOUT_SCRIPT_STDPUBKEY65 \<Rightarrow> bind_res (getSliceCopy script 1 65) (\<lambda>b. Inr (h160Prefix # hash160 b))
       | TXOUT_SCRIPT_STDPUBKEY33 \<Rightarrow> bind_res (getSliceCopy script 1 33) (\<lambda>b. Inr (h160Prefix # hash160 b))
       | TXOUT_SCRIPT_P2SH \<Rightarrow> bind_res (getSliceCopy script 2 20) (\<lambda>b. Inr (scriptPrefix # b))
       | TXOUT_SCRIPT_NONSTANDARD \<Rightarrow> Inr (SCRIPT_PREFIX_NONSTD # hash160 script)
       | TXOUT_SCRIPT_MULTISIG \<Rightarrow> bind_res (getMultisigUniqueKey hash160 script) (\<lambda>b. Inr (SCRIPT_PREFIX_MULTISIG # b))
       | TXOUT_SCRIPT_OPRETURN \<Rightarrow>
           let msg_pos = (if length script > 77 then 3 else if length script > 1 then 2 else 1)
           in bind_res (getSliceCopy script (int msg_pos) (sz_sub (length script) msg_pos)) (\<lambda>b. Inr (SCRIPT_PREFIX_NONSTD # b)))))"

record TxOutScriptRef =
  sr_type :: byte
  sr_script :: bytes

definition getTxOutScrAddrNoCopy :: "network \<Rightarrow> (bytes \<Rightarrow> bytes) \<Rightarrow> bytes \<Rightarrow> TxOutScriptRef res" where
  "getTxOutScrAddrNoCopy nc hash160 script =
     bind_res (getPubkeyHashPrefix nc) (\<lambda>p2pkh_prefix.
     bind_res (getScriptHashPrefix nc) (\<lambda>p2sh_prefix.
     bind_res (getTxOutScriptType hash160 script) (\<lambda>type.
       case type of
         TXOUT_SCRIPT_STDHASH160 \<Rightarrow> bind_res (getSliceCopy script 3 20) (\<lambda>b. Inr \<lparr>sr_type = p2pkh_prefix, sr_script = b\<rparr>)
       | TXOUT_SCRIPT_P2WPKH \<Rightarrow> bind_res (getSliceCopy script 2 20) (\<lambda>b. Inr \<lparr>sr_type = SCRIPT_PREFIX_P2WPKH, sr_script = b\<rparr>)
       | TXOUT_SCRIPT_P2WSH \<Rightarrow> bind_res (getSliceCopy script 2 32) (\<lambda>b. Inr \<lparr>sr_type = SCRIPT_PREFIX_P2WSH, sr_script = b\<rparr>)
       | TXOUT_SCRIPT_STDPUBKEY65 \<Rightarrow> bind_res (getSliceCopy script 1 65) (\<lambda>b. Inr \<lparr>sr_type = p2pkh_prefix, sr_script = hash160 b\<rparr>)
       | TXOUT_SCRIPT_STDPUBKEY33 \<Rightarrow> bind_res (getSliceCopy script 1 33) (\<lambda>b. Inr \<lparr>sr_type = p2pkh_prefix, sr_script = hash160 b\<rparr>)
       | TXOUT_SCRIPT_P2SH \<Rightarrow> bind_res (getSliceCopy script 2 20) (\<lambda>b. Inr \<lparr>sr_type = p2sh_prefix, sr_script = b\<rparr>)
       | TXOUT_SCRIPT_NONSTANDARD \<Rightarrow> Inr \<lparr>sr_type = SCRIPT_PREFIX_NONSTD, sr_script = hash160 script\<rparr>
       | TXOUT_SCRIPT_MULTISIG \<Rightarrow> bind_res (getMultisigUniqueKey hash160 script) (\<lambda>b. Inr \<lparr>sr_type = SCRIPT_PREFIX_MULTISIG, sr_script = b\<rparr>)
       | TXOUT_SCRIPT_OPRETURN \<Rightarrow>
           let pos = 1 + (if length script > 77 then 2 else 0) + (if length script > 1 then 1 else 0)
           in bind_res (getSliceCopy script (int pos) (sz_sub (length script) pos)) (\<lambda>b. Inr \<lparr>sr_type = SCRIPT_PREFIX_OPRETURN, sr_script = b\<rparr>))))"

definition sr_getScrAddr :: "TxOutScriptRef \<Rightarrow> bytes" where
  "sr_getScrAddr r = put_BinaryDataRef (sr_script r) (put_uint8_t (sr_type r) [])"

definition sr_setRef :: "bytes \<Rightarrow> TxOutScriptRef res" where
  "sr_setRef bd =
     bind_res (byte_at bd 0) (\<lambda>t.
     bind_res (getSliceCopy bd 1 (length bd - 1)) (\<lambda>b. Inr \<lparr>sr_type = t, sr_script = b\<rparr>))"

definition sr_less :: "TxOutScriptRef \<Rightarrow> TxOutScriptRef \<Rightarrow> bool" where
  "sr_less a b = (if sr_type a = sr_type b then bd_less (sr_script a) (sr_script b) else sr_type a < sr_type b)"

section \<open>Building scripts\<close>

definition getP2PKHScript :: "bytes \<Rightarrow> bytes res" where
  "getP2PKHScript scriptHash =
     (if length scriptHash \<noteq> 20 then Inl (Runtime_Error ''invalid P2PKH hash size'')
      else Inr (put_uint8_t 0xac (put_uint8_t 0x88 (put_BinaryDataRef scriptHash (put_uint8_t 20 (put_uint8_t 0xa9 (put_uint8_t 0x76 [])))))))"

definition getP2PKScript :: "bytes \<Rightarrow> bytes res" where
  "getP2PKScript pubkey =
     (if length pubkey \<noteq> 33 \<and> length pubkey \<noteq> 65 then Inl (Runtime_Error ''invalid pubkey size'')
      else Inr (put_uint8_t 0xac (put_BinaryDataRef pubkey (snd (put_var_int (of_nat (length pubkey)) [])))))"

definition getP2SHScript :: "bytes \<Rightarrow> bytes res" where
  "getP2SHScript scriptHash =
     (if length scriptHash \<noteq> 20 then Inl (Runtime_Error ''invalid P2SH hash size'')
      else Inr (put_uint8_t 0x87 (put_BinaryDataRef scriptHash (put_uint8_t 20 (put_uint8_t 0xa9 [])))))"

definition getP2WPKHOutputScript :: "bytes \<Rightarrow> bytes res" where
  "getP2WPKHOutputScript scriptHash =
     (if length scriptHash \<noteq> 20 then Inl (Runtime_Error ''invalid P2WPKH hash size'')
      else Inr (put_BinaryDataRef scriptHash (put_uint8_t 20 (put_uint8_t 0 []))))"

definition getP2WPKHWitnessScript :: "bytes \<Rightarrow> bytes res" where
  "getP2WPKHWitnessScript scriptHash =
     (if length scriptHash \<noteq> 20 then Inl (Runtime_Error ''invalid P2WPKH hash size'')
      else Inr (put_uint8_t 0xac (put_uint8_t 0x88 (put_BinaryDataRef scriptHash (put_uint8_t 20 (put_uint8_t 0xa9 (put_uint8_t 0x76 [])))))))"

definition getP2WSHOutputScript :: "bytes \<Rightarrow> bytes res" where
  "getP2WSHOutputScript scriptHash =
     (if length scriptHash \<noteq> 32 then Inl (Runtime_Error ''invalid P2WSH hash size'')
      else Inr (put_BinaryDataRef scriptHash (put_uint8_t 32 (put_uint8_t 0 []))))"

definition getP2WSHWitnessScript :: "bytes \<Rightarrow> bytes res" where
  "getP2WSHWitnessScript scriptHash =
     (if length scriptHash \<noteq> 32 then Inl (Runtime_Error ''invalid P2WSH hash size'')
      else Inr (put_uint8_t 0x87 (put_BinaryDataRef scriptHash (put_uint8_t 32 (put_uint8_t 0xa8 [])))))"

definition getTxOutScriptForScrAddr :: "bytes \<Rightarrow> bytes res" where
  "getTxOutScriptForScrAddr scrAddr =
     (if length scrAddr = 0 then Inl (Runtime_Error ''invalid scrAddr size'')
      else bind_res (get_uint8_t (setNewData scrAddr)) (\<lambda>(prefix, r).
        if prefix = SCRIPT_PREFIX_HASH160 \<or> prefix = SCRIPT_PREFIX_HASH160_TESTNET
        then bind_res (get_BinaryData (getSizeRemaining r) r) (\<lambda>(h, _). getP2PKHScript h)
        else if prefix = SCRIPT_PREFIX_P2SH \<or> prefix = SCRIPT_PREFIX_P2SH_TESTNET
        then bind_res (get_BinaryData (getSizeRemaining r) r) (\<lambda>(h, _). getP2SHScript h)
        else if prefix = SCRIPT_PREFIX_P2WPKH
        then bind_res (get_BinaryData (getSizeRemaining r) r) (\<lambda>(h, _). getP2WPKHOutputScript h)
        else if prefix = SCRIPT_PREFIX_P2WSH
        then bind_res (get_BinaryData (getSizeRemaining r) r) (\<lambda>(h, _). getP2WSHOutputScript h)
        else Inl (Runtime_Error ''unsupported scrAddr'')))"

definition getScriptTypeForScrAddr :: "network \<Rightarrow> bytes \<Rightarrow> TXOUT_SCRIPT_TYPE res" where
  "getScriptTypeForScrAddr nc scrAddr =
     (if length scrAddr = 21 then
        bind_res (getPubkeyHashPrefix nc) (\<lambda>h160Prefix.
        bind_res (getScriptHashPrefix nc) (\<lambda>scriptPrefix.
        bind_res (byte_at scrAddr 0) (\<lambda>prefix.
          Inr (if prefix = h160Prefix then TXOUT_SCRIPT_STDHASH160
               else if prefix = SCRIPT_PREFIX_P2WPKH then TXOUT_SCRIPT_P2WPKH
               else if prefix = scriptPrefix then TXOUT_SCRIPT_P2SH
               else TXOUT_SCRIPT_NONSTANDARD))))
      else if length scrAddr = 32 then
        bind_res (byte_at scrAddr 0) (\<lambda>prefix.
          Inr (if prefix = SCRIPT_PREFIX_P2WSH then TXOUT_SCRIPT_P2WSH else TXOUT_SCRIPT_NONSTANDARD))
      else Inr TXOUT_SCRIPT_NONSTANDARD)"

section \<open>Scripts and their addresses\<close>

lemma byte_at_simps [simp]:
  "i < length s \<Longrightarrow> byte_at s (int i) = Inr (s ! i)" "0 < i \<Longrightarrow> i \<le> length s \<Longrightarrow> byte_at s (- int i) = Inr (s ! (length s - i))"
  by (auto simp: byte_at_def Let_def nat_diff_distrib' algebra_simps)

lemma byte_at_first: "byte_at (b # s) 0 = Inr b"
  by (simp add: byte_at_def)

lemma byte_at_end: "byte_at (xs @ [a, b]) (- 1) = Inr b" "byte_at (xs @ [a, b]) (- 2) = Inr a"
  using byte_at_simps(2) [of 1 "xs @ [a, b]"] byte_at_simps(2) [of 2 "xs @ [a, b]"] by (simp_all add: nth_append)

lemma byte_is_nth:
  "i < length s \<Longrightarrow> byte_is s (int i) b \<longleftrightarrow> s ! i = b" "0 < i \<Longrightarrow> i \<le> length s \<Longrightarrow> byte_is s (- int i) b \<longleftrightarrow> s ! (length s - i) = b"
  by (simp_all add: byte_is_def)

lemmas byte_is_small = byte_is_nth(1) [of 0, simplified] byte_is_nth(1) [of 1, simplified] byte_is_nth(1) [of 2, simplified]
  byte_is_nth(2) [of 1, simplified] byte_is_nth(2) [of 2, simplified]

lemma split_first: "0 < length xs \<Longrightarrow> xs ! 0 = a \<Longrightarrow> xs = a # drop 1 xs"
  by (cases xs) auto

lemma split_last: "0 < length xs \<Longrightarrow> xs ! (length xs - 1) = a \<Longrightarrow> xs = take (length xs - 1) xs @ [a]"
  by (metis append_butlast_last_id butlast_conv_take last_conv_nth length_greater_0_conv)

text \<open>The shape of a script of each address type.\<close>

lemma shape_P2WPKH:
  assumes "length s = 22" "byte_is s 0 0x00" "byte_is s 1 0x14"
  shows "s = 0 # 20 # bslice 2 20 s"
  using assms by (cases s; cases "tl s") (auto simp: byte_is_small bslice_def)

lemma shape_P2WSH:
  assumes "length s = 34" "byte_is s 0 0x00" "byte_is s 1 0x20"
  shows "s = 0 # 32 # bslice 2 32 s"
  using assms by (cases s; cases "tl s") (auto simp: byte_is_small bslice_def)

lemma take_append_nth: "Suc n = length xs \<Longrightarrow> xs = take n xs @ [xs ! n]"
  by (metis lessI take_Suc_conv_app_nth take_all_iff order_refl)

lemma shape_P2SH:
  assumes "length s = 23" "byte_is s 0 0xa9" "byte_is s 1 0x14" "byte_is s (- 1) 0x87"
  shows "s = 0xa9 # 20 # bslice 2 20 s @ [0x87]"
proof -
  have "s \<noteq> []"
    using assms(1) by auto
  then have nth: "s ! 0 = 0xa9" "s ! 1 = 0x14" "s ! 22 = 0x87"
    using assms byte_is_small [of s] by simp_all
  obtain rest where s: "s = 0xa9 # 0x14 # rest" "length rest = 21"
    using assms(1) nth(1,2) by (cases s; cases "tl s") auto
  then show ?thesis
    using nth(3) take_append_nth [of 20 rest] by (simp add: bslice_def)
qed

lemma shape_STDHASH160:
  assumes "length s = 25" "byte_is s 0 0x76" "byte_is s 1 0xa9" "byte_is s 2 0x14" "byte_is s (- 2) 0x88" "byte_is s (- 1) 0xac"
  shows "s = 0x76 # 0xa9 # 20 # bslice 3 20 s @ [0x88, 0xac]"
proof -
  have "s \<noteq> []"
    using assms(1) by auto
  then have nth: "s ! 0 = 0x76" "s ! 1 = 0xa9" "s ! 2 = 0x14" "s ! 23 = 0x88" "s ! 24 = 0xac"
    using assms byte_is_small [of s] by simp_all
  obtain rest where s: "s = 0x76 # 0xa9 # 0x14 # rest" "length rest = 22"
    using assms(1) nth(1-3) by (cases s; cases "tl s"; cases "tl (tl s)") auto
  then have "rest = take 20 rest @ [rest ! 20, rest ! 21]"
    using take_append_nth [of 21 rest] take_Suc_conv_app_nth [of 20 rest] by simp
  then show ?thesis
    using nth(4,5) s(1) by (simp add: bslice_def)
qed

lemma getTxOutScriptType_cases:
  assumes "getTxOutScriptType hash160 s = Inr t"
  shows "t = TXOUT_SCRIPT_STDHASH160 \<Longrightarrow> s = 0x76 # 0xa9 # 20 # bslice 3 20 s @ [0x88, 0xac] \<and> length s = 25"
    "t = TXOUT_SCRIPT_P2SH \<Longrightarrow> s = 0xa9 # 20 # bslice 2 20 s @ [0x87] \<and> length s = 23"
    "t = TXOUT_SCRIPT_P2WPKH \<Longrightarrow> s = 0 # 20 # bslice 2 20 s \<and> length s = 22"
    "t = TXOUT_SCRIPT_P2WSH \<Longrightarrow> s = 0 # 32 # bslice 2 32 s \<and> length s = 34"
  using assms shape_STDHASH160 [of s] shape_P2SH [of s] shape_P2WPKH [of s] shape_P2WSH [of s]
  by (simp_all add: getTxOutScriptType_def Let_def bind_res_eq_Inr split: if_splits)

lemma getTxOutScriptType_build:
  "length h = 20 \<Longrightarrow> getTxOutScriptType hash160 (0x76 # 0xa9 # 20 # h @ [0x88, 0xac]) = Inr TXOUT_SCRIPT_STDHASH160"
  "length h = 20 \<Longrightarrow> getTxOutScriptType hash160 (0xa9 # 20 # h @ [0x87]) = Inr TXOUT_SCRIPT_P2SH"
  "length h = 20 \<Longrightarrow> getTxOutScriptType hash160 (0 # 20 # h) = Inr TXOUT_SCRIPT_P2WPKH"
  "length h = 32 \<Longrightarrow> getTxOutScriptType hash160 (0 # 32 # h) = Inr TXOUT_SCRIPT_P2WSH"
  by (simp_all add: getTxOutScriptType_def Let_def byte_is_small nth_append)

lemma build_scripts:
  "getP2PKHScript h = (if length h \<noteq> 20 then Inl (Runtime_Error ''invalid P2PKH hash size'') else Inr (0x76 # 0xa9 # 20 # h @ [0x88, 0xac]))"
  "getP2SHScript h = (if length h \<noteq> 20 then Inl (Runtime_Error ''invalid P2SH hash size'') else Inr (0xa9 # 20 # h @ [0x87]))"
  "getP2WPKHOutputScript h = (if length h \<noteq> 20 then Inl (Runtime_Error ''invalid P2WPKH hash size'') else Inr (0 # 20 # h))"
  "getP2WSHOutputScript h = (if length h \<noteq> 32 then Inl (Runtime_Error ''invalid P2WSH hash size'') else Inr (0 # 32 # h))"
  by (simp_all add: getP2PKHScript_def getP2SHScript_def getP2WPKHOutputScript_def getP2WSHOutputScript_def put_uint8_t_def put_BinaryDataRef_def)

lemma read_scrAddr:
  assumes "length h < 100"
  shows "\<exists>r. get_uint8_t (setNewData (p # h)) = Inr (p, r) \<and> (\<exists>r'. get_BinaryData (getSizeRemaining r) r = Inr (h, r'))"
proof -
  have ok: "brr_ok (setNewData (p # h))"
    using assms by simp
  obtain r where r: "get_uint8_t (setNewData (p # h)) = Inr (p, r)" "brr_ok r" "getCurrPtr r = h"
    using u8.dec_rest [OF ok, of p h] by (auto simp: setNewData_def getCurrPtr_def)
  then have "getSizeRemaining r = length h"
    by (simp add: getSizeRemaining_ok)
  then show ?thesis
    using r data.dec_rest [of r h "length h" "[]"] by auto
qed

lemma getTxOutScriptForScrAddr_eq:
  assumes "length h < 100"
  shows "getTxOutScriptForScrAddr (p # h) =
    (if p = SCRIPT_PREFIX_HASH160 \<or> p = SCRIPT_PREFIX_HASH160_TESTNET then getP2PKHScript h
     else if p = SCRIPT_PREFIX_P2SH \<or> p = SCRIPT_PREFIX_P2SH_TESTNET then getP2SHScript h
     else if p = SCRIPT_PREFIX_P2WPKH then getP2WPKHOutputScript h
     else if p = SCRIPT_PREFIX_P2WSH then getP2WSHOutputScript h
     else Inl (Runtime_Error ''unsupported scrAddr''))"
  using read_scrAddr [OF assms, of p] by (auto simp: getTxOutScriptForScrAddr_def)



section \<open>The two ways of computing an address\<close>

text \<open>
  C21: \<open>getTxOutScrAddrNoCopy\<close>, used when scanning, agrees with \<open>getTxOutScrAddr\<close> on every script that is
  not an \<open>OP_RETURN\<close> output, exceptions included; on \<open>OP_RETURN\<close> outputs the two never agree, since they
  file them under different prefixes.
\<close>

theorem scrAddr_NoCopy_agrees:
  assumes "prefixes_ok nc"
  shows "(getTxOutScriptType hash160 s \<noteq> Inr TXOUT_SCRIPT_OPRETURN \<longrightarrow>
      bind_res (getTxOutScrAddrNoCopy nc hash160 s) (\<lambda>r. Inr (sr_getScrAddr r)) = getTxOutScrAddr nc hash160 s TXOUT_SCRIPT_NONSTANDARD) \<and>
    (getTxOutScriptType hash160 s = Inr TXOUT_SCRIPT_OPRETURN \<longrightarrow>
      bind_res (getTxOutScrAddrNoCopy nc hash160 s) (\<lambda>r. Inr (sr_getScrAddr r)) \<noteq> getTxOutScrAddr nc hash160 s TXOUT_SCRIPT_NONSTANDARD)"
proof -
  note pre = prefixes_okD [OF assms]
  have agree: "bind_res (getTxOutScrAddrNoCopy nc hash160 s) (\<lambda>r. Inr (sr_getScrAddr r)) = getTxOutScrAddr nc hash160 s TXOUT_SCRIPT_NONSTANDARD"
    if "getTxOutScriptType hash160 s \<noteq> Inr TXOUT_SCRIPT_OPRETURN"
  proof (cases "getTxOutScriptType hash160 s")
    case (Inr t)
    then show ?thesis
      using that pre(1,2)
      by (cases t) (simp_all add: getTxOutScrAddrNoCopy_def getTxOutScrAddr_def sr_getScrAddr_def put_uint8_t_def put_BinaryDataRef_def bind_res_assoc)
  qed (simp add: getTxOutScrAddrNoCopy_def getTxOutScrAddr_def pre(1,2))
  have differ: "bind_res (getTxOutScrAddrNoCopy nc hash160 s) (\<lambda>r. Inr (sr_getScrAddr r)) \<noteq> getTxOutScrAddr nc hash160 s TXOUT_SCRIPT_NONSTANDARD"
    if op: "getTxOutScriptType hash160 s = Inr TXOUT_SCRIPT_OPRETURN"
  proof -
    have len: "0 < length s" "length s < 81"
      using op by (auto simp: getTxOutScriptType_def Let_def bind_res_eq_Inr split: if_splits)
    then have "\<exists>b. getSliceCopy s (int k) (sz_sub (length s) k) = Inr b" if "k \<le> length s" for k
      using that getSliceCopy_in_range [of k "length s - k" s] by simp
    note slices = this
    define p1 p2 :: nat where "p1 = (if length s > 77 then 3 else if length s > 1 then 2 else 1)"
      and "p2 = 1 + (if length s > 77 then 2 else 0) + (if length s > 1 then 1 else 0)"
    have "p1 \<le> length s" "p2 \<le> length s"
      using len(1) by (auto simp: p1_def p2_def Suc_le_eq simp del: length_greater_0_conv)
    from slices [OF this(1)] slices [OF this(2)] obtain b b' where
      "getSliceCopy s (int p1) (sz_sub (length s) p1) = Inr b" "getSliceCopy s (int p2) (sz_sub (length s) p2) = Inr b'"
      by blast
    then show ?thesis
      using op pre(1,2) by (simp only: getTxOutScrAddrNoCopy_def getTxOutScrAddr_def bind_res_Inr TXOUT_SCRIPT_TYPE.case Let_def if_True
          sr_getScrAddr_def put_uint8_t_def put_BinaryDataRef_def TxOutScriptRef.simps flip: p1_def p2_def) simp
  qed
  show ?thesis
    using agree differ by blast
qed

theorem scrAddr_NoCopy_agrees_witness:
  "bind_res (getTxOutScrAddrNoCopy mainnet (\<lambda>_. [5]) (0 # 20 # replicate 20 7)) (\<lambda>r. Inr (sr_getScrAddr r)) =
     getTxOutScrAddr mainnet (\<lambda>_. [5]) (0 # 20 # replicate 20 7) TXOUT_SCRIPT_NONSTANDARD \<and>
   bind_res (getTxOutScrAddrNoCopy mainnet (\<lambda>_. [5]) [0x6a, 1, 2]) (\<lambda>r. Inr (sr_getScrAddr r)) \<noteq>
     getTxOutScrAddr mainnet (\<lambda>_. [5]) [0x6a, 1, 2] TXOUT_SCRIPT_NONSTANDARD"
proof -
  have "getTxOutScriptType (\<lambda>_. [5]) [0x6a, 1, 2] = Inr TXOUT_SCRIPT_OPRETURN"
    by (simp add: getTxOutScriptType_def byte_is_def byte_at_first)
  moreover have "getTxOutScriptType (\<lambda>_. [5]) (0 # 20 # replicate 20 7) \<noteq> Inr TXOUT_SCRIPT_OPRETURN"
    using getTxOutScriptType_build(3) [of "replicate 20 7" "\<lambda>_. [5]"] by simp
  ultimately show ?thesis
    using scrAddr_NoCopy_agrees [OF mainnet_ok, of "\<lambda>_. [5]" "[0x6a, 1, 2]"]
      scrAddr_NoCopy_agrees [OF mainnet_ok, of "\<lambda>_. [5]" "0 # 20 # replicate 20 7"] by blast
qed



section \<open>Multisig keys\<close>

lemma bd_insort_commute: "bd_insort x (bd_insort y zs) = bd_insort y (bd_insort x zs)"
proof (induction zs)
  case Nil
  then show ?case
    using bd_less_total [of x y] bd_less_trans [of x y x] bd_less_irrefl [of x] by auto
next
  case (Cons z zs)
  then show ?case
    using bd_less_total [of x y] bd_less_trans bd_less_irrefl by (auto split: if_splits)
qed

lemma bd_sort_mset: "mset xs = mset ys \<Longrightarrow> bd_sort xs = bd_sort ys"
  unfolding bd_sort_def foldr_conv_fold
  by (rule fun_cong [OF fold_multiset_equiv]) (auto simp: fun_eq_iff bd_insort_commute)

text \<open>An M-of-N script: the count M, the sized keys, the count N and \<open>OP_CHECKMULTISIG\<close>.\<close>

definition multisig_script :: "nat \<Rightarrow> bytes list \<Rightarrow> bytes" where
  "multisig_script m keys = [of_nat (80 + m)] @ concat (map (\<lambda>k. of_nat (length k) # k) keys) @ [of_nat (80 + length keys), 0xae]"

definition keys_ok :: "bytes list \<Rightarrow> bool" where
  "keys_ok keys \<longleftrightarrow> keys \<noteq> [] \<and> length keys \<le> 16 \<and> (\<forall>k \<in> set keys. length k = 33 \<or> length k = 65)"

lemma pk_loop_keys:
  "brr_ok r \<Longrightarrow> getCurrPtr r = concat (map (\<lambda>k. of_nat (length k) # k) keys) @ ss \<Longrightarrow> \<forall>k \<in> set keys. length k = 33 \<or> length k = 65 \<Longrightarrow>
    pk_loop (length keys) r = Inr (True, keys)"
proof (induction keys arbitrary: r)
  case (Cons k keys)
  let ?n = "of_nat (length k) :: byte"
  have k: "length k = 33 \<or> length k = 65"
    using Cons.prems(3) by simp
  then have n: "unat ?n = length k" "?n = 0x41 \<or> ?n = 0x21"
    by auto
  obtain r1 where r1: "get_uint8_t r = Inr (?n, r1)" "brr_ok r1" "getCurrPtr r1 = k @ concat (map (\<lambda>k. of_nat (length k) # k) keys) @ ss"
    using u8.dec_rest [OF Cons.prems(1), of ?n "k @ concat (map (\<lambda>k. of_nat (length k) # k) keys) @ ss"] Cons.prems(2) by auto
  obtain r2 where r2: "get_BinaryDataRef (length k) r1 = Inr (k, r2)" "brr_ok r2" "getCurrPtr r2 = concat (map (\<lambda>k. of_nat (length k) # k) keys) @ ss"
    using ref.dec_rest [OF r1(2) _ r1(3)] by auto
  have "pk_loop (length keys) r2 = Inr (True, keys)"
    using Cons.IH [OF r2(2,3)] Cons.prems(3) by simp
  then show ?case
    using r1(1) r2(1) n by auto
qed simp

lemma multisig_keys_length: "keys_ok keys \<Longrightarrow> 34 * length keys \<le> length (concat (map (\<lambda>k. of_nat (length k) # k) keys)) \<and>
    length (concat (map (\<lambda>k. of_nat (length k) # k) keys)) \<le> 66 * length keys"
proof -
  have "34 * length ks \<le> length (concat (map (\<lambda>k. of_nat (length k) # k) ks)) \<and>
    length (concat (map (\<lambda>k. of_nat (length k) # k) ks)) \<le> 66 * length ks" if "\<forall>k \<in> set ks. length k = 33 \<or> length k = 65" for ks :: "bytes list"
    using that by (induction ks) auto
  then show "keys_ok keys \<Longrightarrow> ?thesis"
    by (simp add: keys_ok_def)
qed

lemma getMultisigPubKeyList_script:
  assumes "1 \<le> m" "m \<le> 16" "keys_ok keys"
  shows "getMultisigPubKeyList (multisig_script m keys) = Inr (of_nat m, keys)"
proof -
  let ?s = "multisig_script m keys" and ?body = "concat (map (\<lambda>k. of_nat (length k) # k) keys)"
  have bytes: "byte_at ?s (- 1) = Inr 0xae" "byte_at ?s 0 = Inr (of_nat (80 + m))" "byte_at ?s (- 2) = Inr (of_nat (80 + length keys))"
    using byte_at_end [of "of_nat (80 + m) # ?body"] by (simp_all add: multisig_script_def byte_at_first)
  have small: "length ?s < size_t_mod"
    using multisig_keys_length [OF assms(3)] assms(3) by (simp add: multisig_script_def keys_ok_def)
  have n: "1 \<le> length keys" "length keys \<le> 16"
    using assms(3) by (auto simp: keys_ok_def Suc_le_eq)
  have count_plain: "unat (of_nat (80 + k) :: byte) = 80 + k" if "k \<le> 16" for k
    using that by (simp add: unsigned_of_nat take_bit_nat_eq_self del: of_nat_add)
  have count: "unat (of_nat (80 + k) - 80 :: byte) = k" "(of_nat (80 + k) - 80 :: byte) = of_nat k" if "k \<le> 16" for k
    using that by (simp_all add: unsigned_of_nat take_bit_nat_eq_self)
  have range: "\<not> (of_nat (80 + k) < (81 :: byte))" "\<not> (of_nat (80 + k) > (96 :: byte))" if "1 \<le> k" "k \<le> 16" for k
    using that count_plain [of k] by (simp_all add: word_less_nat_alt del: of_nat_add)
  obtain r where r: "advance 1 (setNewData ?s) = Inr r" "brr_ok r" "getCurrPtr r = ?body @ [of_nat (80 + length keys), 0xae]"
    using small by (auto simp: advance_ok setNewData_def getCurrPtr_def multisig_script_def brr_ok_def)
  have "pk_loop (length keys) r = Inr (True, keys)"
    using pk_loop_keys [OF r(2,3)] assms(3) by (simp add: keys_ok_def)
  then show ?thesis
    using bytes r(1) count [OF assms(2)] count [OF n(2)] range [OF assms(1,2)] range [OF n]
    by (simp add: getMultisigPubKeyList_def del: of_nat_add)
qed

lemma multisig_unique_key:
  assumes "1 \<le> m" "m \<le> 16" "keys_ok keys"
  shows "getMultisigUniqueKey hash160 (multisig_script m keys) = Inr (of_nat m # of_nat (length keys) # concat (bd_sort (map hash160 keys)))"
proof -
  have "of_nat m \<noteq> (0 :: byte)"
  proof
    assume "of_nat m = (0 :: byte)"
    then have "unat (of_nat m :: byte) = 0"
      by simp
    then show False
      using assms(1,2) by (simp add: unsigned_of_nat take_bit_nat_eq_self)
  qed
  then show ?thesis
    using getMultisigPubKeyList_script [OF assms] by (simp add: getMultisigUniqueKey_def getMultisigAddrList_def Let_def put_uint8_t_def put_BinaryDataRef_def)
qed

lemma multisig_type:
  assumes "1 \<le> m" "m \<le> 16" "keys_ok keys"
  shows "getTxOutScriptType hash160 (multisig_script m keys) = Inr TXOUT_SCRIPT_MULTISIG"
proof -
  let ?s = "multisig_script m keys" and ?b = "of_nat (80 + m) :: byte"
  have "unat ?b = 80 + m"
    using assms(2) by (simp add: unsigned_of_nat take_bit_nat_eq_self del: of_nat_add)
  then have "?b \<noteq> 0x6a" "?b \<noteq> 0" "?b \<noteq> 0x76" "?b \<noteq> 0x41" "?b \<noteq> 0x21" "?b \<noteq> 0xa9"
    using assms(1,2) by (auto simp del: of_nat_add)
  then have first: "\<not> byte_is ?s 0 0x6a" "\<not> byte_is ?s 0 0x00" "\<not> byte_is ?s 0 0x76" "\<not> byte_is ?s 0 0x41" "\<not> byte_is ?s 0 0x21" "\<not> byte_is ?s 0 0xa9"
    by (simp_all add: byte_is_def multisig_script_def byte_at_first del: of_nat_add)
  have "1 \<le> length keys"
    using assms(3) by (cases keys) (auto simp: keys_ok_def)
  then have long: "\<not> length ?s < 21"
    using multisig_keys_length [OF assms(3)] by (simp add: multisig_script_def)
  have last: "byte_is ?s (- 1) 0xae"
    using byte_at_end(1) [of "of_nat (80 + m) # concat (map (\<lambda>k. of_nat (length k) # k) keys)"] by (simp add: byte_is_def multisig_script_def)
  show ?thesis
    using first long last multisig_unique_key [OF assms] by (simp add: getTxOutScriptType_def Let_def isMultisigScript_def)
qed

text \<open>
  C22: Every M-of-N script over compressed or uncompressed keys is recognised as multisig, and its address
  does not depend on the order of the keys.
\<close>

theorem multisig_address:
  assumes "1 \<le> m" "m \<le> 16" "keys_ok keys" "mset keys' = mset keys"
  shows "getTxOutScriptType hash160 (multisig_script m keys) = Inr TXOUT_SCRIPT_MULTISIG \<and>
    getTxOutScrAddr nc hash160 (multisig_script m keys') TXOUT_SCRIPT_NONSTANDARD = getTxOutScrAddr nc hash160 (multisig_script m keys) TXOUT_SCRIPT_NONSTANDARD"
proof -
  have ok': "keys_ok keys'"
    using assms(3) mset_eq_setD [OF assms(4)] mset_eq_length [OF assms(4)] by (auto simp: keys_ok_def)
  have "bd_sort (map hash160 keys') = bd_sort (map hash160 keys)"
    using assms(4) by (intro bd_sort_mset) (metis mset_map)
  then have "getMultisigUniqueKey hash160 (multisig_script m keys') = getMultisigUniqueKey hash160 (multisig_script m keys)"
    using multisig_unique_key [OF assms(1-3)] multisig_unique_key [OF assms(1,2) ok'] mset_eq_length [OF assms(4)] by simp
  then show ?thesis
    using multisig_type [OF assms(1-3)] multisig_type [OF assms(1,2) ok'] by (simp add: getTxOutScrAddr_def)
qed

theorem multisig_address_witness:
  "getTxOutScriptType (take 2) (multisig_script 1 [replicate 33 2, replicate 65 4]) = Inr TXOUT_SCRIPT_MULTISIG \<and>
   getTxOutScrAddr mainnet (take 2) (multisig_script 1 [replicate 65 4, replicate 33 2]) TXOUT_SCRIPT_NONSTANDARD =
     getTxOutScrAddr mainnet (take 2) (multisig_script 1 [replicate 33 2, replicate 65 4]) TXOUT_SCRIPT_NONSTANDARD"
  by (rule multisig_address) (auto simp: keys_ok_def)

text \<open>
  C24: \<open>getTxOutScriptType\<close> does not classify every script: one that starts and ends like a multisig script
  but is too short for its key throws out of the classification.
\<close>

theorem truncated_multisig_throws:
  assumes "17 \<le> length body" "length body < 63"
  shows "getTxOutScriptType hash160 ([0x51, 0x41] @ body @ [0x51, 0xae]) = Inl (Runtime_Error ''buffer overflow'')"
proof -
  let ?s = "[0x51, 0x41] @ body @ [0x51, 0xae]"
  have small: "length ?s < size_t_mod"
    using assms by simp
  obtain r where r: "advance 1 (setNewData ?s) = Inr r" "brr_ok r" "getCurrPtr r = [0x41] @ (body @ [0x51, 0xae])"
    using small by (auto simp: advance_ok setNewData_def getCurrPtr_def brr_ok_def)
  obtain r1 where r1: "get_uint8_t r = Inr (0x41, r1)" "brr_ok r1" "getCurrPtr r1 = body @ [0x51, 0xae]"
    using u8.dec_rest [OF r(2) _ r(3)] by auto
  have "get_BinaryDataRef 65 r1 = Inl (Runtime_Error ''buffer overflow'')"
    using r1(2,3) assms(2) by (simp add: get_BinaryDataRef_def checked_read_ok)
  then have loop: "pk_loop 1 r = Inl (Runtime_Error ''buffer overflow'')"
    using r1(1) by simp
  have bytes: "byte_at ?s (- 1) = Inr 0xae" "byte_at ?s 0 = Inr 0x51" "byte_at ?s (- 2) = Inr 0x51"
    using byte_at_end [of "[0x51, 0x41] @ body"] by (simp_all add: byte_at_first)
  then have "getMultisigPubKeyList ?s = Inl (Runtime_Error ''buffer overflow'')"
    using r(1) loop by (simp add: getMultisigPubKeyList_def)
  then show ?thesis
    using assms bytes by (simp add: getTxOutScriptType_def Let_def isMultisigScript_def getMultisigUniqueKey_def getMultisigAddrList_def byte_is_def)
qed

theorem truncated_multisig_throws_witness:
  "getTxOutScriptType (take 2) ([0x51, 0x41] @ replicate 17 0 @ [0x51, 0xae]) = Inl (Runtime_Error ''buffer overflow'')"
  by (rule truncated_multisig_throws) simp_all

end
