(* ===== verification/Script_Push.thy ===== *)
theory Script_Push
  imports Script_Class
begin

text \<open>
  Push-only scripts and inputs (BtcUtils.h): the header in front of pushed data, splitting a script
  into the data it pushes, and the classification of input scripts with the address an input spends.
\<close>

section \<open>Push headers\<close>

definition getPushDataHeader :: "bytes \<Rightarrow> bytes res" where
  "getPushDataHeader data =
     (if length data \<le> 75 then Inr (put_uint8_t (of_nat (length data)) [])
      else if length data < 255 then Inr (put_uint8_t (of_nat (length data)) (put_uint8_t 76 []))
      else if length data < 65535 then Inr (put_uint16_t (of_nat (length data)) ENDIAN_LITTLE (put_uint8_t 77 []))
      else if length data < 4294967295 then Inr (put_uint32_t (of_nat (length data)) ENDIAN_LITTLE (put_uint8_t 78 []))
      else Inl (Runtime_Error ''pushdata exceeds size limit''))"

section \<open>Splitting\<close>

text \<open>
  One pass of the loop: the data pushed by the next operation, or \<open>None\<close> when the operation is not
  a push. The length behind \<open>OP_PUSHDATA4\<close> is stored in a \<open>uint16_t\<close>.
\<close>

definition push_op :: "brr \<Rightarrow> (bytes \<times> brr) option res" where
  "push_op r =
     bind_res (get_uint8_t r) (\<lambda>(nextOp, r1).
       if nextOp = 0 then bind_res (get_BinaryDataRef 1 (rewind 1 r1)) (\<lambda>x. Inr (Some x))
       else if nextOp < 76 then bind_res (get_BinaryDataRef (unat nextOp) r1) (\<lambda>x. Inr (Some x))
       else if nextOp = 76 then
         bind_res (get_uint8_t r1) (\<lambda>(nb, r2). bind_res (get_BinaryDataRef (unat nb) r2) (\<lambda>x. Inr (Some x)))
       else if nextOp = 77 then
         bind_res (get_uint16_t ENDIAN_LITTLE r1) (\<lambda>(nb, r2). bind_res (get_BinaryDataRef (unat nb) r2) (\<lambda>x. Inr (Some x)))
       else if nextOp = 78 then
         bind_res (get_uint32_t ENDIAN_LITTLE r1) (\<lambda>(nb, r2). bind_res (get_BinaryDataRef (unat (ucast nb :: u16)) r2) (\<lambda>x. Inr (Some x)))
       else if nextOp > 78 \<and> nextOp < 97 \<and> nextOp \<noteq> 80 then
         bind_res (get_BinaryDataRef 1 (rewind 1 r1)) (\<lambda>x. Inr (Some x))
       else Inr None)"

text \<open>Every pass consumes a byte, whatever state the reader is in.\<close>

lemma int_sz_sub: "int (sz_sub a b) = (int a - int b) mod 2 ^ 64"
proof -
  have "b mod size_t_mod \<le> size_t_mod"
    by (simp add: less_imp_le)
  then have "int (sz_sub a b) = (int a + (2 ^ 64 - int b mod 2 ^ 64)) mod 2 ^ 64"
    by (simp add: sz_sub_def zmod_int of_nat_diff add_diff_eq)
  also have "\<dots> = ((int a - int b mod 2 ^ 64) + 2 ^ 64) mod 2 ^ 64"
    by (simp only: diff_conv_add_uminus ac_simps)
  also have "\<dots> = (int a - int b) mod 2 ^ 64"
    by (simp only: mod_add_self2 mod_diff_right_eq)
  finally show ?thesis .
qed

lemma int_sz_add: "int (sz_add a b) = (int a + int b) mod 2 ^ 64"
  by (simp add: sz_add_def zmod_int)

lemma sz_sub_add:
  assumes "n \<le> sz_sub t p"
  shows "sz_sub t (sz_add p n) = sz_sub t p - n"
proof -
  have "int (sz_sub t (sz_add p n)) = (int (sz_sub t p) - int n) mod 2 ^ 64"
    by (simp add: int_sz_sub int_sz_add mod_simps algebra_simps)
  also have "\<dots> = int (sz_sub t p) - int n"
    using assms sz_sub_less [of t p] by simp
  finally show ?thesis
    using assms by linarith
qed

lemma checked_read_remaining:
  "checked_read n r = Inr (b, r') \<Longrightarrow> getSizeRemaining r' = getSizeRemaining r - n \<and> n \<le> getSizeRemaining r"
  by (auto simp: checked_read_def getSizeRemaining_def sz_sub_add bind_res_eq_Inr split: if_splits)

lemma get_uint8_t_remaining:
  "get_uint8_t r = Inr (b, r') \<Longrightarrow> getSizeRemaining r' < getSizeRemaining r \<and> brr_pos r' = sz_add (brr_pos r) 1 \<and> brr_total r' = brr_total r"
  by (auto simp: get_uint8_t_def checked_read_def getSizeRemaining_def sz_sub_add bind_res_eq_Inr split: if_splits)

lemma rewind_remaining:
  assumes "get_uint8_t r = Inr (b, r')"
  shows "getSizeRemaining (rewind 1 r') \<le> getSizeRemaining r"
proof (cases "sz_sub (brr_pos r') 1 > brr_pos r'")
  case True
  then have "brr_pos r' = 0"
    using get_uint8_t_remaining [OF assms] by (cases "brr_pos r'") (simp_all add: sz_add_def)
  then show ?thesis
    using get_uint8_t_remaining [OF assms] True by (auto simp: rewind_def getSizeRemaining_def)
next
  case False
  have "int (sz_sub (brr_total r) (sz_sub (brr_pos r') 1)) = int (getSizeRemaining r)"
    using get_uint8_t_remaining [OF assms] by (simp add: getSizeRemaining_def int_sz_sub int_sz_add mod_simps algebra_simps)
  then show ?thesis
    using False get_uint8_t_remaining [OF assms] by (simp add: rewind_def getSizeRemaining_def)
qed

lemma get_more_remaining:
  "get_BinaryDataRef n r = Inr (d, r') \<Longrightarrow> getSizeRemaining r' \<le> getSizeRemaining r"
  "get_BinaryDataRef 1 r = Inr (d, r') \<Longrightarrow> getSizeRemaining r' < getSizeRemaining r"
  "get_uint16_t e r = Inr (v, r') \<Longrightarrow> getSizeRemaining r' \<le> getSizeRemaining r"
  "get_uint32_t e r = Inr (w, r') \<Longrightarrow> getSizeRemaining r' \<le> getSizeRemaining r"
  by (auto simp: get_BinaryDataRef_def get_uint16_t_def get_uint32_t_def bind_res_eq_Inr dest: checked_read_remaining)

lemma push_op_remaining:
  assumes "push_op r = Inr (Some (d, r'))"
  shows "getSizeRemaining r' < getSizeRemaining r"
proof -
  obtain b r1 where r1: "get_uint8_t r = Inr (b, r1)"
    using assms by (cases "get_uint8_t r") (auto simp: push_op_def)
  have less: "getSizeRemaining r1 < getSizeRemaining r"
    using get_uint8_t_remaining [OF r1] by simp
  consider "get_BinaryDataRef 1 (rewind 1 r1) = Inr (d, r')" | n where "get_BinaryDataRef n r1 = Inr (d, r')"
    | n nb r2 where "get_uint8_t r1 = Inr (nb, r2)" "get_BinaryDataRef n r2 = Inr (d, r')"
    | n nb r2 where "get_uint16_t ENDIAN_LITTLE r1 = Inr (nb, r2)" "get_BinaryDataRef n r2 = Inr (d, r')"
    | n nb r2 where "get_uint32_t ENDIAN_LITTLE r1 = Inr (nb, r2)" "get_BinaryDataRef n r2 = Inr (d, r')"
    using assms r1 by (auto simp: push_op_def bind_res_eq_Inr split: if_splits)
  then show ?thesis
  proof cases
    case 1
    then show ?thesis
      using get_more_remaining(2) [OF 1] rewind_remaining [OF r1] by linarith
  next
    case 2
    then show ?thesis
      using get_more_remaining(1) [OF 2] less by linarith
  next
    case 3
    then show ?thesis
      using get_more_remaining(1) [OF 3(2)] get_uint8_t_remaining [OF 3(1)] less by linarith
  next
    case 4
    then show ?thesis
      using get_more_remaining(1) [OF 4(2)] get_more_remaining(3) [OF 4(1)] less by linarith
  next
    case 5
    then show ?thesis
      using get_more_remaining(1) [OF 5(2)] get_more_remaining(4) [OF 5(1)] less by linarith
  qed
qed

function split_loop :: "bytes list \<Rightarrow> brr \<Rightarrow> bytes list res" where
  "split_loop opList r =
     (if getSizeRemaining r > 0 then
        (case push_op r of
           Inl e \<Rightarrow> Inl e
         | Inr None \<Rightarrow> Inr []
         | Inr (Some (d, r')) \<Rightarrow> split_loop (opList @ [d]) r')
      else Inr opList)"
  by pat_completeness auto
termination
  by (relation "measure (\<lambda>(_, r). getSizeRemaining r)") (auto dest: push_op_remaining)

declare split_loop.simps [simp del]

definition splitPushOnlyScriptRefs :: "bytes \<Rightarrow> bytes list res" where
  "splitPushOnlyScriptRefs script = split_loop [] (setNewData script)"

definition splitPushOnlyScript :: "bytes \<Rightarrow> bytes list res" where
  "splitPushOnlyScript script = bind_res (splitPushOnlyScriptRefs script) (\<lambda>refs. Inr (map (\<lambda>r. r) refs))"

definition getLastPushDataInScript :: "bytes \<Rightarrow> bytes res" where
  "getLastPushDataInScript script =
     bind_res (splitPushOnlyScriptRefs script) (\<lambda>refs. Inr (if refs = [] then [] else refs ! (length refs - 1)))"

section \<open>Input scripts\<close>

definition EmptyHash :: bytes where
  "EmptyHash = replicate 32 0"

text \<open>\<open>s[i] == a && s[j] == b\<close>, reading the second byte only when the first one matches.\<close>

definition both_bytes :: "bytes \<Rightarrow> int \<Rightarrow> byte \<Rightarrow> int \<Rightarrow> byte \<Rightarrow> bool res" where
  "both_bytes s i a j b =
     bind_res (byte_at s i) (\<lambda>x. if x = a then bind_res (byte_at s j) (\<lambda>y. Inr (y = b)) else Inr False)"

definition sig_tail :: "bytes \<Rightarrow> TXIN_SCRIPT_TYPE res" where
  "sig_tail script =
     bind_res (both_bytes script 1 0x30 3 0x02) (\<lambda>sig.
       if \<not> sig then Inr TXIN_SCRIPT_NONSTANDARD
       else bind_res (byte_at script 2) (\<lambda>b.
         let sigSize = unat b + 4; keySizeFull = 66; keySizeCompr = 34
         in Inr (if length script = sigSize then TXIN_SCRIPT_SPENDPUBKEY
                 else if length script = sigSize + keySizeFull then TXIN_SCRIPT_STDUNCOMPR
                 else if length script = sigSize + keySizeCompr then TXIN_SCRIPT_STDCOMPR
                 else TXIN_SCRIPT_NONSTANDARD)))"

definition getTxInScriptType :: "(bytes \<Rightarrow> bytes) \<Rightarrow> bytes \<Rightarrow> bytes \<Rightarrow> TXIN_SCRIPT_TYPE res" where
  "getTxInScriptType hash160 script prevTxHash =
     (if prevTxHash = EmptyHash then Inr TXIN_SCRIPT_COINBASE
      else if length script = 0 then Inr TXIN_SCRIPT_WITNESS
      else if length script = 23 \<and> byte_is script 1 0x00 \<and> byte_is script 2 0x14 then Inr TXIN_SCRIPT_P2WPKH_P2SH
      else if length script = 35 \<and> byte_is script 1 0x00 \<and> byte_is script 2 0x20 then Inr TXIN_SCRIPT_P2WSH_P2SH
      else bind_res (getLastPushDataInScript script) (\<lambda>lastPush.
        bind_res (getTxOutScriptType hash160 lastPush) (\<lambda>t.
          if t \<noteq> TXOUT_SCRIPT_NONSTANDARD then Inr TXIN_SCRIPT_SPENDP2SH
          else bind_res (byte_at script 0) (\<lambda>b0.
            if b0 = 0x00 then
              bind_res (splitPushOnlyScriptRefs script) (\<lambda>splitScr.
                if length splitScr = 0 then Inr TXIN_SCRIPT_NONSTANDARD
                else bind_res (both_bytes script 2 0x30 4 0x02) (\<lambda>multi.
                  if multi then Inr TXIN_SCRIPT_SPENDMULTI else sig_tail script))
            else sig_tail script))))"

definition getTxInAddrFromType :: "(bytes \<Rightarrow> bytes) \<Rightarrow> bytes \<Rightarrow> TXIN_SCRIPT_TYPE \<Rightarrow> bytes res" where
  "getTxInAddrFromType hash160 script type =
     (case type of
        TXIN_SCRIPT_STDUNCOMPR \<Rightarrow>
          if length script < 65 then Inl (Block_Deserializing '''')
          else bind_res (getSliceCopy script (- 65) 65) (\<lambda>k. Inr (hash160 k))
      | TXIN_SCRIPT_STDCOMPR \<Rightarrow>
          if length script < 33 then Inl (Block_Deserializing '''')
          else bind_res (getSliceCopy script (- 33) 33) (\<lambda>k. Inr (hash160 k))
      | TXIN_SCRIPT_SPENDP2SH \<Rightarrow>
          bind_res (splitPushOnlyScriptRefs script) (\<lambda>pushVect.
            if pushVect = [] then Inl Undefined_Behaviour
            else Inr (hash160 (pushVect ! (length pushVect - 1))))
      | _ \<Rightarrow> Inr BadAddress)"

definition getTxInAddr :: "(bytes \<Rightarrow> bytes) \<Rightarrow> bytes \<Rightarrow> bytes \<Rightarrow> TXIN_SCRIPT_TYPE \<Rightarrow> bytes res" where
  "getTxInAddr hash160 script prevTxHash type =
     bind_res (if type = TXIN_SCRIPT_NONSTANDARD then getTxInScriptType hash160 script prevTxHash else Inr type)
       (\<lambda>t. getTxInAddrFromType hash160 script t)"

section \<open>Splitting what was pushed\<close>

definition push_bytes :: "bytes \<Rightarrow> bytes" where
  "push_bytes data = (case getPushDataHeader data of Inl e \<Rightarrow> [] | Inr h \<Rightarrow> h @ data)"

lemma rewind_get_uint8_t: "brr_ok r \<Longrightarrow> get_uint8_t r = Inr (b, r1) \<Longrightarrow> rewind 1 r1 = r"
  by (auto simp: get_uint8_t_def checked_read_ok brr_ok_def getCurrPtr_def bind_res_eq_Inr rewind_def Let_def split: if_splits)

lemma push_op_single:
  assumes "brr_ok r" "getCurrPtr r = b # ss" "b = 0 \<or> 78 < b \<and> b < 97 \<and> b \<noteq> 80"
  shows "\<exists>r'. push_op r = Inr (Some ([b], r')) \<and> brr_ok r' \<and> getCurrPtr r' = ss"
proof -
  obtain r1 where r1: "get_uint8_t r = Inr (b, r1)"
    using u8.dec_rest [OF assms(1), of b ss] assms(2) by auto
  obtain r2 where r2: "get_BinaryDataRef 1 r = Inr ([b], r2)" "brr_ok r2" "getCurrPtr r2 = ss"
    using ref.dec_rest [where n = 1 and v = "[b]" and ss = ss, OF assms(1)] assms(2) by auto
  have "b \<noteq> 0 \<Longrightarrow> \<not> b < 76 \<and> b \<noteq> 76 \<and> b \<noteq> 77 \<and> b \<noteq> 78"
    using assms(3) by (auto simp: word_less_nat_alt)
  then show ?thesis
    using assms(3) r1 r2 rewind_get_uint8_t [OF assms(1) r1] by (auto simp: push_op_def)
qed

lemma push_op_short:
  assumes "brr_ok r" "getCurrPtr r = of_nat (length d) # d @ ss" "d \<noteq> []" "length d \<le> 75"
  shows "\<exists>r'. push_op r = Inr (Some (d, r')) \<and> brr_ok r' \<and> getCurrPtr r' = ss"
proof -
  obtain r1 where r1: "get_uint8_t r = Inr (of_nat (length d), r1)" "brr_ok r1" "getCurrPtr r1 = d @ ss"
    using u8.dec_rest [OF assms(1), of "of_nat (length d)" "d @ ss"] assms(2) by auto
  obtain r2 where r2: "get_BinaryDataRef (length d) r1 = Inr (d, r2)" "brr_ok r2" "getCurrPtr r2 = ss"
    using ref.dec_rest [where n = "length d" and v = d and ss = ss, OF r1(2)] r1(3) by auto
  have n: "unat (of_nat (length d) :: byte) = length d"
    using assms(4) by (simp add: unsigned_of_nat take_bit_nat_eq_self)
  have "(of_nat (length d) :: byte) \<noteq> 0" "(of_nat (length d) :: byte) < 76"
    using n assms(3,4) by (auto simp: word_less_nat_alt dest: arg_cong [where f = unat])
  then show ?thesis
    using r1(1) r2 n by (simp add: push_op_def)
qed

lemma push_op_sized:
  assumes "brr_ok r" "getCurrPtr r = push_bytes d @ ss" "75 < length d" "length d < 4294967295"
  shows "\<exists>r'. push_op r = Inr (Some (take (length d mod 65536) d, r')) \<and> brr_ok r' \<and>
    getCurrPtr r' = drop (length d mod 65536) d @ ss"
proof -
  let ?n = "length d mod 65536"
  have data: "\<exists>r'. get_BinaryDataRef ?n q = Inr (take ?n d, r') \<and> brr_ok r' \<and> getCurrPtr r' = drop ?n d @ ss"
    if "brr_ok q" "getCurrPtr q = d @ ss" for q
    using ref.dec_rest [where n = ?n and v = "take ?n d" and ss = "drop ?n d @ ss", OF that(1)] that(2) by (auto simp: mod_le_divisor)
  consider "length d < 255" | "\<not> length d < 255" "length d < 65535" | "\<not> length d < 65535"
    by linarith
  then show ?thesis
  proof cases
    case 1
    then have c: "getCurrPtr r = 76 # [of_nat (length d)] @ (d @ ss)"
      using assms(2,3) by (simp add: push_bytes_def getPushDataHeader_def put_uint8_t_def)
    obtain r1 where r1: "get_uint8_t r = Inr (76, r1)" "brr_ok r1" "getCurrPtr r1 = [of_nat (length d)] @ (d @ ss)"
      using u8.dec_rest [OF assms(1), of 76] c by auto
    obtain r2 where r2: "get_uint8_t r1 = Inr (of_nat (length d), r2)" "brr_ok r2" "getCurrPtr r2 = d @ ss"
      using u8.dec_rest [OF r1(2) _ r1(3)] by auto
    have "unat (of_nat (length d) :: byte) = ?n"
      using 1 by (simp add: unsigned_of_nat take_bit_nat_eq_self)
    then show ?thesis
      using r1(1) r2 data [OF r2(2,3)] by (auto simp: push_op_def)
  next
    case 2
    then have c: "getCurrPtr r = 77 # bytes_of_int ENDIAN_LITTLE (of_nat (length d) :: u16) @ (d @ ss)"
      using assms(2,3) by (simp add: push_bytes_def getPushDataHeader_def put_uint8_t_def put_uint16_t_def)
    obtain r1 where r1: "get_uint8_t r = Inr (77, r1)" "brr_ok r1" "getCurrPtr r1 = bytes_of_int ENDIAN_LITTLE (of_nat (length d) :: u16) @ (d @ ss)"
      using u8.dec_rest [OF assms(1), of 77] c by auto
    obtain r2 where r2: "get_uint16_t ENDIAN_LITTLE r1 = Inr (of_nat (length d), r2)" "brr_ok r2" "getCurrPtr r2 = d @ ss"
      using u16.dec_rest [OF r1(2) _ r1(3)] by auto
    have "unat (of_nat (length d) :: u16) = ?n"
      using 2 by (simp add: unsigned_of_nat take_bit_nat_eq_self)
    then show ?thesis
      using r1(1) r2 data [OF r2(2,3)] by (auto simp: push_op_def)
  next
    case 3
    then have c: "getCurrPtr r = 78 # bytes_of_int ENDIAN_LITTLE (of_nat (length d) :: u32) @ (d @ ss)"
      using assms(2,4) by (simp add: push_bytes_def getPushDataHeader_def put_uint8_t_def put_uint32_t_def)
    obtain r1 where r1: "get_uint8_t r = Inr (78, r1)" "brr_ok r1" "getCurrPtr r1 = bytes_of_int ENDIAN_LITTLE (of_nat (length d) :: u32) @ (d @ ss)"
      using u8.dec_rest [OF assms(1), of 78] c by auto
    obtain r2 where r2: "get_uint32_t ENDIAN_LITTLE r1 = Inr (of_nat (length d), r2)" "brr_ok r2" "getCurrPtr r2 = d @ ss"
      using u32.dec_rest [OF r1(2) _ r1(3)] by auto
    have "unat (ucast (of_nat (length d) :: u32) :: u16) = ?n"
      using assms(4) by (simp add: unsigned_ucast_eq unsigned_of_nat take_bit_nat_eq_self take_bit_eq_mod)
    then show ?thesis
      using r1(1) r2 data [OF r2(2,3)] by (auto simp: push_op_def)
  qed
qed

lemma push_op_push_bytes:
  assumes "brr_ok r" "getCurrPtr r = push_bytes d @ ss" "length d < 65536"
  shows "\<exists>r'. push_op r = Inr (Some (if d = [] then [0] else d, r')) \<and> brr_ok r' \<and> getCurrPtr r' = ss"
proof (cases "length d \<le> 75")
  case True
  then have "getCurrPtr r = of_nat (length d) # d @ ss"
    using assms(2) by (simp add: push_bytes_def getPushDataHeader_def put_uint8_t_def)
  then show ?thesis
    using True push_op_short [OF assms(1)] push_op_single [OF assms(1), of 0 ss] by (cases "d = []") auto
next
  case False
  then show ?thesis
    using push_op_sized [OF assms(1,2)] assms(3) by auto
qed

lemma push_bytes_ne: "length d < 65536 \<Longrightarrow> push_bytes d \<noteq> []"
  by (auto simp: push_bytes_def getPushDataHeader_def put_uint8_t_def put_uint16_t_def put_uint32_t_def)

lemma split_loop_pushed:
  assumes "brr_ok r" "getCurrPtr r = concat (map push_bytes ds)" "\<forall>d \<in> set ds. length d < 65536"
  shows "split_loop acc r = Inr (acc @ map (\<lambda>d. if d = [] then [0] else d) ds)"
  using assms
proof (induction ds arbitrary: acc r)
  case Nil
  then show ?case
    by (simp add: split_loop.simps getSizeRemaining_ok)
next
  case (Cons d ds)
  then obtain r' where r': "push_op r = Inr (Some (if d = [] then [0] else d, r'))" "brr_ok r'" "getCurrPtr r' = concat (map push_bytes ds)"
    using push_op_push_bytes [of r d] by auto
  have "getSizeRemaining r > 0"
    using Cons.prems push_bytes_ne [of d] by (simp add: getSizeRemaining_ok)
  then show ?case
    using r' Cons.IH [OF r'(2,3)] Cons.prems(3) by (simp add: split_loop.simps [of acc r])
qed

lemma split_pushed:
  assumes "length (concat (map push_bytes ds)) < size_t_mod" "\<forall>d \<in> set ds. length d < 65536"
  shows "splitPushOnlyScriptRefs (concat (map push_bytes ds)) = Inr (map (\<lambda>d. if d = [] then [0] else d) ds)"
  unfolding splitPushOnlyScriptRefs_def using split_loop_pushed [of _ ds "[]"] assms by (simp add: getCurrPtr_def setNewData_def brr_ok_def)

lemma last_pushed:
  assumes "length (concat (map push_bytes ds)) < size_t_mod" "\<forall>d \<in> set ds. length d < 65536" "ds \<noteq> []" "last ds \<noteq> []"
  shows "getLastPushDataInScript (concat (map push_bytes ds)) = Inr (last ds)"
  using assms by (simp add: getLastPushDataInScript_def split_pushed last_conv_nth)

text \<open>
  C28: Data pushed behind the headers of \<open>getPushDataHeader\<close> is split off again item by item, for items
  below 65536 bytes; an empty item comes back as the byte of its operation.
\<close>

theorem split_push_roundtrip:
  assumes "length (concat (map push_bytes ds)) < size_t_mod" "\<forall>d \<in> set ds. length d < 65536"
  shows "splitPushOnlyScript (concat (map push_bytes ds)) = Inr (map (\<lambda>d. if d = [] then [0] else d) ds)"
  using split_pushed [OF assms] by (simp add: splitPushOnlyScript_def)

theorem split_push_roundtrip_witness:
  "splitPushOnlyScript (concat (map push_bytes [[1, 2, 3], [], replicate 300 7])) = Inr [[1, 2, 3], [0], replicate 300 7]"
proof -
  have "length (concat (map push_bytes [[1, 2, 3], [], replicate 300 7])) < size_t_mod"
    by (simp add: push_bytes_def getPushDataHeader_def put_uint8_t_def put_uint16_t_def)
  then show ?thesis
    by (subst split_push_roundtrip) auto
qed

text \<open>Results extend what was collected so far, and stay within the script.\<close>

lemma split_loop_extends: "split_loop acc r = Inr ops \<Longrightarrow> ops = [] \<or> (\<exists>more. ops = acc @ more)"
proof (induction acc r rule: split_loop.induct)
  case (1 acc r)
  show ?case
  proof (cases "getSizeRemaining r > 0")
    case True
    show ?thesis
    proof (cases "push_op r")
      case (Inr x)
      then show ?thesis
        using True 1 by (cases x) (auto simp: split_loop.simps [of acc r])
    qed (use True 1 in \<open>simp add: split_loop.simps [of acc r]\<close>)
  qed (use 1 in \<open>simp add: split_loop.simps [of acc r]\<close>)
qed

text \<open>
  C32: The length behind \<open>OP_PUSHDATA4\<close> is cut to 16 bits: an item of 65536 bytes or more is never split
  off as it was pushed.
\<close>

theorem push4_truncated:
  assumes "65536 \<le> length d" "length d < 4294967295"
  shows "splitPushOnlyScriptRefs (push_bytes d) \<noteq> Inr [d]"
proof
  assume eq: "splitPushOnlyScriptRefs (push_bytes d) = Inr [d]"
  let ?n = "length d mod 65536" and ?r = "setNewData (push_bytes d)"
  have len: "length (push_bytes d) = length d + 5"
    using assms by (simp add: push_bytes_def getPushDataHeader_def put_uint8_t_def put_uint32_t_def)
  then have ok: "brr_ok ?r" and curr: "getCurrPtr ?r = push_bytes d @ []" and more: "getSizeRemaining ?r > 0"
    using assms(2) by (auto simp: brr_ok_def setNewData_def getCurrPtr_def getSizeRemaining_def)
  obtain r' where r': "push_op ?r = Inr (Some (take ?n d, r'))"
    using push_op_sized [OF ok curr] assms by auto
  then have "split_loop [take ?n d] r' = Inr [d]"
    using eq more by (simp add: splitPushOnlyScriptRefs_def split_loop.simps [of "[]"])
  then have "take ?n d = d"
    using split_loop_extends by fastforce
  then have "length d \<le> ?n"
    by (metis length_take min.cobounded2)
  then show False
    using assms(1) mod_less_divisor [of 65536 "length d"] by linarith
qed

theorem push4_truncated_witness:
  "splitPushOnlyScriptRefs (push_bytes (replicate 65536 0x51)) \<noteq> Inr [replicate 65536 0x51]"
  by (rule push4_truncated) simp_all

section \<open>Splitting arbitrary scripts\<close>

lemma checked_read_step:
  assumes "brr_ok r" "checked_read n r = Inr (b, r')"
  shows "brr_ok r' \<and> length b = n \<and> length b + length (getCurrPtr r') = length (getCurrPtr r)"
  using assms by (auto simp: checked_read_ok split: if_splits)

lemma push_op_step:
  assumes "brr_ok r" "push_op r = Inr (Some (d, r'))"
  shows "brr_ok r' \<and> length d + length (getCurrPtr r') \<le> length (getCurrPtr r)"
proof -
  obtain b r1 where r1: "get_uint8_t r = Inr (b, r1)"
    using assms by (cases "get_uint8_t r") (auto simp: push_op_def)
  note step = checked_read_step [folded get_BinaryDataRef_def]
  have ok1: "brr_ok r1" "length (getCurrPtr r1) \<le> length (getCurrPtr r)"
    using assms(1) r1 by (auto simp: get_uint8_t_def bind_res_eq_Inr dest: checked_read_step)
  have undo: "rewind 1 r1 = r"
    by (rule rewind_get_uint8_t [OF assms(1) r1])
  have sized: "brr_ok r' \<and> length d + length (getCurrPtr r') \<le> length (getCurrPtr r)"
    if "checked_read k r1 = Inr (b', r2)" "get_BinaryDataRef n r2 = Inr (d, r')" for k b' r2 n
    using checked_read_step [OF ok1(1) that(1)] step [OF _ that(2)] ok1(2) by linarith
  consider "get_BinaryDataRef 1 r = Inr (d, r')" | n where "get_BinaryDataRef n r1 = Inr (d, r')"
    | k b' r2 n where "checked_read k r1 = Inr (b', r2)" "get_BinaryDataRef n r2 = Inr (d, r')"
    using assms(2) r1 undo by (auto simp: push_op_def bind_res_eq_Inr get_uint8_t_def get_uint16_t_def get_uint32_t_def split: if_splits)
  then show ?thesis
  proof cases
    case 1
    then show ?thesis
      using step [OF assms(1) 1] by simp
  next
    case 2
    then show ?thesis
      using step [OF ok1(1) 2] ok1(2) by simp
  next
    case 3
    then show ?thesis
      by (rule sized)
  qed
qed

lemma push_op_safe:
  assumes "brr_ok r"
  shows "no_ub (push_op r)"
proof (cases "get_uint8_t r")
  case (Inl e)
  then show ?thesis
    using u8.dec_safe [OF assms] by (simp add: push_op_def)
next
  case (Inr x)
  then obtain b r1 where r1: "get_uint8_t r = Inr (b, r1)"
    by (cases x) auto
  have ok: "brr_ok r1" "brr_ok (rewind 1 r1)"
    using u8.dec_ok [OF assms r1] rewind_get_uint8_t [OF assms r1] assms by auto
  show ?thesis
    using ok r1 by (auto simp: push_op_def intro!: no_ub_bind ref.dec_safe u8.dec_safe u16.dec_safe u32.dec_safe dest: u8.dec_ok u16.dec_ok u32.dec_ok)
qed

lemma split_loop_ok:
  assumes "brr_ok r"
  shows "no_ub (split_loop acc r) \<and>
    (\<forall>ops. split_loop acc r = Inr ops \<longrightarrow> length (concat ops) \<le> length (concat acc) + length (getCurrPtr r))"
  using assms
proof (induction acc r rule: split_loop.induct)
  case (1 acc r)
  show ?case
  proof (cases "getSizeRemaining r > 0")
    case True
    show ?thesis
    proof (cases "push_op r")
      case (Inl e)
      then show ?thesis
        using True push_op_safe [OF 1(2)] by (simp add: split_loop.simps [of acc r])
    next
      case (Inr x)
      show ?thesis
      proof (cases x)
        case None
        then show ?thesis
          using True Inr by (simp add: split_loop.simps [of acc r])
      next
        case (Some y)
        obtain d r' where y: "y = (d, r')"
          by (cases y)
        then have step: "brr_ok r'" "length d + length (getCurrPtr r') \<le> length (getCurrPtr r)"
          using push_op_step [OF 1(2)] Inr Some by auto
        have "split_loop acc r = split_loop (acc @ [d]) r'"
          using True Inr Some y by (simp add: split_loop.simps [of acc r])
        moreover have "length (concat ops) \<le> length (concat acc) + length (getCurrPtr r)"
          if "split_loop (acc @ [d]) r' = Inr ops" for ops
          using 1(1) [OF True Inr Some y [symmetric] step(1)] step(2) that by force
        ultimately show ?thesis
          using 1(1) [OF True Inr Some y [symmetric] step(1)] by simp
      qed
    qed
  qed (simp add: split_loop.simps [of acc r])
qed

text \<open>
  C29: Splitting an arbitrary byte string comes to an end without reading outside it, and what it returns
  is no longer than the script.
\<close>

theorem split_safe:
  assumes "length script < size_t_mod"
  shows "no_ub (splitPushOnlyScriptRefs script) \<and>
    (\<forall>ops. splitPushOnlyScriptRefs script = Inr ops \<longrightarrow> length (concat ops) \<le> length script)"
  using split_loop_ok [of "setNewData script" "[]"] assms by (simp add: splitPushOnlyScriptRefs_def getCurrPtr_def setNewData_def brr_ok_def)

theorem split_safe_witness: "no_ub (splitPushOnlyScriptRefs [0x4e, 0xff, 0xff, 0xff, 0xff, 0x01])"
  using split_safe [of "[0x4e, 0xff, 0xff, 0xff, 0xff, 0x01]"] by simp

section \<open>Inputs and the outputs they spend\<close>

lemma getSliceCopy_end:
  assumes "0 < length bs" "length (bs' @ bs) < size_t_mod"
  shows "getSliceCopy (bs' @ bs) (- int (length bs)) (length bs) = Inr bs"
proof -
  have "int (length (bs' @ bs)) + - int (length bs) = int (length bs')"
    by simp
  then show ?thesis
    using assms getSliceCopy_in_range [of "length bs'" "length bs" "bs' @ bs"] by (simp add: getSliceCopy_def Let_def bslice_def)
qed

definition public_key :: "bytes \<Rightarrow> bool" where
  "public_key key \<longleftrightarrow> (\<exists>b rest. key = b # rest \<and> (length rest = 32 \<and> (b = 2 \<or> b = 3) \<or> length rest = 64 \<and> b = 4))"

definition der_sig :: "byte \<Rightarrow> bytes \<Rightarrow> bytes" where
  "der_sig hashType rs = [0x30, of_nat (length rs + 1), 0x02] @ rs @ [hashType]"

lemma no_multisig_below_81:
  assumes "byte_at s 0 = Inr b" "b < 81" "2 \<le> length s" "byte_is s (- 1) 0xae"
  shows "isMultisigScript hash160 s = Inr False"
proof -
  have "byte_at s (- 2) = Inr (s ! (length s - 2))"
    using assms(3) byte_at_simps(2) [of 2 s] by simp
  then have "getMultisigPubKeyList s = Inr (0, [])"
    using assms by (simp add: getMultisigPubKeyList_def byte_is_def)
  then show ?thesis
    by (simp add: isMultisigScript_def getMultisigUniqueKey_def getMultisigAddrList_def)
qed

lemma key_is_no_script:
  assumes "public_key key"
  shows "getTxOutScriptType hash160 key = Inr TXOUT_SCRIPT_NONSTANDARD"
proof -
  obtain b rest where key: "key = b # rest" "b = 2 \<or> b = 3 \<or> b = 4" "length key = 33 \<or> length key = 65"
    using assms unfolding public_key_def by fastforce
  have b: "byte_at key 0 = Inr b" "b < 81" "b \<noteq> 0x6a"
    using key(2) by (auto simp: key(1) byte_at_first)
  have "2 \<le> length key"
    using key(3) by linarith
  then have "byte_is key (- 1) 0xae \<Longrightarrow> isMultisigScript hash160 key = Inr False"
    by (rule no_multisig_below_81 [OF b(1,2)])
  then show ?thesis
    using key(3) b(1,3) by (elim disjE) (simp_all add: getTxOutScriptType_def Let_def byte_is_def)
qed

lemma push_short: "length d \<le> 75 \<Longrightarrow> push_bytes d = of_nat (length d) # d"
  by (simp add: push_bytes_def getPushDataHeader_def put_uint8_t_def)

lemma sig_tail_key:
  assumes "public_key key" "length rs \<le> 71"
  shows "sig_tail (push_bytes (der_sig hashType rs) @ push_bytes key) = Inr (if length key = 33 then TXIN_SCRIPT_STDCOMPR else TXIN_SCRIPT_STDUNCOMPR)"
proof -
  let ?n = "of_nat (length (der_sig hashType rs)) :: byte" and ?l = "of_nat (length rs + 1) :: byte"
  let ?rest = "rs @ [hashType] @ push_bytes key"
  have script: "push_bytes (der_sig hashType rs) @ push_bytes key = ?n # 0x30 # ?l # 0x02 # ?rest"
    using assms(2) push_short [of "der_sig hashType rs"] by (simp add: der_sig_def)
  have len: "length key = 33 \<or> length key = 65" "length (push_bytes key) = length key + 1"
    using assms(1) push_short [of key] by (auto simp: public_key_def)
  have "unat ?l = length rs + 1"
    using assms(2) by (simp add: unsigned_of_nat take_bit_nat_eq_self del: of_nat_add of_nat_Suc)
  then show ?thesis
    unfolding script sig_tail_def both_bytes_def using len
    by (cases "length key = 33") (simp_all add: byte_at_def Let_def del: of_nat_add of_nat_Suc)
qed

text \<open>
  C26: An input that pushes a signature and a public key, compressed or not, yields the address of the
  pay-to-public-key-hash output it spends.
\<close>

theorem spent_key_hash:
  assumes "public_key key" "length rs \<le> 71" "prevTxHash \<noteq> EmptyHash" "length (hash160 key) = 20"
  shows "getTxInAddr hash160 (push_bytes (der_sig hashType rs) @ push_bytes key) prevTxHash TXIN_SCRIPT_NONSTANDARD =
    bind_res (getP2PKHScript (hash160 key)) (\<lambda>out. getTxOutRecipientAddr hash160 out TXOUT_SCRIPT_NONSTANDARD)"
proof -
  let ?sig = "der_sig hashType rs" and ?script = "push_bytes (der_sig hashType rs) @ push_bytes key"
  have key: "length key = 33 \<or> length key = 65" "key \<noteq> []"
    using assms(1) by (auto simp: public_key_def)
  have sig: "length ?sig \<le> 75" "?sig = 0x30 # tl ?sig" "length ?sig = length rs + 4"
    using assms(2) by (simp_all add: der_sig_def)
  have script: "?script = of_nat (length ?sig) # ?sig @ of_nat (length key) # key"
    using push_short [OF sig(1)] push_short [of key] key by auto
  have first: "byte_at ?script 0 = Inr (of_nat (length ?sig))" "byte_at ?script 1 = Inr 0x30"
    unfolding script by (simp_all add: byte_at_def der_sig_def)
  have "unat (of_nat (length ?sig) :: byte) = length rs + 4"
    unfolding sig(3) using assms(2) by (simp add: unsigned_of_nat take_bit_nat_eq_self del: of_nat_add of_nat_Suc)
  then have nonzero: "(of_nat (length ?sig) :: byte) \<noteq> 0"
    by (metis add_is_0 unat_0 zero_neq_numeral)
  have ne: "length ?script \<noteq> 0"
    by (simp add: script)
  have small: "length (concat (map push_bytes [?sig, key])) < size_t_mod"
    using sig(1) key script by auto
  have last: "getLastPushDataInScript ?script = Inr key"
    using last_pushed [OF small] sig(1) key by auto
  have type: "getTxInScriptType hash160 ?script prevTxHash = Inr (if length key = 33 then TXIN_SCRIPT_STDCOMPR else TXIN_SCRIPT_STDUNCOMPR)"
    unfolding getTxInScriptType_def byte_is_def
    using assms(3) first ne nonzero key_is_no_script [OF assms(1)] sig_tail_key [OF assms(1,2)] by (simp only: last) simp
  have long: "length key \<le> length ?script"
    by (simp add: script)
  have "getSliceCopy ?script (- int (length key)) (length key) = Inr key"
    using key sig(1) script getSliceCopy_end [of key "of_nat (length ?sig) # ?sig @ [of_nat (length key)]"] by auto
  then have addr: "getTxInAddr hash160 ?script prevTxHash TXIN_SCRIPT_NONSTANDARD = Inr (hash160 key)"
    using key(1) long by (auto simp: getTxInAddr_def type getTxInAddrFromType_def simp del: length_append)
  show ?thesis
    using addr assms(4) getSliceCopy_in_range [of 3 20 "0x76 # 0xa9 # 20 # hash160 key @ [0x88, 0xac]"]
    by (simp add: build_scripts getTxOutRecipientAddr_def getTxOutScriptType_build bslice_def)
qed

theorem spent_key_hash_witness:
  "getTxInAddr (take 20) (push_bytes (der_sig 1 (replicate 67 5)) @ push_bytes (2 # replicate 32 9)) (replicate 32 1) TXIN_SCRIPT_NONSTANDARD =
    bind_res (getP2PKHScript (take 20 (2 # replicate 32 9))) (\<lambda>out. getTxOutRecipientAddr (take 20) out TXOUT_SCRIPT_NONSTANDARD)"
  by (rule spent_key_hash) (simp_all add: public_key_def EmptyHash_def)



text \<open>
  C33: \<open>getTxInScriptType\<close> looks at the bytes of a signature without testing that they are there: an input
  script of a single small-number push is read out of bounds.
\<close>

theorem short_input_script_unchecked:
  assumes "78 < b" "b < 97" "b \<noteq> 80" "prevTxHash \<noteq> EmptyHash"
  shows "getTxInScriptType hash160 [b] prevTxHash = Inl Undefined_Behaviour"
proof -
  have ok: "brr_ok (setNewData [b])" "getCurrPtr (setNewData [b]) = [b]" "getSizeRemaining (setNewData [b]) > 0"
    by (simp, simp_all add: setNewData_def getCurrPtr_def getSizeRemaining_def)
  obtain r' where r': "push_op (setNewData [b]) = Inr (Some ([b], r'))" "brr_ok r'" "getCurrPtr r' = []"
    using push_op_single [OF ok(1,2)] assms(1-3) by auto
  have "split_loop [] (setNewData [b]) = Inr [[b]]"
    using r' ok(3) by (simp add: split_loop.simps getSizeRemaining_ok)
  moreover have "getTxOutScriptType hash160 [b] = Inr TXOUT_SCRIPT_NONSTANDARD"
    using assms(2) by (auto simp: getTxOutScriptType_def Let_def byte_is_def byte_at_first)
  moreover have "b \<noteq> 0"
    using assms(1) by auto
  ultimately show ?thesis
    using assms(4)
    by (simp add: getTxInScriptType_def getLastPushDataInScript_def splitPushOnlyScriptRefs_def byte_at_first sig_tail_def both_bytes_def byte_at_def)
qed

theorem short_input_script_unchecked_witness:
  "getTxInScriptType (take 20) [0x51] (replicate 32 1) = Inl Undefined_Behaviour"
  by (rule short_input_script_unchecked) (simp_all add: EmptyHash_def)

end
