(* ===== verification/Op_Codes.thy ===== *)
theory Op_Codes
  imports Script_Push
begin

text \<open>
  The opcodes of scripts (BtcUtils.h): their numbering by an enumeration and their names.
\<close>

section \<open>Opcodes\<close>

text \<open>
  A C++ enumeration as it is written: an enumerator has a value, the value of an earlier enumerator, or
  the value after that of the enumerator before it.
\<close>

datatype enumerator = Value int | Alias string | Succ

fun enum_values :: "int \<Rightarrow> (string \<times> int) list \<Rightarrow> (string \<times> enumerator) list \<Rightarrow> (string \<times> int) list" where
  "enum_values nextVal seen [] = seen"
| "enum_values nextVal seen ((name, e) # es) =
     (let v = (case e of Value n \<Rightarrow> n | Alias a \<Rightarrow> the (map_of seen a) | Succ \<Rightarrow> nextVal)
      in enum_values (v + 1) (seen @ [(name, v)]) es)"

definition OPCODETYPE :: "(string \<times> int) list" where
  "OPCODETYPE = enum_values 0 []
    [(''OP_0'', Value 0), (''OP_FALSE'', Alias ''OP_0''), (''OP_PUSHDATA1'', Value 76), (''OP_PUSHDATA2'', Succ),
     (''OP_PUSHDATA4'', Succ), (''OP_1NEGATE'', Succ), (''OP_RESERVED'', Succ), (''OP_1'', Succ),
     (''OP_TRUE'', Alias ''OP_1''), (''OP_2'', Succ), (''OP_3'', Succ), (''OP_4'', Succ), (''OP_5'', Succ),
     (''OP_6'', Succ), (''OP_7'', Succ), (''OP_8'', Succ), (''OP_9'', Succ), (''OP_10'', Succ), (''OP_11'', Succ),
     (''OP_12'', Succ), (''OP_13'', Succ), (''OP_14'', Succ), (''OP_15'', Succ), (''OP_16'', Succ),
     (''OP_NOP'', Succ), (''OP_VER'', Succ), (''OP_IF'', Succ), (''OP_NOTIF'', Succ), (''OP_VERIF'', Succ),
     (''OP_VERNOTIF'', Succ), (''OP_ELSE'', Succ), (''OP_ENDIF'', Succ), (''OP_VERIFY'', Succ),
     (''OP_RETURN'', Succ), (''OP_TOALTSTACK'', Succ), (''OP_FROMALTSTACK'', Succ), (''OP_2DROP'', Succ),
     (''OP_2DUP'', Succ), (''OP_3DUP'', Succ), (''OP_2OVER'', Succ), (''OP_2ROT'', Succ), (''OP_2SWAP'', Succ),
     (''OP_IFDUP'', Succ), (''OP_DEPTH'', Succ), (''OP_DROP'', Succ), (''OP_DUP'', Succ), (''OP_NIP'', Succ),
     (''OP_OVER'', Succ), (''OP_PICK'', Succ), (''OP_ROLL'', Succ), (''OP_ROT'', Succ), (''OP_SWAP'', Succ),
     (''OP_TUCK'', Succ), (''OP_CAT'', Succ), (''OP_SUBSTR'', Succ), (''OP_LEFT'', Succ), (''OP_RIGHT'', Succ),
     (''OP_SIZE'', Succ), (''OP_INVERT'', Succ), (''OP_AND'', Succ), (''OP_OR'', Succ), (''OP_XOR'', Succ),
     (''OP_EQUAL'', Succ), (''OP_EQUALVERIFY'', Succ), (''OP_RESERVED1'', Succ), (''OP_RESERVED2'', Succ),
     (''OP_1ADD'', Succ), (''OP_1SUB'', Succ), (''OP_2MUL'', Succ), (''OP_2DIV'', Succ), (''OP_NEGATE'', Succ),
     (''OP_ABS'', Succ), (''OP_NOT'', Succ), (''OP_0NOTEQUAL'', Succ), (''OP_ADD'', Succ), (''OP_SUB'', Succ),
     (''OP_MUL'', Succ), (''OP_DIV'', Succ), (''OP_MOD'', Succ), (''OP_LSHIFT'', Succ), (''OP_RSHIFT'', Succ),
     (''OP_BOOLAND'', Succ), (''OP_BOOLOR'', Succ), (''OP_NUMEQUAL'', Succ), (''OP_NUMEQUALVERIFY'', Succ),
     (''OP_NUMNOTEQUAL'', Succ), (''OP_LESSTHAN'', Succ), (''OP_GREATERTHAN'', Succ), (''OP_LESSTHANOREQUAL'', Succ),
     (''OP_GREATERTHANOREQUAL'', Succ), (''OP_MIN'', Succ), (''OP_MAX'', Succ), (''OP_WITHIN'', Succ),
     (''OP_RIPEMD160'', Succ), (''OP_SHA1'', Succ), (''OP_SHA256'', Succ), (''OP_HASH160'', Succ),
     (''OP_HASH256'', Succ), (''OP_CODESEPARATOR'', Succ), (''OP_CHECKSIG'', Succ), (''OP_CHECKSIGVERIFY'', Succ),
     (''OP_CHECKMULTISIG'', Succ), (''OP_CHECKMULTISIGVERIFY'', Succ), (''OP_NOP1'', Succ), (''OP_NOP2'', Succ),
     (''OP_NOP3'', Succ), (''OP_NOP4'', Succ), (''OP_NOP5'', Succ), (''OP_NOP6'', Succ), (''OP_NOP7'', Succ),
     (''OP_NOP8'', Succ), (''OP_NOP9'', Succ), (''OP_NOP10'', Succ), (''OP_PUBKEYHASH'', Value 0xfd),
     (''OP_PUBKEY'', Value 0xfe), (''OP_INVALIDOPCODE'', Value 0xff)]"

text \<open>The labels of the switch in \<open>getOpCodeName\<close>; each one returns its own name.\<close>

definition opcode_labels :: "string list" where
  "opcode_labels =
    [''OP_0'', ''OP_PUSHDATA1'', ''OP_PUSHDATA2'', ''OP_PUSHDATA4'', ''OP_1NEGATE'', ''OP_RESERVED'', ''OP_1'',
     ''OP_2'', ''OP_3'', ''OP_4'', ''OP_5'', ''OP_6'', ''OP_7'', ''OP_8'', ''OP_9'', ''OP_10'', ''OP_11'', ''OP_12'',
     ''OP_13'', ''OP_14'', ''OP_15'', ''OP_16'', ''OP_NOP'', ''OP_VER'', ''OP_IF'', ''OP_NOTIF'', ''OP_VERIF'',
     ''OP_VERNOTIF'', ''OP_ELSE'', ''OP_ENDIF'', ''OP_VERIFY'', ''OP_RETURN'', ''OP_TOALTSTACK'',
     ''OP_FROMALTSTACK'', ''OP_2DROP'', ''OP_2DUP'', ''OP_3DUP'', ''OP_2OVER'', ''OP_2ROT'', ''OP_2SWAP'',
     ''OP_IFDUP'', ''OP_DEPTH'', ''OP_DROP'', ''OP_DUP'', ''OP_NIP'', ''OP_OVER'', ''OP_PICK'', ''OP_ROLL'',
     ''OP_ROT'', ''OP_SWAP'', ''OP_TUCK'', ''OP_CAT'', ''OP_SUBSTR'', ''OP_LEFT'', ''OP_RIGHT'', ''OP_SIZE'',
     ''OP_INVERT'', ''OP_AND'', ''OP_OR'', ''OP_XOR'', ''OP_EQUAL'', ''OP_EQUALVERIFY'', ''OP_RESERVED1'',
     ''OP_RESERVED2'', ''OP_1ADD'', ''OP_1SUB'', ''OP_2MUL'', ''OP_2DIV'', ''OP_NEGATE'', ''OP_ABS'', ''OP_NOT'',
     ''OP_0NOTEQUAL'', ''OP_ADD'', ''OP_SUB'', ''OP_MUL'', ''OP_DIV'', ''OP_MOD'', ''OP_LSHIFT'', ''OP_RSHIFT'',
     ''OP_BOOLAND'', ''OP_BOOLOR'', ''OP_NUMEQUAL'', ''OP_NUMEQUALVERIFY'', ''OP_NUMNOTEQUAL'', ''OP_LESSTHAN'',
     ''OP_GREATERTHAN'', ''OP_LESSTHANOREQUAL'', ''OP_GREATERTHANOREQUAL'', ''OP_MIN'', ''OP_MAX'', ''OP_WITHIN'',
     ''OP_RIPEMD160'', ''OP_SHA1'', ''OP_SHA256'', ''OP_HASH160'', ''OP_HASH256'', ''OP_CODESEPARATOR'',
     ''OP_CHECKSIG'', ''OP_CHECKSIGVERIFY'', ''OP_CHECKMULTISIG'', ''OP_CHECKMULTISIGVERIFY'', ''OP_NOP1'',
     ''OP_NOP2'', ''OP_NOP3'', ''OP_NOP4'', ''OP_NOP5'', ''OP_NOP6'', ''OP_NOP7'', ''OP_NOP8'', ''OP_NOP9'',
     ''OP_NOP10'', ''OP_PUBKEYHASH'', ''OP_PUBKEY'', ''OP_INVALIDOPCODE'']"

definition getOpCodeName :: "byte \<Rightarrow> string" where
  "getOpCodeName opcode =
     (case find (\<lambda>l. map_of OPCODETYPE l = Some (uint opcode)) opcode_labels of
        Some l \<Rightarrow> l
      | None \<Rightarrow> ''OP_UNKNOWN'')"

section \<open>Names and numbers of the opcodes\<close>

definition name_key :: "string \<Rightarrow> int" where
  "name_key s = foldl (\<lambda>a c. 3 * a + of_char c) 0 (drop 3 s)"

lemma opcode_keys_distinct: "distinct (map (\<lambda>x. name_key (fst x)) OPCODETYPE)"
  by code_simp

lemma opcode_labels_eq: "opcode_labels = map fst (filter (\<lambda>x. fst x \<noteq> ''OP_FALSE'' \<and> fst x \<noteq> ''OP_TRUE'') OPCODETYPE)"
  by code_simp

lemma opcode_values_ascending:
  "sorted_wrt (<) (map snd (filter (\<lambda>x. fst x \<noteq> ''OP_FALSE'' \<and> fst x \<noteq> ''OP_TRUE'') OPCODETYPE))"
  by code_simp

lemma opcode_names_distinct: "distinct (map fst OPCODETYPE)"
  using opcode_keys_distinct distinct_map [of name_key "map fst OPCODETYPE"] by (simp add: comp_def)

lemma find_unique:
  assumes "x \<in> set xs" "P x" "\<forall>y \<in> set xs. P y \<longrightarrow> y = x"
  shows "find P xs = Some x"
proof (cases "find P xs")
  case None
  then show ?thesis
    using assms(1,2) by (simp add: find_None_iff)
next
  case (Some y)
  then have "P y" "y \<in> set xs"
    by (auto simp: find_Some_iff)
  then show ?thesis
    using Some assms(3) by simp
qed

lemma distinct_snd_unique: "distinct (map snd es) \<Longrightarrow> (a, v) \<in> set es \<Longrightarrow> (b, v) \<in> set es \<Longrightarrow> a = b"
  using inj_onD [of snd "set es" "(a, v)" "(b, v)"] by (simp add: distinct_map)

lemma opcode_label_value:
  assumes "l \<in> set opcode_labels"
  shows "\<exists>v. map_of OPCODETYPE l = Some v \<and> (\<forall>l' \<in> set opcode_labels. map_of OPCODETYPE l' = Some v \<longrightarrow> l' = l)"
proof -
  let ?es = "filter (\<lambda>x. fst x \<noteq> ''OP_FALSE'' \<and> fst x \<noteq> ''OP_TRUE'') OPCODETYPE"
  have nums: "distinct (map snd ?es)"
    using opcode_values_ascending strict_sorted_iff by blast
  have entry: "\<exists>v. (k, v) \<in> set ?es \<and> map_of OPCODETYPE k = Some v" if k: "k \<in> set opcode_labels" for k
  proof -
    obtain v where v: "(k, v) \<in> set ?es"
      using k unfolding opcode_labels_eq by auto
    then have "(k, v) \<in> set OPCODETYPE"
      by simp
    then show ?thesis
      using v map_of_is_SomeI [OF opcode_names_distinct] by blast
  qed
  obtain v where v: "(l, v) \<in> set ?es" "map_of OPCODETYPE l = Some v"
    using entry [OF assms] by blast
  have "l' = l" if l': "l' \<in> set opcode_labels" "map_of OPCODETYPE l' = Some v" for l'
  proof -
    have "(l', v) \<in> set ?es"
      using entry [OF l'(1)] l'(2) by auto
    then show ?thesis
      by (rule distinct_snd_unique [OF nums _ v(1)])
  qed
  then show ?thesis
    using v(2) by blast
qed

text \<open>The numbers the script builders write for their operations.\<close>

lemma OPCODETYPE_known:
  "map (map_of OPCODETYPE) [''OP_DUP'', ''OP_HASH160'', ''OP_EQUALVERIFY'', ''OP_EQUAL'', ''OP_CHECKSIG'', ''OP_SHA256''] =
   map Some [0x76, 0xa9, 0x88, 0x87, 0xac, 0xa8]"
  by code_simp



end
