(* ===== verification/Script_Ops.thy ===== *)
theory Script_Ops
  imports Op_Codes
begin

text \<open>
  Printing scripts (BtcUtils.h): the listing of a script's operations.
\<close>

section \<open>Listing a script\<close>

fun to_string :: "nat \<Rightarrow> string" where
  "to_string n = (if n < 10 then [char_of (48 + n)] else to_string (n div 10) @ [char_of (48 + n mod 10)])"

definition hex_slice :: "bytes \<Rightarrow> u32 \<Rightarrow> nat \<Rightarrow> string res" where
  "hex_slice script pos n =
     bind_res (getSliceCopy script (uint pos) n) (\<lambda>binObj.
       bind_res (toHexStr binObj False) (\<lambda>h. Inr (map (\<lambda>b. char_of (unat b)) h)))"

text \<open>
  One pass of the loop: the strings to append and the next position, or \<open>None\<close> for the error exit. The
  position is a \<open>uint32_t\<close>, and so are the sums the size tests compare.
\<close>

definition op_step :: "bytes \<Rightarrow> u32 \<Rightarrow> (string list \<times> u32) option res" where
  "op_step script i =
     bind_res (byte_at script (uint i)) (\<lambda>nextOp.
       if nextOp = 0 then Inr (Some ([''OP_0''], i + 1))
       else if nextOp < 76 then
         bind_res (hex_slice script (i + 1) (unat nextOp)) (\<lambda>h.
           Inr (Some ([''[PUSHDATA -- '' @ to_string (unat nextOp) @ '' BYTES:]'', h], i + (ucast nextOp + 1))))
       else if nextOp = 76 then
         bind_res (mem_read script (unat i + 1) 1) (\<lambda>m.
           let nb = StrToIntLE m :: byte
           in if unat (i + 1 + 1 + ucast nb) > length script then Inr None
              else bind_res (hex_slice script (i + 2) (unat nb)) (\<lambda>h.
                Inr (Some ([''[OP_PUSHDATA1 -- '' @ to_string (unat nb) @ '' BYTES:]'', h], i + (ucast nb + 2)))))
       else if nextOp = 77 then
         bind_res (mem_read script (unat i + 1) 2) (\<lambda>m.
           let nb = StrToIntLE m :: u16
           in if unat (i + 1 + 2 + ucast nb) > length script then Inr None
              else bind_res (hex_slice script (i + 3) (min (unat nb) 256)) (\<lambda>h.
                Inr (Some ([''[OP_PUSHDATA2 -- '' @ to_string (unat nb) @ '' BYTES:]'', h @ ''...''], i + (ucast nb + 3)))))
       else if nextOp = 78 then
         bind_res (mem_read script (unat i + 1) 4) (\<lambda>m.
           let nb = StrToIntLE m :: u32
           in if unat (i + 1 + 4 + nb) > length script then Inr None
              else bind_res (hex_slice script (i + 5) (nat (min (sint nb) 256 mod 2 ^ 32))) (\<lambda>h.
                Inr (Some ([''[OP_PUSHDATA4 -- '' @ to_string (unat nb) @ '' BYTES:]'', h @ ''...''], i + (nb + 5)))))
       else Inr (Some ([getOpCodeName nextOp], i + 1)))"

text \<open>The loop need not end, since the position can wrap around; then the value is \<open>None\<close>.\<close>

partial_function (option) ops_loop :: "bytes \<Rightarrow> u32 \<Rightarrow> string list \<Rightarrow> string list res option" where
  "ops_loop script i opList =
     (if unat i < length script then
        (case op_step script i of
           Inl e \<Rightarrow> Some (Inl e)
         | Inr None \<Rightarrow> Some (Inr [''ERROR PROCESSING SCRIPT''])
         | Inr (Some (strs, i')) \<Rightarrow> ops_loop script i' (opList @ strs))
      else Some (Inr opList))"

definition convertScriptToOpStrings :: "bytes \<Rightarrow> string list res option" where
  "convertScriptToOpStrings script = ops_loop script 0 []"

section \<open>Listing a well-formed script\<close>

text \<open>The operations of a script, and what the listing should show for them.\<close>

datatype script_item = Op byte | Push bytes

fun item_ok :: "script_item \<Rightarrow> bool" where
  "item_ok (Op b) \<longleftrightarrow> b = 0 \<or> 78 < b"
| "item_ok (Push d) \<longleftrightarrow> d \<noteq> [] \<and> length d < 2 ^ 31"

fun item_bytes :: "script_item \<Rightarrow> bytes" where
  "item_bytes (Op b) = [b]"
| "item_bytes (Push d) = push_bytes d"

definition hex_of :: "bytes \<Rightarrow> string" where
  "hex_of d = map (\<lambda>b. char_of (unat b)) (hex_loop d)"

fun show_item :: "script_item \<Rightarrow> string list" where
  "show_item (Op b) = [if b = 0 then ''OP_0'' else getOpCodeName b]"
| "show_item (Push d) =
     (let n = to_string (length d) @ '' BYTES:]''
      in if length d \<le> 75 then [''[PUSHDATA -- '' @ n, hex_of d]
         else if length d < 255 then [''[OP_PUSHDATA1 -- '' @ n, hex_of d]
         else if length d < 65535 then [''[OP_PUSHDATA2 -- '' @ n, hex_of (take 256 d) @ ''...'']
         else [''[OP_PUSHDATA4 -- '' @ n, hex_of (take 256 d) @ ''...''])"

declare to_string.simps [simp del]

lemma hex_slice_middle:
  assumes "unat i = length pre" "n \<le> length d" "length (pre @ d @ post) < 2 ^ 31"
  shows "hex_slice (pre @ d @ post) i n = Inr (hex_of (take n d))"
proof -
  have i: "uint i = int (length pre)"
    unfolding assms(1) [symmetric] by simp
  have "getSliceCopy (pre @ d @ post) (int (length pre)) n = Inr (bslice (length pre) n (pre @ d @ post))"
    using assms(2,3) by (intro getSliceCopy_in_range) simp_all
  moreover have "bslice (length pre) n (pre @ d @ post) = take n d"
    using assms(2) by (simp add: bslice_def)
  ultimately show ?thesis
    by (simp add: hex_slice_def i toHexStr_def hex_of_def)
qed

lemma unat_u32_add:
  assumes "unat (i :: u32) + n < 2 ^ 32"
  shows "unat (i + of_nat n) = unat i + n"
  using assms by (simp add: unsigned_of_nat take_bit_nat_eq_self unat_word_ariths(1))

lemma op_step_op:
  assumes "byte_at script (uint i) = Inr b" "b = 0 \<or> 78 < b"
  shows "op_step script i = Inr (Some (show_item (Op b), i + 1))"
proof -
  have "\<not> b < 76 \<and> b \<noteq> 76 \<and> b \<noteq> 77 \<and> b \<noteq> 78" if "b \<noteq> 0"
    using assms(2) that by (auto simp: word_less_nat_alt)
  then show ?thesis
    using assms by (simp add: op_step_def)
qed

lemma byte_at_middle: "unat i = length pre \<Longrightarrow> byte_at (pre @ b # post) (uint i) = Inr b"
  using byte_at_simps(1) [of "length pre" "pre @ b # post"] uint_nat [of i] by simp

lemma mem_read_middle: "off = length pre \<Longrightarrow> length m = n \<Longrightarrow> mem_read (pre @ m @ post) off n = Inr m"
  by (simp add: mem_read_def bslice_def)

lemma next_position:
  assumes "unat (i :: u32) = length pre" "length (pre @ h @ d @ post) < 2 ^ 31"
  shows "unat (i + of_nat (length h + length d)) = length pre + length (h @ d)"
  using assms by (subst unat_u32_add) simp_all

lemma ucast_is_of_nat: "unat w = n \<Longrightarrow> ucast w = (of_nat n :: u32)"
  using of_nat_unat [of w] by auto

lemma op_step_short:
  assumes "unat i = length pre" "d \<noteq> []" "length d \<le> 75" "length (pre @ [of_nat (length d)] @ d @ post) < 2 ^ 31"
  shows "op_step (pre @ [of_nat (length d)] @ d @ post) i = Inr (Some (show_item (Push d), i + of_nat (1 + length d)))"
proof -
  let ?b = "of_nat (length d) :: byte" and ?script = "pre @ [of_nat (length d)] @ d @ post"
  have b: "unat ?b = length d"
    using assms(3) by (simp add: unsigned_of_nat take_bit_nat_eq_self)
  then have c: "?b \<noteq> 0" "?b < 76"
    using assms(2,3) by (auto simp: word_less_nat_alt dest: arg_cong [where f = unat])
  have w: "ucast ?b + 1 = (of_nat (1 + length d) :: u32)"
    using ucast_is_of_nat [OF b] by simp
  have h: "hex_slice ?script (i + 1) (length d) = Inr (hex_of d)"
    using hex_slice_middle [of "i + 1" "pre @ [?b]" "length d" d post] assms(1,4) unat_u32_add [of i 1] by simp
  have f: "byte_at ?script (uint i) = Inr ?b"
    using byte_at_middle [OF assms(1)] by simp
  show ?thesis
    using assms(3) by (simp add: op_step_def f c b h w Let_def del: of_nat_add of_nat_Suc append.simps append_assoc)
qed

lemma op_tests:
  "((76 :: byte) = 0) = False" "((76 :: byte) < 76) = False" "((76 :: byte) = 76) = True"
  "((77 :: byte) = 0) = False" "((77 :: byte) < 76) = False" "((77 :: byte) = 76) = False" "((77 :: byte) = 77) = True"
  "((78 :: byte) = 0) = False" "((78 :: byte) < 76) = False" "((78 :: byte) = 76) = False" "((78 :: byte) = 77) = False"
  "((78 :: byte) = 78) = True"
  by simp_all

lemma op_step_push1:
  assumes "unat i = length pre" "length d < 255" "length (pre @ [76, of_nat (length d)] @ d @ post) < 2 ^ 31"
  shows "op_step (pre @ [76, of_nat (length d)] @ d @ post) i =
    Inr (Some ([''[OP_PUSHDATA1 -- '' @ to_string (length d) @ '' BYTES:]'', hex_of d], i + of_nat (2 + length d)))"
proof -
  let ?b = "of_nat (length d) :: byte" and ?script = "pre @ [76, of_nat (length d)] @ d @ post"
  have b: "unat ?b = length d"
    using assms(2) by (simp add: unsigned_of_nat take_bit_nat_eq_self)
  have w: "i + (ucast ?b + 2) = i + of_nat (2 + length d)" "i + 1 + 1 + ucast ?b = i + of_nat (2 + length d)"
    using ucast_is_of_nat [OF b] by simp_all
  have n: "(unat (i + of_nat (2 + length d)) > length ?script) = False"
    using next_position [of i pre "[76, ?b]" d post] assms(1,3) by simp
  have h: "hex_slice ?script (i + 2) (length d) = Inr (hex_of d)"
    using hex_slice_middle [of "i + 2" "pre @ [76, ?b]" "length d" d post] assms(1,3) unat_u32_add [of i 2] by simp
  have f: "byte_at ?script (uint i) = Inr 76"
    using byte_at_middle [OF assms(1)] by simp
  have m: "mem_read ?script (unat i + 1) 1 = Inr [?b]"
    using mem_read_middle [of "unat i + 1" "pre @ [76]" "[?b]" 1 "d @ post"] assms(1) by simp
  have v: "StrToIntLE [?b] = ?b"
    by (simp add: StrToIntLE_def)
  show ?thesis
    by (simp only: op_step_def f bind_res_Inr m v Let_def w b n h if_False if_True op_tests)
qed

lemma op_step_push2:
  assumes "unat i = length pre" "255 \<le> length d" "length d < 65535" "m = IntToStrLE (of_nat (length d) :: u16)"
    "length (pre @ (77 # m) @ d @ post) < 2 ^ 31"
  shows "op_step (pre @ (77 # m) @ d @ post) i =
    Inr (Some ([''[OP_PUSHDATA2 -- '' @ to_string (length d) @ '' BYTES:]'', hex_of (take 256 d) @ ''...''], i + of_nat (3 + length d)))"
proof -
  let ?b = "of_nat (length d) :: u16" and ?script = "pre @ (77 # m) @ d @ post"
  have b: "unat ?b = length d"
    using assms(3) by (simp add: unsigned_of_nat take_bit_nat_eq_self)
  have m: "length m = 2" "StrToIntLE m = ?b"
    using assms(4) length_bytes_of_int [of ENDIAN_LITTLE ?b] int_of_bytes_of_int [of ENDIAN_LITTLE ?b]
    by (simp_all add: bytes_of_int_def int_of_bytes_def)
  have w: "i + (ucast ?b + 3) = i + of_nat (3 + length d)" "i + 1 + 2 + ucast ?b = i + of_nat (3 + length d)"
    using ucast_is_of_nat [OF b] by simp_all
  have n: "(unat (i + of_nat (3 + length d)) > length ?script) = False"
    using next_position [of i pre "77 # m" d post] assms(1,5) m(1) by simp
  have h: "hex_slice ?script (i + 3) (min (length d) 256) = Inr (hex_of (take 256 d))"
    using hex_slice_middle [of "i + 3" "pre @ 77 # m" "min (length d) 256" d post] assms(1,5) unat_u32_add [of i 3] m(1)
    by (simp add: min_def)
  have f: "byte_at ?script (uint i) = Inr 77"
    using byte_at_middle [OF assms(1)] by simp
  have r: "mem_read ?script (unat i + 1) 2 = Inr m"
    using mem_read_middle [of "unat i + 1" "pre @ [77]" m 2 "d @ post"] assms(1) m(1) by simp
  show ?thesis
    by (simp only: op_step_def f bind_res_Inr r m(2) Let_def w b n h if_False if_True op_tests)
qed

lemma op_step_push4:
  assumes "unat i = length pre" "65535 \<le> length d" "m = IntToStrLE (of_nat (length d) :: u32)"
    "length (pre @ (78 # m) @ d @ post) < 2 ^ 31"
  shows "op_step (pre @ (78 # m) @ d @ post) i =
    Inr (Some ([''[OP_PUSHDATA4 -- '' @ to_string (length d) @ '' BYTES:]'', hex_of (take 256 d) @ ''...''], i + of_nat (5 + length d)))"
proof -
  let ?b = "of_nat (length d) :: u32" and ?script = "pre @ (78 # m) @ d @ post"
  have b: "unat ?b = length d" "sint ?b = int (length d)"
    using assms(4) by (simp_all add: unsigned_of_nat take_bit_nat_eq_self signed_of_nat signed_take_bit_int_eq_self)
  have m: "length m = 4" "StrToIntLE m = ?b"
    using assms(3) length_bytes_of_int [of ENDIAN_LITTLE ?b] int_of_bytes_of_int [of ENDIAN_LITTLE ?b]
    by (simp_all add: bytes_of_int_def int_of_bytes_def)
  have w: "i + (?b + 5) = i + of_nat (5 + length d)" "i + 1 + 4 + ?b = i + of_nat (5 + length d)"
    by simp_all
  have n: "(unat (i + of_nat (5 + length d)) > length ?script) = False"
    using next_position [of i pre "78 # m" d post] assms(1,4) m(1) by simp
  have c: "nat (min (int (length d)) 256 mod 2 ^ 32) = 256"
    using assms(2) by simp
  have h: "hex_slice ?script (i + 5) 256 = Inr (hex_of (take 256 d))"
    using hex_slice_middle [of "i + 5" "pre @ 78 # m" 256 d post] assms(1,2,4) unat_u32_add [of i 5] m(1) by simp
  have f: "byte_at ?script (uint i) = Inr 78"
    using byte_at_middle [OF assms(1)] by simp
  have r: "mem_read ?script (unat i + 1) 4 = Inr m"
    using mem_read_middle [of "unat i + 1" "pre @ [78]" m 4 "d @ post"] assms(1) m(1) by simp
  show ?thesis
    by (simp only: op_step_def f bind_res_Inr r m(2) Let_def w b c n h if_False if_True op_tests)
qed

lemma op_step_item:
  assumes "unat i = length pre" "item_ok it" "length (pre @ item_bytes it @ post) < 2 ^ 31"
  shows "op_step (pre @ item_bytes it @ post) i = Inr (Some (show_item it, i + of_nat (length (item_bytes it))))"
proof (cases it)
  case (Op b)
  then show ?thesis
    using op_step_op [of "pre @ b # post" i b] byte_at_middle [OF assms(1)] assms(2) by simp
next
  case (Push d)
  consider "length d \<le> 75" | "75 < length d" "length d < 255" | "255 \<le> length d" "length d < 65535" | "65535 \<le> length d"
    by linarith
  then show ?thesis
  proof cases
    case 1
    then have h: "push_bytes d = [of_nat (length d)] @ d"
      by (simp add: push_short)
    show ?thesis
      using op_step_short [of i pre d post] assms 1 by (simp add: Push h del: show_item.simps)
  next
    case 2
    then have h: "push_bytes d = [76, of_nat (length d)] @ d"
      by (simp add: push_bytes_def getPushDataHeader_def put_uint8_t_def)
    show ?thesis
      using op_step_push1 [of i pre d post] assms 2 by (simp add: Push h Let_def)
  next
    case 3
    then have h: "push_bytes d = (77 # IntToStrLE (of_nat (length d) :: u16)) @ d"
      by (simp add: push_bytes_def getPushDataHeader_def put_uint8_t_def put_uint16_t_def bytes_of_int_def)
    have "length (IntToStrLE (of_nat (length d) :: u16)) = 2"
      using length_bytes_of_int [of ENDIAN_LITTLE "of_nat (length d) :: u16"] by (simp add: bytes_of_int_def)
    then show ?thesis
      using op_step_push2 [of i pre d _ post] assms 3 by (simp add: Push h Let_def)
  next
    case 4
    then have h: "push_bytes d = (78 # IntToStrLE (of_nat (length d) :: u32)) @ d"
      using assms(2) by (simp add: Push push_bytes_def getPushDataHeader_def put_uint8_t_def put_uint32_t_def bytes_of_int_def)
    have "length (IntToStrLE (of_nat (length d) :: u32)) = 4"
      using length_bytes_of_int [of ENDIAN_LITTLE "of_nat (length d) :: u32"] by (simp add: bytes_of_int_def)
    then show ?thesis
      using op_step_push4 [of i pre d _ post] assms 4 by (simp add: Push h Let_def)
  qed
qed

lemma item_bytes_ne: "item_ok it \<Longrightarrow> item_bytes it \<noteq> []"
  by (cases it) (auto simp: push_bytes_def getPushDataHeader_def put_uint8_t_def put_uint16_t_def put_uint32_t_def split: if_splits)

lemma ops_loop_items:
  assumes "unat i = length pre" "list_all item_ok items" "length (pre @ concat (map item_bytes items)) < 2 ^ 31"
  shows "ops_loop (pre @ concat (map item_bytes items)) i acc = Some (Inr (acc @ concat (map show_item items)))"
  using assms
proof (induction items arbitrary: pre i acc)
  case Nil
  then show ?case
    by (simp add: ops_loop.simps)
next
  case (Cons it items)
  let ?rest = "concat (map item_bytes items)" and ?i = "i + of_nat (length (item_bytes it))"
  have step: "op_step (pre @ item_bytes it @ ?rest) i = Inr (Some (show_item it, ?i))"
    using Cons.prems by (intro op_step_item) simp_all
  have "unat ?i = length (pre @ item_bytes it)"
    using Cons.prems by (subst unat_u32_add) simp_all
  then have "ops_loop ((pre @ item_bytes it) @ ?rest) ?i (acc @ show_item it) = Some (Inr ((acc @ show_item it) @ concat (map show_item items)))"
    using Cons.prems by (intro Cons.IH) simp_all
  then show ?case
    using Cons.prems(1,2) step item_bytes_ne [of it] by (simp add: ops_loop.simps [of _ i])
qed

text \<open>
  C30: \<open>convertScriptToOpStrings\<close> returns on every well-formed script below 2 GB, and lists exactly its
  operations: names, sizes and the pushed bytes in hex, cut at 256 bytes for the larger pushes.
\<close>

theorem op_strings_correct:
  assumes "list_all item_ok items" "length (concat (map item_bytes items)) < 2 ^ 31"
  shows "convertScriptToOpStrings (concat (map item_bytes items)) = Some (Inr (concat (map show_item items)))"
  using ops_loop_items [of 0 "[]" items "[]"] assms by (simp add: convertScriptToOpStrings_def)

theorem op_strings_correct_witness:
  "convertScriptToOpStrings (concat (map item_bytes [Op 0x76, Op 0xa9, Push [1, 2], Op 0])) =
    Some (Inr (concat (map show_item [Op 0x76, Op 0xa9, Push [1, 2], Op 0])))"
  by (rule op_strings_correct) (simp_all add: push_short)

section \<open>Scripts that are not well formed\<close>

lemma op_step_wraps: "\<exists>strs. op_step [0x4e, 0xfb, 0xff, 0xff, 0xff] 0 = Inr (Some (strs, 0))"
proof -
  have "StrToIntLE [0xfb, 0xff, 0xff, 0xff] = (0xfffffffb :: u32)"
    by (simp add: StrToIntLE_def)
  then show ?thesis
    by (simp add: op_step_def byte_at_def mem_read_def bslice_def hex_slice_def getSliceCopy_def toHexStr_def sz_add_def)
qed

lemma ops_loop_diverges:
  assumes "ops_loop script i acc = Some res"
  shows "\<not> (script = [0x4e, 0xfb, 0xff, 0xff, 0xff] \<and> i = 0)"
  using assms
proof (rule ops_loop.raw_induct [of "\<lambda>script i acc res. \<not> (script = [0x4e, 0xfb, 0xff, 0xff, 0xff] \<and> i = 0)", rotated], goal_cases)
  case (1 loop script i acc res)
  obtain strs where strs: "op_step [0x4e, 0xfb, 0xff, 0xff, 0xff] 0 = Inr (Some (strs, 0))"
    using op_step_wraps by blast
  show ?case
  proof
    assume "script = [0x4e, 0xfb, 0xff, 0xff, 0xff] \<and> i = 0"
    then have "loop [0x4e, 0xfb, 0xff, 0xff, 0xff] 0 (acc @ strs) = Some res"
      using 1(2) strs by simp
    then show False
      using 1(1) by blast
  qed
qed


end
