(* ===== verification/Merkle_Tree.thy ===== *)
theory Merkle_Tree
  imports Binary_Writer
begin

text \<open>
  Merkle trees of a block's transactions (BtcUtils.h): the flat vector of all levels and the root. The
  double SHA-256 is third-party code and appears as the argument \<open>hash256\<close>.
\<close>

section \<open>Vectors\<close>

text \<open>Reading and writing a vector by index; outside its range the behaviour is undefined.\<close>

definition vec_at :: "'a list \<Rightarrow> nat \<Rightarrow> 'a res" where
  "vec_at v i = (if i < length v then Inr (v ! i) else Inl Undefined_Behaviour)"

definition vec_set :: "'a list \<Rightarrow> nat \<Rightarrow> 'a \<Rightarrow> 'a list res" where
  "vec_set v i x = (if i < length v then Inr (v[i := x]) else Inl Undefined_Behaviour)"

lemma vec_at_middle [simp]: "i = length xs \<Longrightarrow> vec_at (xs @ y # ys) i = Inr y"
  by (simp add: vec_at_def)

lemma vec_set_middle: "i = length xs \<Longrightarrow> vec_set (xs @ y # ys) i x = Inr (xs @ x # ys)"
  by (simp add: vec_set_def)

lemma vec_at_append: "length xs \<le> i \<Longrightarrow> i < length xs + length ys \<Longrightarrow> vec_at (xs @ ys @ zs) i = Inr (ys ! (i - length xs))"
  by (auto simp: vec_at_def nth_append)

section \<open>The tree\<close>

text \<open>The 64 bytes hashed for node \<open>j\<close> of the next level; \<open>copyTo\<close> reads 32 bytes of each half.\<close>

definition hash_input :: "nat \<Rightarrow> nat \<Rightarrow> nat \<Rightarrow> nat \<Rightarrow> bytes list \<Rightarrow> bytes res" where
  "hash_input thisLevelStart nextLevelStart levelSize j merkleTree =
     (if j < levelSize div 2 then
        bind_res (vec_at merkleTree (thisLevelStart + 2 * j)) (\<lambda>a.
          bind_res (mem_read a 0 32) (\<lambda>half1.
            bind_res (vec_at merkleTree (thisLevelStart + 2 * j + 1)) (\<lambda>b.
              bind_res (mem_read b 0 32) (\<lambda>half2. Inr (half1 @ half2)))))
      else
        bind_res (vec_at merkleTree (nextLevelStart - 1)) (\<lambda>a.
          bind_res (mem_read a 0 32) (\<lambda>half. Inr (half @ half))))"

fun level_loop :: "(bytes \<Rightarrow> bytes) \<Rightarrow> nat \<Rightarrow> nat \<Rightarrow> nat \<Rightarrow> nat \<Rightarrow> nat \<Rightarrow> bytes list \<Rightarrow> bytes list res" where
  "level_loop hash256 thisLevelStart nextLevelStart levelSize j 0 merkleTree = Inr merkleTree"
| "level_loop hash256 thisLevelStart nextLevelStart levelSize j (Suc k) merkleTree =
     bind_res (hash_input thisLevelStart nextLevelStart levelSize j merkleTree) (\<lambda>hashInput.
       bind_res (vec_set merkleTree (nextLevelStart + j) (hash256 hashInput)) (\<lambda>tree'.
         level_loop hash256 thisLevelStart nextLevelStart levelSize (j + 1) k tree'))"

function tree_loop :: "(bytes \<Rightarrow> bytes) \<Rightarrow> nat \<Rightarrow> nat \<Rightarrow> nat \<Rightarrow> bytes list \<Rightarrow> (nat \<times> bytes list) res" where
  "tree_loop hash256 thisLevelStart nextLevelStart levelSize merkleTree =
     (if levelSize > 1 then
        bind_res (level_loop hash256 thisLevelStart nextLevelStart levelSize 0 ((levelSize + 1) div 2) merkleTree) (\<lambda>tree'.
          tree_loop hash256 nextLevelStart (nextLevelStart + (levelSize + 1) div 2) ((levelSize + 1) div 2) tree')
      else Inr (nextLevelStart, merkleTree))"
  by pat_completeness auto
termination
  by (relation "measure (\<lambda>(_, _, _, levelSize, _). levelSize)") auto

declare tree_loop.simps [simp del]

definition calculateMerkleTree :: "(bytes \<Rightarrow> bytes) \<Rightarrow> bytes list \<Rightarrow> bytes list res" where
  "calculateMerkleTree hash256 txhashlist =
     (let numTx = length txhashlist
      in bind_res (tree_loop hash256 0 numTx numTx (txhashlist @ replicate (2 * numTx) [])) (\<lambda>(nextLevelStart, merkleTree).
           Inr (take nextLevelStart merkleTree)))"

definition calculateMerkleRoot :: "(bytes \<Rightarrow> bytes) \<Rightarrow> bytes list \<Rightarrow> bytes res" where
  "calculateMerkleRoot hash256 txhashlist =
     bind_res (calculateMerkleTree hash256 txhashlist) (\<lambda>mtree. vec_at mtree (sz_sub (length mtree) 1))"

section \<open>The tree by levels\<close>

text \<open>What the code relies on of the hash function: the digest has 32 bytes.\<close>

definition digest32 :: "(bytes \<Rightarrow> bytes) \<Rightarrow> bool" where
  "digest32 hash256 \<longleftrightarrow> (\<forall>b. length (hash256 b) = 32)"

text \<open>The reference: pair up a level, the last one with itself, until one hash is left.\<close>

fun level_up :: "(bytes \<Rightarrow> bytes) \<Rightarrow> bytes list \<Rightarrow> bytes list" where
  "level_up hash256 (x # y # level) = hash256 (x @ y) # level_up hash256 level"
| "level_up hash256 [x] = [hash256 (x @ x)]"
| "level_up hash256 [] = []"

lemma length_level_up [simp]: "length (level_up hash256 level) = (length level + 1) div 2"
  by (induction hash256 level rule: level_up.induct) auto

function merkle_levels :: "(bytes \<Rightarrow> bytes) \<Rightarrow> bytes list \<Rightarrow> bytes list" where
  "merkle_levels hash256 level = level @ (if length level > 1 then merkle_levels hash256 (level_up hash256 level) else [])"
  by pat_completeness auto
termination
  by (relation "measure (\<lambda>(_, level). length level)") auto

function merkle_root :: "(bytes \<Rightarrow> bytes) \<Rightarrow> bytes list \<Rightarrow> bytes" where
  "merkle_root hash256 level = (if length level > 1 then merkle_root hash256 (level_up hash256 level) else hd level)"
  by pat_completeness auto
termination
  by (relation "measure (\<lambda>(_, level). length level)") auto

declare merkle_levels.simps [simp del] merkle_root.simps [simp del]

lemma level_up_nth:
  "j < (length level + 1) div 2 \<Longrightarrow> level_up hash256 level ! j =
    (if j < length level div 2 then hash256 (level ! (2 * j) @ level ! (2 * j + 1)) else hash256 (last level @ last level))"
proof (induction hash256 level arbitrary: j rule: level_up.induct)
  case (1 hash256 x y level)
  then show ?case
    by (cases j) auto
qed auto

lemma level_up_hashes: "digest32 hash256 \<Longrightarrow> h \<in> set (level_up hash256 level) \<Longrightarrow> length h = 32"
  by (induction hash256 level rule: level_up.induct) (auto simp: digest32_def)

lemma merkle_levels_size: "level \<noteq> [] \<Longrightarrow> length (merkle_levels hash256 level) + 2 \<le> 3 * length level"
proof (induction hash256 level rule: merkle_levels.induct)
  case (1 hash256 level)
  show ?case
  proof (cases "length level > 1")
    case True
    then have "level_up hash256 level \<noteq> []"
      by (cases "(hash256, level)" rule: level_up.cases) auto
    then have "length (merkle_levels hash256 (level_up hash256 level)) + 2 \<le> 3 * ((length level + 1) div 2)"
      using 1(1) [OF True] by simp
    then show ?thesis
      using True by (simp add: merkle_levels.simps [of _ level])
  next
    case False
    then show ?thesis
      using 1(2) by (cases level) (simp_all add: merkle_levels.simps)
  qed
qed

section \<open>The vector holds the levels\<close>

lemma hash_input_level:
  assumes "\<forall>h \<in> set level. length h = 32" "j < (length level + 1) div 2"
  shows "bind_res (hash_input (length pre) (length pre + length level) (length level) j (pre @ level @ rest)) (\<lambda>b. Inr (hash256 b)) =
    Inr (level_up hash256 level ! j)"
proof (cases "j < length level div 2")
  case True
  then have "vec_at (pre @ level @ rest) (length pre + 2 * j) = Inr (level ! (2 * j))"
    "vec_at (pre @ level @ rest) (length pre + 2 * j + 1) = Inr (level ! (2 * j + 1))"
    by (auto simp: vec_at_append)
  moreover have "length (level ! (2 * j)) = 32" "length (level ! (2 * j + 1)) = 32"
    using True assms(1) by (auto intro!: nth_mem)
  ultimately show ?thesis
    using True assms(2) by (simp add: hash_input_def level_up_nth mem_read_def)
next
  case False
  then have ne: "level \<noteq> []"
    using assms(2) by auto
  then have "0 < length level"
    by simp
  then have "vec_at (pre @ level @ rest) (length pre + length level - 1) = Inr (last level)"
    using ne by (subst vec_at_append) (auto simp: last_conv_nth simp del: length_greater_0_conv)
  moreover have "length (last level) = 32"
    using ne assms(1) by auto
  ultimately show ?thesis
    using False assms(2) by (simp add: hash_input_def level_up_nth mem_read_def)
qed

lemma level_loop_level:
  assumes "\<forall>h \<in> set level. length h = 32" "length ups + k = (length level + 1) div 2" "ups = take (length ups) (level_up hash256 level)"
    "k \<le> length rest"
  shows "level_loop hash256 (length pre) (length pre + length level) (length level) (length ups) k (pre @ level @ ups @ rest) =
    Inr (pre @ level @ level_up hash256 level @ drop k rest)"
  using assms
proof (induction k arbitrary: ups rest)
  case 0
  then show ?case
    by simp
next
  case (Suc k)
  let ?j = "length ups"
  obtain r rs where rest: "rest = r # rs"
    using Suc.prems(4) by (cases rest) auto
  obtain input where input: "hash_input (length pre) (length pre + length level) (length level) ?j (pre @ level @ ups @ rest) = Inr input"
    "hash256 input = level_up hash256 level ! ?j"
    using hash_input_level [OF Suc.prems(1), of ?j pre "ups @ rest" hash256] Suc.prems(2) by (auto simp: bind_res_eq_Inr)
  have set: "vec_set (pre @ level @ ups @ rest) (length pre + length level + ?j) (hash256 input) = Inr (pre @ level @ (ups @ [hash256 input]) @ rs)"
    using vec_set_middle [of "length pre + length level + ?j" "pre @ level @ ups" r rs] by (simp add: rest)
  have "ups @ [hash256 input] = take (length (ups @ [hash256 input])) (level_up hash256 level)"
    using Suc.prems(2,3) input(2) by (simp add: take_Suc_conv_app_nth)
  then have "level_loop hash256 (length pre) (length pre + length level) (length level) (length (ups @ [hash256 input])) k (pre @ level @ (ups @ [hash256 input]) @ rs) =
    Inr (pre @ level @ level_up hash256 level @ drop k rs)"
    using Suc.prems rest by (intro Suc.IH) auto
  then show ?case
    using input(1) set rest by simp
qed

lemma tree_loop_levels:
  assumes "digest32 hash256" "\<forall>h \<in> set level. length h = 32" "length (merkle_levels hash256 level) \<le> length level + length rest"
  shows "\<exists>rest'. tree_loop hash256 (length pre) (length pre + length level) (length level) (pre @ level @ rest) =
    Inr (length pre + length (merkle_levels hash256 level), pre @ merkle_levels hash256 level @ rest')"
  using assms
proof (induction hash256 level arbitrary: pre rest rule: merkle_levels.induct)
  case (1 hash256 level)
  show ?case
  proof (cases "length level > 1")
    case True
    let ?up = "level_up hash256 level"
    have levels: "merkle_levels hash256 level = level @ merkle_levels hash256 ?up"
      using True by (simp add: merkle_levels.simps [of _ level])
    have "length ?up \<le> length (merkle_levels hash256 ?up)"
      by (subst merkle_levels.simps) simp
    then have room: "length ?up \<le> length rest" "length (merkle_levels hash256 ?up) \<le> length rest"
      using 1(4) levels by simp_all
    have loop: "level_loop hash256 (length pre) (length pre + length level) (length level) 0 ((length level + 1) div 2) (pre @ level @ rest) =
        Inr ((pre @ level) @ ?up @ drop (length ?up) rest)"
      using level_loop_level [OF 1(3), of "[]" "(length level + 1) div 2" hash256 rest pre] room(1) by simp
    have "\<forall>h \<in> set ?up. length h = 32"
      using level_up_hashes [OF 1(2)] by blast
    then obtain rest' where "tree_loop hash256 (length (pre @ level)) (length (pre @ level) + length ?up) (length ?up) ((pre @ level) @ ?up @ drop (length ?up) rest) =
      Inr (length (pre @ level) + length (merkle_levels hash256 ?up), (pre @ level) @ merkle_levels hash256 ?up @ rest')"
      using 1(1) [OF True 1(2), of "drop (length ?up) rest" "pre @ level"] room by auto
    then show ?thesis
      using True loop levels by (subst tree_loop.simps) (simp add: add.assoc)
  next
    case False
    then show ?thesis
      by (subst tree_loop.simps, subst (1 2) merkle_levels.simps) auto
  qed
qed

lemma calculateMerkleTree_levels:
  assumes "digest32 hash256" "\<forall>h \<in> set txs. length h = 32"
  shows "calculateMerkleTree hash256 txs = Inr (merkle_levels hash256 txs)"
proof -
  have "length (merkle_levels hash256 txs) \<le> 3 * length txs"
    using merkle_levels_size [of txs hash256] by (cases "txs = []") (auto simp: merkle_levels.simps)
  then obtain rest' where "tree_loop hash256 0 (length txs) (length txs) (txs @ replicate (2 * length txs) []) =
    Inr (length (merkle_levels hash256 txs), merkle_levels hash256 txs @ rest')"
    using tree_loop_levels [OF assms, where rest = "replicate (2 * length txs) []" and pre = "[]"] by auto
  then show ?thesis
    by (simp add: calculateMerkleTree_def)
qed

lemma last_merkle_levels: "level \<noteq> [] \<Longrightarrow> last (merkle_levels hash256 level) = merkle_root hash256 level"
proof (induction hash256 level rule: merkle_levels.induct)
  case (1 hash256 level)
  show ?case
  proof (cases "length level > 1")
    case True
    then have "level_up hash256 level \<noteq> []"
      by (cases "(hash256, level)" rule: level_up.cases) auto
    moreover have "merkle_levels hash256 (level_up hash256 level) \<noteq> []"
      using calculation by (subst merkle_levels.simps) simp
    ultimately show ?thesis
      using 1(1) [OF True] True by (simp add: merkle_levels.simps [of _ level] merkle_root.simps [of _ level])
  next
    case False
    then show ?thesis
      using 1(2) by (cases level) (simp_all add: merkle_levels.simps merkle_root.simps)
  qed
qed

text \<open>
  C36: \<open>calculateMerkleTree\<close> computes the Merkle tree of a list of transaction hashes level by level inside its
  vector of three times their number, and \<open>calculateMerkleRoot\<close> its root; on an empty list the root is
  read out of bounds.
\<close>

theorem merkle_tree_correct:
  assumes "digest32 hash256" "\<forall>h \<in> set txs. length h = 32" "length txs < 2 ^ 32"
  shows "calculateMerkleTree hash256 txs = Inr (merkle_levels hash256 txs) \<and>
    calculateMerkleRoot hash256 txs = (if txs = [] then Inl Undefined_Behaviour else Inr (merkle_root hash256 txs))"
proof (cases "txs = []")
  case True
  have "merkle_levels hash256 [] = []"
    by (simp add: merkle_levels.simps)
  then show ?thesis
    using True calculateMerkleTree_levels [OF assms(1,2)] by (simp add: calculateMerkleRoot_def vec_at_def)
next
  case False
  then have size: "length (merkle_levels hash256 txs) < size_t_mod" "merkle_levels hash256 txs \<noteq> []"
    using merkle_levels_size [OF False, of hash256] assms(3) by (simp, subst merkle_levels.simps, simp)
  then show ?thesis
    using False calculateMerkleTree_levels [OF assms(1,2)] last_merkle_levels [OF False, of hash256]
    by (simp add: calculateMerkleRoot_def vec_at_def last_conv_nth Suc_le_eq)
qed

theorem merkle_tree_correct_witness:
  "calculateMerkleTree (\<lambda>b. replicate 32 (hd b)) [replicate 32 1, replicate 32 2, replicate 32 3] =
     Inr (merkle_levels (\<lambda>b. replicate 32 (hd b)) [replicate 32 1, replicate 32 2, replicate 32 3])"
  using merkle_tree_correct [of "\<lambda>b. replicate 32 (hd b)" "[replicate 32 1, replicate 32 2, replicate 32 3]"] by (simp add: digest32_def)

end
