(* ===== verification/Partial_Merkle.thy ===== *)
theory Partial_Merkle
  imports Merkle_Tree
begin

text \<open>
  Partial Merkle trees (PartialMerkle.h): the nodes of a tree with the transactions of interest marked,
  its serialisation without the subtrees that hold none of them, and reading it back.
\<close>

section \<open>Nodes\<close>

datatype MerkleNode = MerkleNode (nodeHash: bytes) (isOnPath: bool) (isLeaf: bool)
  (ptrLeft: "MerkleNode option") (ptrRight: "MerkleNode option")

record PartialMerkleTree =
  pmt_root :: "MerkleNode option"
  pmt_numTx :: u32

text \<open>A leaf without a hash is reported and then its missing left child is followed.\<close>

fun recurseCalcHash :: "(bytes \<Rightarrow> bytes) \<Rightarrow> MerkleNode \<Rightarrow> bytes res" where
  "recurseCalcHash hash256 (MerkleNode h onPath leaf left right) =
     (if h \<noteq> [] then Inr h
      else case left of
        None \<Rightarrow> Inl Undefined_Behaviour
      | Some l \<Rightarrow>
          bind_res (recurseCalcHash hash256 l) (\<lambda>leftHash.
            bind_res (mem_read leftHash 0 32) (\<lambda>half1.
              case right of
                None \<Rightarrow> Inr (hash256 (half1 @ half1))
              | Some r \<Rightarrow>
                  bind_res (recurseCalcHash hash256 r) (\<lambda>rightHash.
                    bind_res (mem_read rightHash 0 32) (\<lambda>half2. Inr (hash256 (half1 @ half2)))))))"

definition pmt_getMerkleRoot :: "(bytes \<Rightarrow> bytes) \<Rightarrow> PartialMerkleTree \<Rightarrow> (bytes \<times> PartialMerkleTree) res" where
  "pmt_getMerkleRoot hash256 t =
     (case pmt_root t of
        None \<Rightarrow> Inr ([], t)
      | Some r \<Rightarrow>
          if nodeHash r = [] then
            bind_res (recurseCalcHash hash256 r) (\<lambda>h.
              Inr (h, t\<lparr>pmt_root := Some (MerkleNode h (isOnPath r) (isLeaf r) (ptrLeft r) (ptrRight r))\<rparr>))
          else Inr (nodeHash r, t))"

section \<open>Building the nodes\<close>

definition leaf_node :: "bool list option \<Rightarrow> bytes list option \<Rightarrow> nat \<Rightarrow> MerkleNode res" where
  "leaf_node bits hashes i =
     bind_res (case bits of None \<Rightarrow> Inr False | Some bs \<Rightarrow> vec_at bs i) (\<lambda>onPath.
       bind_res (case hashes of None \<Rightarrow> Inr [] | Some hs \<Rightarrow> vec_at hs i) (\<lambda>h.
         Inr (MerkleNode h onPath True None None)))"

fun leaf_loop :: "bool list option \<Rightarrow> bytes list option \<Rightarrow> nat \<Rightarrow> nat \<Rightarrow> MerkleNode list res" where
  "leaf_loop bits hashes i 0 = Inr []"
| "leaf_loop bits hashes i (Suc k) =
     bind_res (leaf_node bits hashes i) (\<lambda>n. bind_res (leaf_loop bits hashes (i + 1) k) (\<lambda>ns. Inr (n # ns)))"

text \<open>A node over one or two nodes of the lower level; its hash is computed when hashes were given.\<close>

definition parent_node :: "(bytes \<Rightarrow> bytes) \<Rightarrow> bool \<Rightarrow> MerkleNode \<Rightarrow> MerkleNode option \<Rightarrow> MerkleNode res" where
  "parent_node hash256 hashes left right =
     (let onPath = (isOnPath left \<or> (case right of None \<Rightarrow> False | Some r \<Rightarrow> isOnPath r));
          newNode = MerkleNode [] onPath False (Some left) right
      in if hashes then bind_res (recurseCalcHash hash256 newNode) (\<lambda>h. Inr (MerkleNode h onPath False (Some left) right))
         else Inr newNode)"

fun upper_level :: "(bytes \<Rightarrow> bytes) \<Rightarrow> bool \<Rightarrow> MerkleNode list \<Rightarrow> MerkleNode list res" where
  "upper_level hash256 hashes (a # b # lower) =
     bind_res (parent_node hash256 hashes a (Some b)) (\<lambda>n.
       bind_res (upper_level hash256 hashes lower) (\<lambda>ns. Inr (n # ns)))"
| "upper_level hash256 hashes [a] = bind_res (parent_node hash256 hashes a None) (\<lambda>n. Inr [n])"
| "upper_level hash256 hashes [] = Inr []"

lemma upper_level_length: "upper_level hash256 hashes lower = Inr upper \<Longrightarrow> length upper = (length lower + 1) div 2"
  by (induction hash256 hashes lower arbitrary: upper rule: upper_level.induct) (auto simp: bind_res_eq_Inr)

function level_nodes :: "(bytes \<Rightarrow> bytes) \<Rightarrow> bool \<Rightarrow> MerkleNode list \<Rightarrow> MerkleNode res" where
  "level_nodes hash256 hashes levelLower =
     (if length levelLower > 1 then bind_res (upper_level hash256 hashes levelLower) (\<lambda>levelUpper. level_nodes hash256 hashes levelUpper)
      else vec_at levelLower 0)"
  by pat_completeness auto
termination
  by (relation "measure (\<lambda>(_, _, levelLower). length levelLower)") (auto dest: upper_level_length)

declare level_nodes.simps [simp del]

definition createTreeNodes :: "(bytes \<Rightarrow> bytes) \<Rightarrow> u32 \<Rightarrow> bool list option \<Rightarrow> bytes list option \<Rightarrow> PartialMerkleTree res" where
  "createTreeNodes hash256 nTx bits hashes =
     bind_res (leaf_loop bits hashes 0 (unat nTx)) (\<lambda>levelLower.
       bind_res (level_nodes hash256 (hashes \<noteq> None) levelLower) (\<lambda>root.
         Inr \<lparr>pmt_root = Some root, pmt_numTx = nTx\<rparr>))"

section \<open>Serialisation\<close>

fun recurseSerializeTree :: "MerkleNode \<Rightarrow> bool list \<times> bytes list \<Rightarrow> bool list \<times> bytes list" where
  "recurseSerializeTree (MerkleNode h onPath leaf left right) (vBits, vHash) =
     (if \<not> onPath \<or> leaf then (vBits @ [onPath], vHash @ [h])
      else let s = (case left of None \<Rightarrow> (vBits @ [onPath], vHash) | Some l \<Rightarrow> recurseSerializeTree l (vBits @ [onPath], vHash))
           in case right of None \<Rightarrow> s | Some r \<Rightarrow> recurseSerializeTree r s)"

definition pmt_serialize :: "PartialMerkleTree \<Rightarrow> bytes" where
  "pmt_serialize t =
     (case pmt_root t of
        None \<Rightarrow> []
      | Some r \<Rightarrow>
          let (vBits, vHash) = recurseSerializeTree r ([], []);
              bw = put_uint32_t (pmt_numTx t) ENDIAN_LITTLE [];
              bw = snd (put_var_int (of_nat (length vHash)) bw);
              bw = foldl (\<lambda>bw h. put_BinaryDataRef h bw) bw vHash;
              bw = snd (put_var_int (of_nat (length vBits)) bw)
          in put_BinaryDataRef (PackBits vBits) bw)"

text \<open>Taking the first element of an empty list is undefined.\<close>

fun recurseUnserializeTree :: "(bytes \<Rightarrow> bytes) \<Rightarrow> MerkleNode \<Rightarrow> bool list \<Rightarrow> bytes list \<Rightarrow> (MerkleNode \<times> bool list \<times> bytes list) res" where
  "recurseUnserializeTree hash256 (MerkleNode h0 p0 leaf left right) vBits vHash =
     (case vBits of
        [] \<Rightarrow> Inl Undefined_Behaviour
      | onPath # bits1 \<Rightarrow>
          if \<not> onPath \<or> leaf then
            (case vHash of
               [] \<Rightarrow> Inl Undefined_Behaviour
             | h # hash1 \<Rightarrow> Inr (MerkleNode h onPath leaf left right, bits1, hash1))
          else
            bind_res (case left of
                None \<Rightarrow> Inr (None, bits1, vHash)
              | Some l \<Rightarrow> bind_res (recurseUnserializeTree hash256 l bits1 vHash) (\<lambda>(l', bs, hs). Inr (Some l', bs, hs)))
              (\<lambda>(left', bits2, hash2).
                bind_res (case right of
                    None \<Rightarrow> Inr (None, bits2, hash2)
                  | Some r \<Rightarrow> bind_res (recurseUnserializeTree hash256 r bits2 hash2) (\<lambda>(r', bs, hs). Inr (Some r', bs, hs)))
                  (\<lambda>(right', bits3, hash3).
                    bind_res (recurseCalcHash hash256 (MerkleNode h0 onPath leaf left' right')) (\<lambda>h.
                      Inr (MerkleNode h onPath leaf left' right', bits3, hash3)))))"

definition pmt_unserialize :: "(bytes \<Rightarrow> bytes) \<Rightarrow> PartialMerkleTree \<Rightarrow> brr \<Rightarrow> PartialMerkleTree res" where
  "pmt_unserialize hash256 t r0 =
     (if pmt_root t = None then Inr t
      else bind_res (get_uint32_t ENDIAN_LITTLE r0) (\<lambda>(numTx, r1).
        bind_res (createTreeNodes hash256 numTx None None) (\<lambda>blankTree.
          bind_res (get_var_int r1) (\<lambda>(numHash, r2).
            bind_res (read_many (get_BinaryData 32) (unat (ucast numHash :: u32)) r2) (\<lambda>(vHash, r3).
              bind_res (get_var_int r3) (\<lambda>(n, r4).
                let numBits = ucast n :: u32
                in bind_res (get_BinaryData (unat ((numBits + 7) div 8)) r4) (\<lambda>(vBytes, r5).
                  bind_res (UnpackBits vBytes numBits) (\<lambda>vBits.
                    bind_res (recurseUnserializeTree hash256 (the (pmt_root blankTree)) vBits vHash) (\<lambda>(root, _, _).
                      bind_res (recurseCalcHash hash256 root) (\<lambda>_.
                        Inr (blankTree\<lparr>pmt_root := Some root\<rparr>))))))))))) "

section \<open>Well-formed trees\<close>

text \<open>A tree whose hashes and marks are those of its leaves.\<close>

inductive hashed_tree :: "(bytes \<Rightarrow> bytes) \<Rightarrow> MerkleNode \<Rightarrow> bool" for hash256 where
  leaf: "length h = 32 \<Longrightarrow> hashed_tree hash256 (MerkleNode h onPath True None None)"
| single: "hashed_tree hash256 l \<Longrightarrow>
    hashed_tree hash256 (MerkleNode (hash256 (nodeHash l @ nodeHash l)) (isOnPath l) False (Some l) None)"
| pair: "hashed_tree hash256 l \<Longrightarrow> hashed_tree hash256 r \<Longrightarrow>
    hashed_tree hash256 (MerkleNode (hash256 (nodeHash l @ nodeHash r)) (isOnPath l \<or> isOnPath r) False (Some l) (Some r))"

primrec blank :: "MerkleNode \<Rightarrow> MerkleNode" where
  "blank (MerkleNode h onPath leaf left right) = MerkleNode [] False leaf (map_option blank left) (map_option blank right)"

primrec prune :: "MerkleNode \<Rightarrow> MerkleNode" where
  "prune (MerkleNode h onPath leaf left right) =
     MerkleNode h onPath leaf
       (if onPath \<and> \<not> leaf then map_option prune left else map_option blank left)
       (if onPath \<and> \<not> leaf then map_option prune right else map_option blank right)"

fun tree_leaves :: "MerkleNode \<Rightarrow> (bytes \<times> bool) list" where
  "tree_leaves (MerkleNode h onPath leaf left right) =
     (if leaf then [(h, onPath)]
      else (case left of None \<Rightarrow> [] | Some l \<Rightarrow> tree_leaves l) @ (case right of None \<Rightarrow> [] | Some r \<Rightarrow> tree_leaves r))"

fun node_count :: "MerkleNode \<Rightarrow> nat" where
  "node_count (MerkleNode h onPath leaf left right) =
     1 + (case left of None \<Rightarrow> 0 | Some l \<Rightarrow> node_count l) + (case right of None \<Rightarrow> 0 | Some r \<Rightarrow> node_count r)"

lemma nodeHash_prune [simp]: "nodeHash (prune t) = nodeHash t" "isOnPath (prune t) = isOnPath t"
  by (cases t; simp)+

lemma isOnPath_blank [simp]: "isOnPath (blank t) = False"
  by (cases t) simp

lemma hashed_tree_length: "hashed_tree hash256 t \<Longrightarrow> digest32 hash256 \<Longrightarrow> length (nodeHash t) = 32"
  by (induction rule: hashed_tree.induct) (auto simp: digest32_def)

lemma recurseCalcHash_known: "nodeHash t \<noteq> [] \<Longrightarrow> recurseCalcHash hash256 t = Inr (nodeHash t)"
  by (cases t) simp

lemma recurseCalcHash_single:
  "length (nodeHash l) = 32 \<Longrightarrow> recurseCalcHash hash256 (MerkleNode [] onPath leaf (Some l) None) = Inr (hash256 (nodeHash l @ nodeHash l))"
  using recurseCalcHash_known [of l hash256] by (cases "nodeHash l = []") (auto simp: mem_read_def)

lemma recurseCalcHash_pair:
  "length (nodeHash l) = 32 \<Longrightarrow> length (nodeHash r) = 32 \<Longrightarrow>
    recurseCalcHash hash256 (MerkleNode [] onPath leaf (Some l) (Some r)) = Inr (hash256 (nodeHash l @ nodeHash r))"
  using recurseCalcHash_known [of l hash256] recurseCalcHash_known [of r hash256] by (cases "nodeHash l = []"; cases "nodeHash r = []") (auto simp: mem_read_def)

text \<open>Serialising appends to what is there.\<close>

definition bits_of :: "MerkleNode \<Rightarrow> bool list" where
  "bits_of t = fst (recurseSerializeTree t ([], []))"

definition hashes_of :: "MerkleNode \<Rightarrow> bytes list" where
  "hashes_of t = snd (recurseSerializeTree t ([], []))"

lemmas serialized_node = bits_of_def [of "MerkleNode h onPath leaf left right" for h onPath leaf left right]
  hashes_of_def [of "MerkleNode h onPath leaf left right" for h onPath leaf left right]

lemma serialize_appends:
  "hashed_tree hash256 t \<Longrightarrow> recurseSerializeTree t (vBits, vHash) = (vBits @ bits_of t, vHash @ hashes_of t)"
proof (induction arbitrary: vBits vHash rule: hashed_tree.induct)
  case (single l)
  then show ?case
    by (cases "isOnPath l") (simp_all add: serialized_node)
next
  case (pair l r)
  then show ?case
    by (cases "isOnPath l \<or> isOnPath r") (simp_all add: serialized_node)
qed (simp add: serialized_node)

lemma bits_hashes_of_simps:
  "bits_of (MerkleNode h onPath True left right) = [onPath]" "hashes_of (MerkleNode h onPath True left right) = [h]"
  "\<not> onPath \<Longrightarrow> bits_of (MerkleNode h onPath leaf left right) = [onPath]"
  "\<not> onPath \<Longrightarrow> hashes_of (MerkleNode h onPath leaf left right) = [h]"
  "hashed_tree hash256 l \<Longrightarrow> bits_of (MerkleNode h True False (Some l) None) = True # bits_of l"
  "hashed_tree hash256 l \<Longrightarrow> hashes_of (MerkleNode h True False (Some l) None) = hashes_of l"
  "hashed_tree hash256 l \<Longrightarrow> hashed_tree hash256 r \<Longrightarrow> bits_of (MerkleNode h True False (Some l) (Some r)) = True # bits_of l @ bits_of r"
  "hashed_tree hash256 l \<Longrightarrow> hashed_tree hash256 r \<Longrightarrow> hashes_of (MerkleNode h True False (Some l) (Some r)) = hashes_of l @ hashes_of r"
  by (simp_all add: serialized_node serialize_appends)

lemma hashes_le_bits: "hashed_tree hash256 t \<Longrightarrow> length (hashes_of t) \<le> length (bits_of t) \<and> length (bits_of t) \<le> node_count t"
proof (induction rule: hashed_tree.induct)
  case (single l)
  then show ?case
    by (cases "isOnPath l") (simp_all add: bits_hashes_of_simps)
next
  case (pair l r)
  then show ?case
    by (cases "isOnPath l \<or> isOnPath r") (simp_all add: bits_hashes_of_simps)
qed (simp add: bits_hashes_of_simps)

lemma hashes_of_32: "hashed_tree hash256 t \<Longrightarrow> digest32 hash256 \<Longrightarrow> list_all (\<lambda>h. length h = 32) (hashes_of t)"
proof (induction rule: hashed_tree.induct)
  case (single l)
  then show ?case
    by (cases "isOnPath l") (simp_all add: bits_hashes_of_simps digest32_def)
next
  case (pair l r)
  then show ?case
    by (cases "isOnPath l \<or> isOnPath r") (simp_all add: bits_hashes_of_simps digest32_def)
qed (simp add: bits_hashes_of_simps)

text \<open>Reading back into a blank tree of the same shape restores all that was kept.\<close>

lemma unserialize_serialize:
  assumes "hashed_tree hash256 t" "digest32 hash256"
  shows "recurseUnserializeTree hash256 (blank t) (bits_of t @ bs) (hashes_of t @ hs) = Inr (prune t, bs, hs)"
  using assms
proof (induction arbitrary: bs hs rule: hashed_tree.induct)
  case (leaf h onPath)
  then show ?case
    by (simp add: bits_hashes_of_simps)
next
  case (single l)
  have l: "length (nodeHash (prune l)) = 32"
    using hashed_tree_length [OF single(1,3)] by simp
  show ?case
  proof (cases "isOnPath l")
    case True
    then show ?thesis
      using single recurseCalcHash_single [OF l] by (simp add: bits_hashes_of_simps del: recurseCalcHash.simps)
  qed (simp add: bits_hashes_of_simps)
next
  case (pair l r)
  have l: "length (nodeHash (prune l)) = 32" "length (nodeHash (prune r)) = 32"
    using hashed_tree_length [OF pair(1,5)] hashed_tree_length [OF pair(2,5)] by simp_all
  show ?case
  proof (cases "isOnPath l \<or> isOnPath r")
    case True
    then show ?thesis
      using pair recurseCalcHash_pair [OF l] by (simp add: bits_hashes_of_simps del: recurseCalcHash.simps)
  qed (simp add: bits_hashes_of_simps)
qed

section \<open>The tree that is built\<close>

text \<open>Nodes of the upper level: hashed, over the blank nodes of the blank lower level, and with the same leaves.\<close>

definition builds :: "(bytes \<Rightarrow> bytes) \<Rightarrow> MerkleNode list \<Rightarrow> MerkleNode list \<Rightarrow> bool" where
  "builds hash256 lower upper \<longleftrightarrow>
     upper_level hash256 True lower = Inr upper \<and> upper_level hash256 False (map blank lower) = Inr (map blank upper) \<and>
     list_all (hashed_tree hash256) upper \<and> map nodeHash upper = level_up hash256 (map nodeHash lower) \<and>
     concat (map tree_leaves upper) = concat (map tree_leaves lower) \<and>
     sum_list (map node_count upper) = length upper + sum_list (map node_count lower)"

lemma parent_node_pair:
  assumes "hashed_tree hash256 a" "hashed_tree hash256 b" "digest32 hash256"
  shows "parent_node hash256 True a (Some b) = Inr (MerkleNode (hash256 (nodeHash a @ nodeHash b)) (isOnPath a \<or> isOnPath b) False (Some a) (Some b))"
  using recurseCalcHash_pair [OF hashed_tree_length [OF assms(1,3)] hashed_tree_length [OF assms(2,3)]]
  by (simp add: parent_node_def del: recurseCalcHash.simps)

lemma parent_node_single:
  assumes "hashed_tree hash256 a" "digest32 hash256"
  shows "parent_node hash256 True a None = Inr (MerkleNode (hash256 (nodeHash a @ nodeHash a)) (isOnPath a) False (Some a) None)"
  using recurseCalcHash_single [OF hashed_tree_length [OF assms]] by (simp add: parent_node_def del: recurseCalcHash.simps)

lemma parent_node_blank:
  "parent_node hash256 False (blank a) (map_option blank b) = Inr (MerkleNode [] False False (Some (blank a)) (map_option blank b))"
  by (cases b) (simp_all add: parent_node_def)

lemma upper_level_builds:
  assumes "list_all (hashed_tree hash256) lower" "digest32 hash256"
  shows "\<exists>upper. builds hash256 lower upper"
  using assms
proof (induction lower rule: induct_list012)
  case 1
  then show ?case
    by (auto simp: builds_def)
next
  case (2 a)
  let ?n = "MerkleNode (hash256 (nodeHash a @ nodeHash a)) (isOnPath a) False (Some a) None"
  have "builds hash256 [a] [?n]"
    using 2 parent_node_single [of hash256 a] parent_node_blank [of hash256 a None] by (simp add: builds_def hashed_tree.single)
  then show ?case
    by blast
next
  case (3 a b lower)
  let ?n = "MerkleNode (hash256 (nodeHash a @ nodeHash b)) (isOnPath a \<or> isOnPath b) False (Some a) (Some b)"
  obtain upper where "builds hash256 lower upper"
    using 3 by auto
  then have "builds hash256 (a # b # lower) (?n # upper)"
    using 3(3,4) parent_node_pair [of hash256 a b] parent_node_blank [of hash256 a "Some b"] by (simp add: builds_def hashed_tree.pair)
  then show ?case
    by blast
qed

definition built :: "(bytes \<Rightarrow> bytes) \<Rightarrow> MerkleNode list \<Rightarrow> MerkleNode \<Rightarrow> bool" where
  "built hash256 nodes r \<longleftrightarrow>
     level_nodes hash256 True nodes = Inr r \<and> level_nodes hash256 False (map blank nodes) = Inr (blank r) \<and>
     hashed_tree hash256 r \<and> nodeHash r = merkle_root hash256 (map nodeHash nodes) \<and>
     tree_leaves r = concat (map tree_leaves nodes) \<and>
     node_count r + length nodes = sum_list (map node_count nodes) + length (merkle_levels hash256 (map nodeHash nodes))"

lemma level_nodes_built:
  assumes "list_all (hashed_tree hash256) nodes" "digest32 hash256" "nodes \<noteq> []"
  shows "\<exists>r. built hash256 nodes r"
  using assms
proof (induction "length nodes" arbitrary: nodes rule: less_induct)
  case less
  show ?case
  proof (cases "length nodes > 1")
    case True
    obtain upper where upper: "builds hash256 nodes upper"
      using upper_level_builds [OF less(2,3)] by blast
    then have len: "length upper = (length nodes + 1) div 2" "list_all (hashed_tree hash256) upper"
      by (auto simp: builds_def dest: upper_level_length)
    then have "length upper < length nodes" "upper \<noteq> []"
      using True by auto
    then obtain r where r: "built hash256 upper r"
      using less(1) len(2) less(3) by blast
    have "built hash256 nodes r"
      using True upper r len(1) unfolding builds_def built_def
      by (simp add: level_nodes.simps [of _ _ nodes] level_nodes.simps [of _ _ "map blank nodes"] merkle_root.simps [of _ "map nodeHash nodes"]
        merkle_levels.simps [of _ "map nodeHash nodes"])
    then show ?thesis
      by blast
  next
    case False
    then obtain n where n: "nodes = [n]"
      using less(4) by (cases nodes) auto
    then have "built hash256 nodes n"
      using less(2) by (simp add: built_def level_nodes.simps vec_at_def merkle_root.simps merkle_levels.simps)
    then show ?thesis
      by blast
  qed
qed

abbreviation leaf_of :: "bytes \<Rightarrow> bool \<Rightarrow> MerkleNode" where
  "leaf_of h onPath \<equiv> MerkleNode h onPath True None None"

lemma leaf_loop_given:
  assumes "length bits = length txs"
  shows "i + k = length txs \<Longrightarrow> leaf_loop (Some bits) (Some txs) i k = Inr (map2 leaf_of (drop i txs) (drop i bits))"
proof (induction k arbitrary: i)
  case 0
  then show ?case
    by simp
next
  case (Suc k)
  then have i: "i < length txs" "i < length bits"
    using assms by simp_all
  then have "drop i txs = txs ! i # drop (i + 1) txs" "drop i bits = bits ! i # drop (i + 1) bits"
    by (simp_all add: Cons_nth_drop_Suc)
  then show ?case
    using Suc i by (simp add: leaf_node_def vec_at_def)
qed

lemma leaf_loop_blank: "leaf_loop None None i k = Inr (replicate k (leaf_of [] False))"
  by (induction k arbitrary: i) (simp_all add: leaf_node_def)

lemma map_blank_leaves: "length bits = length txs \<Longrightarrow> map blank (map2 leaf_of txs bits) = replicate (length txs) (leaf_of [] False)"
  by (induction bits txs rule: list_induct2) auto

lemma leaves_of_map2:
  assumes "length bits = length txs"
  shows "concat (map tree_leaves (map2 leaf_of txs bits)) = zip txs bits" "map nodeHash (map2 leaf_of txs bits) = txs"
    "sum_list (map node_count (map2 leaf_of txs bits)) = length txs"
  using assms by (induction bits txs rule: list_induct2) auto

lemma createTreeNodes_built:
  assumes "digest32 hash256" "\<forall>h \<in> set txs. length h = 32" "length bits = length txs" "txs \<noteq> []" "length txs < 2 ^ 32"
  shows "\<exists>r. createTreeNodes hash256 (of_nat (length txs)) (Some bits) (Some txs) = Inr \<lparr>pmt_root = Some r, pmt_numTx = of_nat (length txs)\<rparr> \<and>
    createTreeNodes hash256 (of_nat (length txs)) None None = Inr \<lparr>pmt_root = Some (blank r), pmt_numTx = of_nat (length txs)\<rparr> \<and>
    hashed_tree hash256 r \<and> nodeHash r = merkle_root hash256 txs \<and> tree_leaves r = zip txs bits \<and> node_count r + 2 \<le> 3 * length txs"
proof -
  let ?nodes = "map2 leaf_of txs bits"
  have n: "unat (of_nat (length txs) :: u32) = length txs"
    using assms(5) by (simp add: unsigned_of_nat take_bit_nat_eq_self)
  have "list_all (hashed_tree hash256) ?nodes"
    using assms(2) by (auto simp: list_all_iff dest!: set_zip_leftD intro: hashed_tree.leaf)
  moreover have "?nodes \<noteq> []"
    using assms(3,4) by (cases txs; cases bits) auto
  ultimately obtain r where r: "built hash256 ?nodes r"
    using level_nodes_built assms(1) by blast
  note lv = leaves_of_map2 [OF assms(3)]
  have "leaf_loop None None 0 (length txs) = Inr (map blank ?nodes)"
    using map_blank_leaves [OF assms(3)] by (simp add: leaf_loop_blank)
  moreover have "node_count r + 2 \<le> 3 * length txs"
    using r lv merkle_levels_size [OF assms(4), of hash256] assms(3) by (simp add: built_def)
  moreover have "leaf_loop (Some bits) (Some txs) 0 (length txs) = Inr ?nodes"
    using leaf_loop_given [OF assms(3), of 0 "length txs"] by simp
  ultimately show ?thesis
    using r lv n by (intro exI [of _ r]) (simp add: built_def createTreeNodes_def)
qed

section \<open>Round trip\<close>

lemma not_on_path: "hashed_tree hash256 t \<Longrightarrow> \<not> isOnPath t \<Longrightarrow> filter snd (tree_leaves t) = []"
  by (induction rule: hashed_tree.induct) auto

lemma blank_leaves: "hashed_tree hash256 t \<Longrightarrow> filter snd (tree_leaves (blank t)) = []"
  by (induction rule: hashed_tree.induct) auto

lemma prune_leaves: "hashed_tree hash256 t \<Longrightarrow> filter snd (tree_leaves (prune t)) = filter snd (tree_leaves t)"
proof (induction rule: hashed_tree.induct)
  case (single l)
  then show ?case
    using not_on_path blank_leaves by (cases "isOnPath l") (auto simp del: filter_empty_conv)
next
  case (pair l r)
  then show ?case
    using not_on_path [of hash256 l] not_on_path [of hash256 r] blank_leaves [of hash256 l] blank_leaves [of hash256 r]
    by (cases "isOnPath l \<or> isOnPath r") (simp_all del: filter_empty_conv)
qed simp

lemma foldl_append: "foldl (@) bw hs = bw @ concat hs"
  by (induction hs arbitrary: bw) simp_all

lemma pmt_serialize_eq:
  assumes "hashed_tree hash256 r"
  shows "pmt_serialize \<lparr>pmt_root = Some r, pmt_numTx = n\<rparr> =
    bytes_of_int ENDIAN_LITTLE n @ var_int_bytes (of_nat (length (hashes_of r))) @ concat (hashes_of r) @
    var_int_bytes (of_nat (length (bits_of r))) @ PackBits (bits_of r)"
  using serialize_appends [OF assms, of "[]" "[]"]
  by (simp add: pmt_serialize_def Let_def put_var_int_appends foldl_append put_uint32_t_def put_BinaryDataRef_def)

lemma length_PackBits: "length (PackBits bits) = (length bits + 7) div 8"
  by (simp add: PackBits_def)

lemma counted_u32:
  assumes "k + 7 < 2 ^ 32"
  shows "ucast (of_nat k :: u64) = (of_nat k :: u32)" "unat (of_nat k :: u32) = k" "unat ((of_nat k + 7 :: u32) div 8) = (k + 7) div 8"
proof -
  show u: "unat (of_nat k :: u32) = k"
    using assms by (simp add: unsigned_of_nat take_bit_nat_eq_self)
  have "unat (of_nat k :: u64) = k"
    using assms by (simp add: unsigned_of_nat take_bit_nat_eq_self)
  then show "ucast (of_nat k :: u64) = (of_nat k :: u32)"
    using of_nat_unat [of "of_nat k :: u64", where ?'a = "32 word"] by simp
  have "unat (of_nat k + 7 :: u32) = k + 7"
    using u assms by (simp add: unat_word_ariths(1))
  then show "unat ((of_nat k + 7 :: u32) div 8) = (k + 7) div 8"
    by (simp add: unat_div)
qed

lemma length_concat_32: "list_all (\<lambda>h. length h = 32) hs \<Longrightarrow> length (concat hs) = 32 * length hs"
  by (induction hs) auto

lemma length_var_int_le: "length (var_int_bytes v) \<le> 9"
  by (simp add: length_var_int_bytes calcVarIntSize_def)

lemma pmt_unserialize_serialize:
  assumes "hashed_tree hash256 r" "digest32 hash256" "length (bits_of r) + 7 < 2 ^ 32" "pmt_root old \<noteq> None"
    "createTreeNodes hash256 n None None = Inr \<lparr>pmt_root = Some (blank r), pmt_numTx = n\<rparr>"
  shows "pmt_unserialize hash256 old (setNewData (pmt_serialize \<lparr>pmt_root = Some r, pmt_numTx = n\<rparr>)) =
    Inr \<lparr>pmt_root = Some (prune r), pmt_numTx = n\<rparr>"
proof -
  let ?nh = "of_nat (length (hashes_of r)) :: u64" and ?nb = "of_nat (length (bits_of r)) :: u64"
  let ?bits = "PackBits (bits_of r)" and ?hs = "concat (map (\<lambda>b. b) (hashes_of r))"
  let ?tail2 = "var_int_bytes ?nb @ ?bits"
  let ?tail1 = "?hs @ ?tail2"
  let ?r0 = "setNewData (pmt_serialize \<lparr>pmt_root = Some r, pmt_numTx = n\<rparr>)"
  have count: "length (hashes_of r) + 7 < 2 ^ 32"
    using hashes_le_bits [OF assms(1)] assms(3) by linarith
  have h32: "list_all (\<lambda>h. length h = 32) (hashes_of r)"
    by (rule hashes_of_32 [OF assms(1,2)])
  have bytes: "pmt_serialize \<lparr>pmt_root = Some r, pmt_numTx = n\<rparr> = bytes_of_int ENDIAN_LITTLE n @ (var_int_bytes ?nh @ ?tail1)"
    by (simp add: pmt_serialize_eq [OF assms(1)])
  have "length (pmt_serialize \<lparr>pmt_root = Some r, pmt_numTx = n\<rparr>) < size_t_mod"
    unfolding bytes using count assms(3) length_concat_32 [OF h32] length_var_int_le [of ?nh] length_var_int_le [of ?nb]
    by (simp add: length_PackBits)
  then have r0: "brr_ok ?r0" "getCurrPtr ?r0 = bytes_of_int ENDIAN_LITTLE n @ (var_int_bytes ?nh @ ?tail1)"
    by simp (simp add: getCurrPtr_def setNewData_def bytes)
  obtain r1 where r1: "get_uint32_t ENDIAN_LITTLE ?r0 = Inr (n, r1)" "brr_ok r1" "getCurrPtr r1 = var_int_bytes ?nh @ ?tail1"
    using u32.dec_rest [OF r0(1) _ r0(2)] by auto
  obtain r2 where r2: "get_var_int r1 = Inr (?nh, r2)" "brr_ok r2" "getCurrPtr r2 = ?hs @ ?tail2"
    using varint.dec_rest [OF r1(2) _ r1(3)] by auto
  obtain r3 where r3: "read_many (get_BinaryData 32) (length (hashes_of r)) r2 = Inr (hashes_of r, r3)" "brr_ok r3" "getCurrPtr r3 = ?tail2"
    using data.read_many_enc [OF r2(2) h32 r2(3)] brr_ok_forward [OF r2(2), of "length ?hs"] r2(3) by simp
  obtain r4 where r4: "get_var_int r3 = Inr (?nb, r4)" "brr_ok r4" "getCurrPtr r4 = ?bits @ []"
    using varint.dec_rest [OF r3(2) _ r3(3)] by auto
  obtain r5 where r5: "get_BinaryData (length ?bits) r4 = Inr (?bits, r5)"
    using data.dec_rest [OF r4(2) _ r4(3)] by auto
  have unpack: "UnpackBits ?bits (of_nat (length (bits_of r))) = Inr (bits_of r)"
    using assms(3) by (intro UnpackBits_PackBits) simp
  have tree: "recurseUnserializeTree hash256 (blank r) (bits_of r) (hashes_of r) = Inr (prune r, [], [])"
    using unserialize_serialize [OF assms(1,2), of "[]" "[]"] by simp
  have "nodeHash (prune r) \<noteq> []"
    using hashed_tree_length [OF assms(1,2)] by auto
  then have calc: "\<exists>h. recurseCalcHash hash256 (prune r) = Inr h"
    using recurseCalcHash_known by blast
  note nh = counted_u32 [OF count] and nb = counted_u32 [OF assms(3)]
  show ?thesis
    using assms(4) calc unfolding pmt_unserialize_def
    by (auto simp: r1(1) r2(1) r3(1) r4(1) r5 [unfolded length_PackBits] assms(5) nh(1,2) nb unpack tree Let_def)
qed

text \<open>
  C35: A partial Merkle tree survives its serialisation: built from the transactions of a block with some of
  them marked, written and read back into another tree, it has the Merkle root of the block and exactly
  the marked transactions.
\<close>

theorem partial_merkle_roundtrip:
  assumes "digest32 hash256" "\<forall>h \<in> set txs. length h = 32" "length bits = length txs" "txs \<noteq> []" "length txs < 2 ^ 28" "pmt_root old \<noteq> None"
  shows "\<exists>t r t'. createTreeNodes hash256 (of_nat (length txs)) (Some bits) (Some txs) = Inr t \<and>
    pmt_unserialize hash256 old (setNewData (pmt_serialize t)) = Inr t' \<and> pmt_numTx t' = of_nat (length txs) \<and>
    pmt_getMerkleRoot hash256 t' = Inr (merkle_root hash256 txs, t') \<and>
    pmt_root t' = Some r \<and> map fst (filter snd (tree_leaves r)) = map fst (filter snd (zip txs bits))"
proof -
  obtain r where r: "createTreeNodes hash256 (of_nat (length txs)) (Some bits) (Some txs) = Inr \<lparr>pmt_root = Some r, pmt_numTx = of_nat (length txs)\<rparr>"
    "createTreeNodes hash256 (of_nat (length txs)) None None = Inr \<lparr>pmt_root = Some (blank r), pmt_numTx = of_nat (length txs)\<rparr>"
    "hashed_tree hash256 r" "nodeHash r = merkle_root hash256 txs" "tree_leaves r = zip txs bits" "node_count r + 2 \<le> 3 * length txs"
    using createTreeNodes_built [OF assms(1-4)] assms(5) by auto
  have small: "length (bits_of r) + 7 < 2 ^ 32"
    using hashes_le_bits [OF r(3)] r(6) assms(5) by simp
  have "nodeHash (prune r) \<noteq> []"
    using hashed_tree_length [OF r(3) assms(1)] by auto
  then have "pmt_getMerkleRoot hash256 \<lparr>pmt_root = Some (prune r), pmt_numTx = of_nat (length txs)\<rparr> =
    Inr (merkle_root hash256 txs, \<lparr>pmt_root = Some (prune r), pmt_numTx = of_nat (length txs)\<rparr>)"
    by (simp add: pmt_getMerkleRoot_def r(4))
  then show ?thesis
    using r(1) pmt_unserialize_serialize [OF r(3) assms(1) small assms(6) r(2)] prune_leaves [OF r(3)] r(5)
    by (intro exI [of _ "\<lparr>pmt_root = Some r, pmt_numTx = of_nat (length txs)\<rparr>"] exI [of _ "prune r"]
      exI [of _ "\<lparr>pmt_root = Some (prune r), pmt_numTx = of_nat (length txs)\<rparr>"]) simp
qed

theorem partial_merkle_roundtrip_witness:
  "\<exists>t r t'. createTreeNodes (\<lambda>b. replicate 32 (hd b)) 3 (Some [False, True, False]) (Some [replicate 32 1, replicate 32 2, replicate 32 3]) = Inr t \<and>
    pmt_unserialize (\<lambda>b. replicate 32 (hd b)) t (setNewData (pmt_serialize t)) = Inr t' \<and>
    pmt_getMerkleRoot (\<lambda>b. replicate 32 (hd b)) t' = Inr (replicate 32 1, t') \<and>
    pmt_root t' = Some r \<and> map fst (filter snd (tree_leaves r)) = [replicate 32 2]"
proof -
  let ?h = "\<lambda>b. replicate 32 (hd b) :: bytes" and ?txs = "[replicate 32 1, replicate 32 2, replicate 32 3] :: bytes list"
  obtain r where t: "createTreeNodes ?h 3 (Some [False, True, False]) (Some ?txs) = Inr \<lparr>pmt_root = Some r, pmt_numTx = 3\<rparr>"
    using createTreeNodes_built [of ?h ?txs "[False, True, False]"] by (auto simp: digest32_def)
  have root: "merkle_root ?h ?txs = replicate 32 1"
    by (simp add: merkle_root.simps)
  show ?thesis
    using partial_merkle_roundtrip [of ?h ?txs "[False, True, False]" "\<lparr>pmt_root = Some r, pmt_numTx = 3\<rparr>"] t root
    by (auto simp: digest32_def)
qed

end
