(* ===== verification/Base64.thy ===== *)
theory Base64
  imports Merkle_Tree
begin

text \<open>
  Base64 (BtcUtils.cpp): encoding and decoding of strings, with the decoder's writes into its result
  buffer.
\<close>

section \<open>The alphabet\<close>

definition base64Chars :: bytes where
  "base64Chars = map of_nat ([65 ..< 91] @ [97 ..< 123] @ [48 ..< 58] @ [43, 47])"

definition base64Vals :: "(byte \<times> byte) list" where
  "base64Vals =
    [(65, 0), (66, 1), (67, 2), (68, 3), (69, 4), (70, 5), (71, 6), (72, 7), (73, 8), (74, 9), (75, 10),
     (76, 11), (77, 12), (78, 13), (79, 14), (80, 15), (81, 16), (82, 17), (83, 18), (84, 19), (85, 20),
     (86, 21), (87, 22), (88, 23), (89, 24), (90, 25), (97, 26), (98, 27), (99, 28), (100, 29), (101, 30),
     (102, 31), (103, 32), (104, 33), (105, 34), (106, 35), (107, 36), (108, 37), (109, 38), (110, 39),
     (111, 40), (112, 41), (113, 42), (114, 43), (115, 44), (116, 45), (117, 46), (118, 47), (119, 48),
     (120, 49), (121, 50), (122, 51), (48, 52), (49, 53), (50, 54), (51, 55), (52, 56), (53, 57), (54, 58),
     (55, 59), (56, 60), (57, 61), (43, 62), (47, 63)]"

section \<open>Encoding\<close>

fun emit :: "nat \<Rightarrow> u32 \<Rightarrow> bytes" where
  "emit 0 bits24 = []"
| "emit (Suc n) bits24 = base64Chars ! unat (drop_bit 26 (bits24 AND 0xFC000000)) # emit n (push_bit 6 bits24)"

definition pack24 :: "byte \<Rightarrow> byte \<Rightarrow> byte \<Rightarrow> u32" where
  "pack24 a b c = push_bit 24 (ucast a) OR push_bit 16 (ucast b) OR push_bit 8 (ucast c)"

text \<open>The groups of three bytes, then what is left over with its padding.\<close>

fun base64_encode :: "bytes \<Rightarrow> bytes" where
  "base64_encode (a # b # c # rest) = emit 4 (pack24 a b c) @ base64_encode rest"
| "base64_encode [a, b] = emit 3 (push_bit 24 (ucast a) OR push_bit 16 (ucast b)) @ replicate 1 61"
| "base64_encode [a] = emit 2 (push_bit 24 (ucast a)) @ replicate 2 61"
| "base64_encode [] = []"

section \<open>Decoding\<close>

definition write3 :: "bytes \<Rightarrow> nat \<Rightarrow> u32 \<Rightarrow> bytes res" where
  "write3 result i val =
     bind_res (vec_set result (i * 3) (ucast (drop_bit 24 (val AND 0xFF000000)))) (\<lambda>result.
       bind_res (vec_set result (i * 3 + 1) (ucast (drop_bit 16 (val AND 0x00FF0000)))) (\<lambda>result.
         vec_set result (i * 3 + 2) (ucast (drop_bit 8 (val AND 0x0000FF00)))))"

fun decode_loop :: "bytes \<Rightarrow> nat \<Rightarrow> nat \<Rightarrow> u32 \<Rightarrow> bytes \<Rightarrow> (nat \<times> nat \<times> u32 \<times> bytes) res" where
  "decode_loop [] y i val result = Inr (y, i, val, result)"
| "decode_loop (val8 # ptr) y i val result =
     bind_res (if y mod 4 = 0 \<and> y \<noteq> 0 then bind_res (write3 result i val) (\<lambda>result'. Inr (i + 1, 0, result'))
               else Inr (i, val, result)) (\<lambda>(i, val, result).
       case map_of base64Vals val8 of
         None \<Rightarrow> if val8 = 61 then Inr (y, i, val, result) else Inl (Runtime_Error ''invalid b64 character'')
       | Some v \<Rightarrow> decode_loop ptr (y + 1) i (val OR push_bit (26 - 6 * (y mod 4)) (ucast v)) result)"

definition base64_decode :: "bytes \<Rightarrow> bytes res" where
  "base64_decode in64 =
     bind_res (decode_loop in64 0 0 0 (replicate ((length in64 + 3) div 4 * 3) 0)) (\<lambda>(y, i, val, result).
       bind_res (write3 result i val) (\<lambda>result'.
         Inr (take (y * 3 mod 2 ^ 32 div 4) result')))"

section \<open>Characters and values\<close>

definition char6 :: "u32 \<Rightarrow> byte" where
  "char6 w = base64Chars ! unat (drop_bit 26 (w AND 0xFC000000))"

lemma base64_table: "list_all (\<lambda>n. map_of base64Vals (base64Chars ! n) = Some (of_nat n)) [0 ..< 64]"
  by code_simp

lemma top6: "drop_bit 26 (w AND 0xFC000000) = drop_bit 26 (w :: u32)"
proof -
  have m: "(0xFC000000 :: u32) = push_bit 26 (mask 6)"
    by (simp add: mask_eq_exp_minus_1 push_bit_eq_mult)
  show ?thesis
    unfolding m by (rule bit_word_eqI) (auto simp: bit_simps bit_mask_iff dest: bit_imp_le_length)
qed

lemma char6_value: "map_of base64Vals (char6 w) = Some (ucast (drop_bit 26 w))"
proof -
  have "unat (drop_bit 26 w) < 64"
    using unsigned_less [of w, where ?'a = nat] by (subst unat_drop_bit_eq) (simp add: drop_bit_eq_div less_mult_imp_div_less)
  then have "map_of base64Vals (base64Chars ! unat (drop_bit 26 w)) = Some (of_nat (unat (drop_bit 26 w)))"
    using base64_table by (simp add: list_all_iff)
  then show ?thesis
    unfolding char6_def top6 by simp
qed

lemma equals_no_value: "map_of base64Vals 61 = None"
  by code_simp

text \<open>The 6 bits a character carries, at the place the decoder puts them.\<close>

definition chunk :: "nat \<Rightarrow> u32 \<Rightarrow> u32" where
  "chunk k w = push_bit (26 - 6 * k) (ucast (ucast (drop_bit 26 (push_bit (6 * k) w)) :: byte))"

lemma bit_chunk: "k < 4 \<Longrightarrow> bit (chunk k w) n \<longleftrightarrow> 26 - 6 * k \<le> n \<and> n < 32 - 6 * k \<and> bit w n"
  by (auto simp: chunk_def bit_simps dest: bit_imp_le_length)

lemma chunks4: "((chunk 0 w OR chunk 1 w) OR chunk 2 w) OR chunk 3 w = push_bit 8 (drop_bit 8 w)"
  by (rule bit_word_eqI) (auto simp: bit_chunk bit_simps)

lemma chunks3: "(chunk 0 w OR chunk 1 w) OR chunk 2 w = push_bit 14 (drop_bit 14 w)"
  by (rule bit_word_eqI) (auto simp: bit_chunk bit_simps)

lemma chunks2: "chunk 0 w OR chunk 1 w = push_bit 20 (drop_bit 20 w)"
  by (rule bit_word_eqI) (auto simp: bit_chunk bit_simps)

lemma emit_chars:
  "emit 4 w = [char6 w, char6 (push_bit 6 w), char6 (push_bit 12 w), char6 (push_bit 18 w)]"
  "emit 3 w = [char6 w, char6 (push_bit 6 w), char6 (push_bit 12 w)]"
  "emit 2 w = [char6 w, char6 (push_bit 6 w)]"
  by (simp_all add: char6_def numeral_eq_Suc)

text \<open>The write in front of each group but the first.\<close>

definition flush :: "nat \<Rightarrow> nat \<Rightarrow> u32 \<Rightarrow> bytes \<Rightarrow> (nat \<times> u32 \<times> bytes) res" where
  "flush m i val result = (if m \<noteq> 0 then bind_res (write3 result i val) (\<lambda>result'. Inr (i + 1, 0, result')) else Inr (i, val, result))"

declare decode_loop.simps(2) [simp del]

lemma decode_first:
  assumes "flush m i val result = Inr (i', 0, result')"
  shows "decode_loop (char6 w # ptr) (4 * m) i val result = decode_loop ptr (4 * m + 1) i' (chunk 0 w) result'"
  using assms by (auto simp: decode_loop.simps flush_def char6_value chunk_def bind_res_eq_Inr split: if_splits)

lemma decode_next:
  assumes "0 < k" "k < 4"
  shows "decode_loop (char6 (push_bit (6 * k) w) # ptr) (4 * m + k) i val result = decode_loop ptr (4 * m + (k + 1)) i (val OR chunk k w) result"
proof -
  have "(4 * m + k) mod 4 = k"
    using assms(2) by simp
  then show ?thesis
    using assms by (simp add: decode_loop.simps char6_value chunk_def)
qed

lemma decode_nexts:
  "decode_loop (char6 (push_bit 6 w) # ptr) (4 * m + 1) i val result = decode_loop ptr (4 * m + 2) i (val OR chunk 1 w) result"
  "decode_loop (char6 (push_bit 12 w) # ptr) (4 * m + 2) i val result = decode_loop ptr (4 * m + 3) i (val OR chunk 2 w) result"
  "decode_loop (char6 (push_bit 18 w) # ptr) (4 * m + 3) i val result = decode_loop ptr (4 * (m + 1)) i (val OR chunk 3 w) result"
  using decode_next [of 1 w ptr m i val result] decode_next [of 2 w ptr m i val result] decode_next [of 3 w ptr m i val result]
  by (simp_all add: numeral_eq_Suc)

lemma decode_pad: "0 < k \<Longrightarrow> k < 4 \<Longrightarrow> decode_loop (61 # ptr) (4 * m + k) i val result = Inr (4 * m + k, i, val, result)"
  by (simp add: decode_loop.simps equals_no_value)

lemma decode_group4:
  assumes "flush m i val result = Inr (i', 0, result')"
  shows "decode_loop (emit 4 w @ ptr) (4 * m) i val result = decode_loop ptr (4 * (m + 1)) i' (push_bit 8 (drop_bit 8 w)) result'"
  by (simp only: emit_chars append.simps decode_first [OF assms] decode_nexts chunks4)

lemma decode_group3:
  assumes "flush m i val result = Inr (i', 0, result')"
  shows "decode_loop (emit 3 w @ [61]) (4 * m) i val result = Inr (4 * m + 3, i', push_bit 14 (drop_bit 14 w), result')"
  using decode_pad [of 3 "[]" m i' "push_bit 14 (drop_bit 14 w)" result']
  by (simp only: emit_chars append.simps decode_first [OF assms] decode_nexts chunks3)

lemma decode_group2:
  assumes "flush m i val result = Inr (i', 0, result')"
  shows "decode_loop (emit 2 w @ [61, 61]) (4 * m) i val result = Inr (4 * m + 2, i', push_bit 20 (drop_bit 20 w), result')"
  using decode_pad [of 2 "[61]" m i' "push_bit 20 (drop_bit 20 w)" result']
  by (simp only: emit_chars append.simps decode_first [OF assms] decode_nexts chunks2)

text \<open>The bytes written for a group.\<close>

lemma write3_bytes:
  assumes "val = pack24 a b c" "length pre = 3 * m"
  shows "write3 (pre @ x # y # z # junk) m val = Inr (pre @ a # b # c # junk)"
proof -
  have m: "(0xFF000000 :: u32) = push_bit 24 (mask 8)" "(0x00FF0000 :: u32) = push_bit 16 (mask 8)" "(0x0000FF00 :: u32) = push_bit 8 (mask 8)"
    by (simp_all add: mask_eq_exp_minus_1 push_bit_eq_mult)
  have "ucast (drop_bit 24 (val AND push_bit 24 (mask 8))) = a" "ucast (drop_bit 16 (val AND push_bit 16 (mask 8))) = b"
    "ucast (drop_bit 8 (val AND push_bit 8 (mask 8))) = c"
    by (rule bit_word_eqI, auto simp: assms(1) pack24_def bit_simps dest: bit_imp_le_length)+
  then show ?thesis
    unfolding write3_def m using assms(2) vec_set_middle [of "m * 3" pre x "y # z # junk"] vec_set_middle [of "m * 3 + 1" "pre @ [a]" y "z # junk"]
      vec_set_middle [of "m * 3 + 2" "pre @ [a, b]" z junk] by simp
qed

lemma pack24_top:
  "push_bit 8 (drop_bit 8 (pack24 a b c)) = pack24 a b c"
  "push_bit 14 (drop_bit 14 (push_bit 24 (ucast a) OR push_bit 16 (ucast b))) = pack24 a b 0"
  "push_bit 20 (drop_bit 20 (push_bit 24 (ucast a))) = pack24 a 0 0"
  by (rule bit_word_eqI, auto simp: pack24_def bit_simps)+

section \<open>Round trip\<close>

definition decode_end :: "nat \<times> nat \<times> u32 \<times> bytes \<Rightarrow> bytes res" where
  "decode_end = (\<lambda>(y, i, val, result). bind_res (write3 result i val) (\<lambda>result'. Inr (take (y * 3 div 4) result')))"

lemma replicate_2: "replicate 2 x = [x, x]"
  by (simp add: numeral_2_eq_2)

lemma long_list: "3 \<le> length junk \<Longrightarrow> \<exists>x y z rest. junk = x # y # z # rest"
  by (cases junk; cases "tl junk"; cases "tl (tl junk)") auto

lemma decode_encode:
  assumes "flush m i val result = Inr (m, 0, pre @ junk)" "length pre = 3 * m" "s \<noteq> []" "length s \<le> length junk" "3 dvd length junk"
  shows "bind_res (decode_loop (base64_encode s) (4 * m) i val result) decode_end = Inr (pre @ s)"
  using assms
proof (induction s arbitrary: m i val result pre junk rule: base64_encode.induct)
  case (1 a b c rest)
  obtain x y z junk' where junk: "junk = x # y # z # junk'"
    using long_list [of junk] 1(5) by auto
  have wr: "write3 (pre @ junk) m (pack24 a b c) = Inr ((pre @ [a, b, c]) @ junk')"
    using write3_bytes [OF refl 1(3)] by (simp add: junk)
  have loop: "decode_loop (base64_encode (a # b # c # rest)) (4 * m) i val result =
      decode_loop (base64_encode rest) (4 * (m + 1)) m (pack24 a b c) (pre @ junk)"
    using decode_group4 [OF 1(2), of "pack24 a b c" "base64_encode rest"] by (simp add: pack24_top)
  show ?case
  proof (cases "rest = []")
    case True
    then show ?thesis
      using loop wr 1(3) by (simp add: decode_end_def)
  next
    case False
    have "flush (m + 1) m (pack24 a b c) (pre @ junk) = Inr (m + 1, 0, (pre @ [a, b, c]) @ junk')"
      using wr by (simp add: flush_def)
    moreover have "length rest \<le> length junk'" "3 dvd length junk'"
      using 1(5,6) by (simp_all add: junk) presburger
    ultimately show ?thesis
      using 1(1) [of "m + 1" m "pack24 a b c" "pre @ junk" "pre @ [a, b, c]" junk'] False 1(3) loop by simp
  qed
next
  case (2 a b)
  have n: "(12 * m + 9) div 4 - 3 * m = 2"
    by presburger
  have "3 \<le> length junk"
    using 2(4,5) by (auto elim!: dvdE)
  then obtain x y z junk' where "junk = x # y # z # junk'"
    using long_list by blast
  then show ?case
    using decode_group3 [OF 2(1), of "push_bit 24 (ucast a) OR push_bit 16 (ucast b)", unfolded pack24_top] write3_bytes [OF refl 2(2), of x y z junk' a b 0] 2(2) n
    by (simp add: decode_end_def)
next
  case (3 a)
  have n: "(6 + 12 * m) div 4 - 3 * m = 1"
    by presburger
  have "3 \<le> length junk"
    using 3(4,5) by (auto elim!: dvdE)
  then obtain x y z junk' where "junk = x # y # z # junk'"
    using long_list by blast
  then show ?case
    using decode_group2 [OF 3(1), of "push_bit 24 (ucast a)", unfolded pack24_top] write3_bytes [OF refl 3(2), of x y z junk' a 0 0] 3(2) n
    by (simp add: decode_end_def replicate_2)
qed simp

lemma length_base64_encode: "length (base64_encode s) = 4 * ((length s + 2) div 3)"
  by (induction s rule: base64_encode.induct) (simp_all add: emit_chars, presburger)

lemma decode_loop_count: "decode_loop ptr y i val result = Inr (y', i', val', result') \<Longrightarrow> y' \<le> y + length ptr"
proof (induction ptr y i val result rule: decode_loop.induct)
  case (2 val8 ptr y i val result)
  then show ?case
    by (fastforce simp: decode_loop.simps(2) bind_res_eq_Inr split: option.splits if_splits)
qed simp

text \<open>
  C38: \<open>base64_decode\<close> inverts \<open>base64_encode\<close> on every non-empty string, writing only inside its result
  buffer; on the empty string, which encodes to itself, it writes three bytes into a buffer of none.
\<close>

theorem base64_roundtrip:
  assumes "length s < 2 ^ 29"
  shows "base64_decode (base64_encode s) = (if s = [] then Inl Undefined_Behaviour else Inr s)"
proof (cases "s = []")
  case True
  then show ?thesis
    by (simp add: base64_decode_def write3_def vec_set_def)
next
  case False
  let ?e = "base64_encode s" and ?res = "replicate ((length (base64_encode s) + 3) div 4 * 3) (0 :: byte)"
  have len: "length ?e < 2 ^ 30" "length s \<le> length ?res"
    using assms by (simp_all add: length_base64_encode)
  have "bind_res (decode_loop ?e 0 0 0 ?res) decode_end = Inr s"
    using decode_encode [of 0 0 0 ?res "[]" ?res s] False len(2) by (simp add: flush_def)
  then obtain y i val result where loop: "decode_loop ?e 0 0 0 ?res = Inr (y, i, val, result)" "decode_end (y, i, val, result) = Inr s"
    by (auto simp: bind_res_eq_Inr)
  have "y * 3 < 2 ^ 32"
    using decode_loop_count [OF loop(1)] len(1) by simp
  then show ?thesis
    using False loop by (simp add: base64_decode_def decode_end_def)
qed

theorem base64_roundtrip_witness: "base64_decode (base64_encode [1, 2, 3, 255]) = Inr [1, 2, 3, 255]"
  by (subst base64_roundtrip) simp_all

end
