(* ===== verification/Der_Sig.thy ===== *)
theory Der_Sig
  imports Binary_Writer
begin

text \<open>
  Signatures (BtcUtils.h, BtcUtils.cpp, EncryptionUtils.cpp): conversion between the 64 bytes of a
  signature and its DER form, with the second half brought into the lower half of the group order. Big
  integers of Crypto++ are natural numbers.
\<close>

section \<open>Big integers\<close>

text \<open>\<open>Integer::Decode\<close>, \<open>Integer::ByteCount\<close> and \<open>Integer::Encode\<close>, unsigned and most significant byte first.\<close>

definition int_decode :: "bytes \<Rightarrow> nat" where
  "int_decode bs = foldl (\<lambda>a b. 256 * a + unat b) 0 bs"

fun byte_count :: "nat \<Rightarrow> nat" where
  "byte_count n = (if n = 0 then 0 else 1 + byte_count (n div 256))"

declare byte_count.simps [simp del]

fun int_encode :: "nat \<Rightarrow> nat \<Rightarrow> bytes" where
  "int_encode 0 n = []"
| "int_encode (Suc k) n = int_encode k (n div 256) @ [of_nat (n mod 256)]"

definition SECP256K1_ORDER :: nat where
  "SECP256K1_ORDER = 0xfffffffffffffffffffffffffffffffebaaedce6af48a03bbfd25e8cd0364141"

text \<open>The magnitude of a negative difference is what \<open>Encode\<close> writes.\<close>

definition computeLowS :: "bytes \<Rightarrow> bytes" where
  "computeLowS s =
     (let ecOrder = SECP256K1_ORDER; halfOrder = ecOrder div 2; sInteger = int_decode s;
          sInteger = (if sInteger > halfOrder then (if sInteger \<le> ecOrder then ecOrder - sInteger else sInteger - ecOrder) else sInteger)
      in int_encode (byte_count sInteger) sInteger)"

section \<open>DER\<close>

definition forceTo32Bytes :: "bytes \<Rightarrow> bytes \<Rightarrow> bytes res" where
  "forceTo32Bytes data out =
     (if length data > 32 then bind_res (getSliceCopy data (int (length data - 32)) 32) (\<lambda>d. Inr (put_BinaryDataRef d out))
      else Inr (put_BinaryDataRef data (out @ replicate (32 - length data) 0)))"

definition extractRSFromDERSig :: "bytes \<Rightarrow> bytes res" where
  "extractRSFromDERSig bdr =
     bind_res (get_uint8_t (setNewData bdr)) (\<lambda>(codeByte, r0).
       if codeByte \<noteq> 0x30 then Inl (DER_Error ''unexpected code byte in DER sig'')
       else bind_res (get_uint8_t r0) (\<lambda>(_, r1).
         bind_res (get_uint8_t r1) (\<lambda>(codeByte, r2).
           bind_res (get_uint8_t r2) (\<lambda>(len, r3).
             if codeByte \<noteq> 0x02 then Inl (DER_Error ''unexpected code byte in DER sig'')
             else bind_res (get_BinaryDataRef (unat len) r3) (\<lambda>(rRef, r4).
               bind_res (forceTo32Bytes rRef []) (\<lambda>out.
                 bind_res (get_uint8_t r4) (\<lambda>(codeByte, r5).
                   bind_res (get_uint8_t r5) (\<lambda>(len, r6).
                     if codeByte \<noteq> 0x02 then Inl (DER_Error ''unexpected code byte in DER sig'')
                     else bind_res (get_BinaryDataRef (unat len) r6) (\<lambda>(sRef, _).
                       forceTo32Bytes sRef out)))))))))"

text \<open>
  When the first half is all zeros the trimmed slice is empty and its pointer is that of the second
  half; an empty \<open>lowS\<close> has no first byte to read.
\<close>

definition rsToDerSig :: "bytes \<Rightarrow> bytes res" where
  "rsToDerSig bdr =
     (if length bdr \<noteq> 64 then Inl (Runtime_Error ''unexpected rs sig length'')
      else
        let trim = length (takeWhile (\<lambda>b. b = 0) (take 32 bdr));
            r_trim = bslice trim (32 - trim) bdr;
            bwR = (if bdr ! trim > 0x7f then [0] else []) @ r_trim;
            lowS = computeLowS (drop 32 bdr)
        in if lowS = [] then Inl Undefined_Behaviour
           else
             let bwS = (if hd lowS > 0x7f then [0] else []) @ lowS;
                 bw = put_uint8_t 0x30 [];
                 bw = put_uint8_t (of_nat (4 + length bwR + length bwS)) bw;
                 bw = put_uint8_t 0x02 bw;
                 bw = put_uint8_t (of_nat (length bwR)) bw;
                 bw = put_BinaryDataRef bwR bw;
                 bw = put_uint8_t 0x02 bw;
                 bw = put_uint8_t (of_nat (length bwS)) bw
             in Inr (put_BinaryDataRef bwS bw))"

section \<open>Encoding numbers\<close>

lemma int_decode_snoc [simp]: "int_decode (bs @ [b]) = 256 * int_decode bs + unat b" "int_decode [] = 0"
  by (simp_all add: int_decode_def)

lemma length_int_encode [simp]: "length (int_encode k n) = k"
  by (induction k arbitrary: n) auto

lemma int_decode_encode: "n < 256 ^ k \<Longrightarrow> int_decode (int_encode k n) = n"
proof (induction k arbitrary: n)
  case (Suc k)
  then have "int_decode (int_encode k (n div 256)) = n div 256"
    by (intro Suc.IH) (simp add: less_mult_imp_div_less mult.commute)
  then show ?case
    by (simp add: unsigned_of_nat take_bit_nat_eq_self)
qed simp

lemma int_decode_less: "int_decode bs < 256 ^ length bs"
proof (induction bs rule: rev_induct)
  case (snoc b bs)
  have "unat b < 256"
    using unsigned_less [of b, where ?'a = nat] by simp
  then show ?case
    using snoc by simp
qed simp

lemma byte_count_bound: "n < 256 ^ byte_count n"
proof (induction n rule: byte_count.induct)
  case (1 n)
  show ?case
  proof (cases "n = 0")
    case False
    then have "n div 256 < 256 ^ byte_count (n div 256)"
      using 1 by simp
    then have "n < 256 ^ byte_count (n div 256) * 256"
      by (simp add: div_less_iff_less_mult)
    then show ?thesis
      using False by (simp add: byte_count.simps [of n] mult.commute)
  qed (simp add: byte_count.simps)
qed

lemma byte_count_le: "n < 256 ^ k \<Longrightarrow> byte_count n \<le> k"
proof (induction k arbitrary: n)
  case 0
  then show ?case
    by (simp add: byte_count.simps)
next
  case (Suc k)
  then have "byte_count (n div 256) \<le> k"
    by (intro Suc.IH) (simp add: less_mult_imp_div_less mult.commute)
  then show ?case
    by (simp add: byte_count.simps [of n])
qed

lemma foldl_zeros: "foldl (\<lambda>a b. 256 * a + unat b) 0 (replicate z (0 :: byte)) = 0"
  by (induction z) auto

lemma int_decode_pad: "int_decode (replicate z 0 @ bs) = int_decode bs"
  by (simp add: int_decode_def foldl_zeros)

section \<open>Round trip\<close>

definition pad32 :: "bytes \<Rightarrow> bytes" where
  "pad32 x = replicate (32 - length x) 0 @ x"

lemma forceTo32Bytes_pad:
  assumes "length x \<le> 32" "p = [] \<or> p = [0]"
  shows "forceTo32Bytes (p @ x) out = Inr (out @ pad32 x)"
proof (cases "length (p @ x) > 32")
  case True
  then have px: "p = [0]" "length x = 32"
    using assms by auto
  have "getSliceCopy (0 # x) (int 1) 32 = Inr x"
    using px(2) by (subst getSliceCopy_in_range) (simp_all add: bslice_def)
  then show ?thesis
    using px by (simp add: forceTo32Bytes_def put_BinaryDataRef_def pad32_def)
next
  case False
  have "replicate (31 - length x) 0 @ 0 # x = replicate (32 - length x) (0 :: byte) @ x" if "length x \<le> 31"
  proof -
    have "32 - length x = Suc (31 - length x)"
      using that by simp
    then show ?thesis
      by (simp add: replicate_append_same flip: replicate_app_Cons_same)
  qed
  then show ?thesis
    using False assms by (auto simp: forceTo32Bytes_def put_BinaryDataRef_def pad32_def)
qed

lemma extract_der:
  assumes "length R < 256" "length S < 256"
  shows "extractRSFromDERSig ([0x30, t, 0x02, of_nat (length R)] @ R @ [0x02, of_nat (length S)] @ S) =
    bind_res (forceTo32Bytes R []) (\<lambda>out. forceTo32Bytes S out)"
proof -
  let ?tail = "[0x02, of_nat (length S)] @ S"
  let ?der = "[0x30, t, 0x02, of_nat (length R)] @ R @ ?tail"
  have n: "unat (of_nat (length R) :: byte) = length R" "unat (of_nat (length S) :: byte) = length S"
    using assms by (simp_all add: unsigned_of_nat take_bit_nat_eq_self)
  have q: "brr_ok (setNewData ?der)" "getCurrPtr (setNewData ?der) = [0x30] @ [t, 0x02, of_nat (length R)] @ R @ ?tail"
    using assms by (simp, simp add: getCurrPtr_def setNewData_def)
  obtain r0 where r0: "get_uint8_t (setNewData ?der) = Inr (0x30, r0)" "brr_ok r0" "getCurrPtr r0 = [t] @ [0x02, of_nat (length R)] @ R @ ?tail"
    using u8.dec_rest [OF q(1) _ q(2)] by auto
  obtain r1 where r1: "get_uint8_t r0 = Inr (t, r1)" "brr_ok r1" "getCurrPtr r1 = [0x02] @ [of_nat (length R)] @ R @ ?tail"
    using u8.dec_rest [OF r0(2) _ r0(3)] by auto
  obtain r2 where r2: "get_uint8_t r1 = Inr (0x02, r2)" "brr_ok r2" "getCurrPtr r2 = [of_nat (length R)] @ R @ ?tail"
    using u8.dec_rest [OF r1(2) _ r1(3)] by auto
  obtain r3 where r3: "get_uint8_t r2 = Inr (of_nat (length R), r3)" "brr_ok r3" "getCurrPtr r3 = R @ ?tail"
    using u8.dec_rest [OF r2(2) _ r2(3)] by auto
  obtain r4 where r4: "get_BinaryDataRef (length R) r3 = Inr (R, r4)" "brr_ok r4" "getCurrPtr r4 = [0x02] @ [of_nat (length S)] @ S"
    using ref.dec_rest [OF r3(2) _ r3(3)] by auto
  obtain r5 where r5: "get_uint8_t r4 = Inr (0x02, r5)" "brr_ok r5" "getCurrPtr r5 = [of_nat (length S)] @ S"
    using u8.dec_rest [OF r4(2) _ r4(3)] by auto
  obtain r6 where r6: "get_uint8_t r5 = Inr (of_nat (length S), r6)" "brr_ok r6" "getCurrPtr r6 = S @ []"
    using u8.dec_rest [OF r5(2) _ r5(3)] by auto
  obtain r7 where r7: "get_BinaryDataRef (length S) r6 = Inr (S, r7)"
    using ref.dec_rest [OF r6(2) _ r6(3)] by auto
  show ?thesis
    unfolding extractRSFromDERSig_def r0(1) by (simp add: r1(1) r2(1) r3(1) r4(1) r5(1) r6(1) r7 n)
qed

lemma takeWhile_zeros: "xs = replicate (length (takeWhile (\<lambda>b. b = 0) xs)) 0 @ drop (length (takeWhile (\<lambda>b. b = 0) xs)) xs"
  by (induction xs) auto

lemma trimmed_half:
  assumes "length xs = 32" "trim = length (takeWhile (\<lambda>b. b = 0) xs)"
  shows "pad32 (drop trim xs) = xs" "trim \<le> 32"
proof -
  show le: "trim \<le> 32"
    unfolding assms(2) assms(1) [symmetric] by (rule length_takeWhile_le)
  then show "pad32 (drop trim xs) = xs"
    using takeWhile_zeros [of xs] assms by (simp add: pad32_def)
qed

definition low_value :: "nat \<Rightarrow> nat" where
  "low_value s = (if s > SECP256K1_ORDER div 2 then SECP256K1_ORDER - s else s)"

lemma computeLowS_low:
  assumes "0 < int_decode s" "int_decode s < SECP256K1_ORDER"
  shows "computeLowS s \<noteq> [] \<and> length (computeLowS s) \<le> 32 \<and> int_decode (computeLowS s) = low_value (int_decode s)"
proof -
  let ?v = "low_value (int_decode s)"
  have low: "computeLowS s = int_encode (byte_count ?v) ?v"
    using assms by (simp add: computeLowS_def low_value_def Let_def)
  have v: "0 < ?v" "?v < 256 ^ 32"
    using assms by (auto simp: low_value_def SECP256K1_ORDER_def)
  have "byte_count ?v \<noteq> 0"
    using v(1) by (simp add: byte_count.simps)
  then have "computeLowS s \<noteq> []"
    by (metis low length_int_encode list.size(3))
  then show ?thesis
    using byte_count_le [OF v(2)] int_decode_encode [OF byte_count_bound] by (simp add: low)
qed

text \<open>
  C37: A signature survives the way to DER and back: \<open>extractRSFromDERSig\<close> returns the first half of what
  \<open>rsToDerSig\<close> was given, and the second half brought into the lower half of the group order.
\<close>

theorem der_roundtrip:
  assumes "length rs = 64" "0 < int_decode (drop 32 rs)" "int_decode (drop 32 rs) < SECP256K1_ORDER"
  shows "\<exists>der s'. rsToDerSig rs = Inr der \<and> extractRSFromDERSig der = Inr (take 32 rs @ s') \<and> length s' = 32 \<and>
    int_decode s' = low_value (int_decode (drop 32 rs))"
proof -
  define trim where "trim = length (takeWhile (\<lambda>b. b = 0) (take 32 rs))"
  define x where "x = bslice trim (32 - trim) rs"
  define y where "y = computeLowS (drop 32 rs)"
  define R where "R = (if rs ! trim > 0x7f then [0] else []) @ x"
  define S where "S = (if hd y > 0x7f then [0] else []) @ y"
  have half: "length (take 32 rs) = 32"
    using assms(1) by simp
  note trim = trimmed_half [OF half trim_def]
  have x: "pad32 x = take 32 rs" "length x \<le> 32"
    using trim assms(1) by (simp_all add: x_def bslice_def drop_take)
  have y: "y \<noteq> []" "length y \<le> 32" "int_decode y = low_value (int_decode (drop 32 rs))"
    using computeLowS_low [OF assms(2,3)] by (simp_all add: y_def)
  have len: "length R < 256" "length S < 256"
    using x(2) y(2) by (auto simp: R_def S_def)
  have der: "rsToDerSig rs = Inr ([0x30, of_nat (4 + length R + length S), 0x02, of_nat (length R)] @ R @ [0x02, of_nat (length S)] @ S)"
    using assms(1) y(1) unfolding rsToDerSig_def Let_def trim_def [symmetric] x_def [symmetric] y_def [symmetric] R_def [symmetric] S_def [symmetric]
    by (simp add: put_uint8_t_def put_BinaryDataRef_def)
  have "forceTo32Bytes R [] = Inr (pad32 x)" "forceTo32Bytes S (pad32 x) = Inr (pad32 x @ pad32 y)"
    using forceTo32Bytes_pad [OF x(2), of "[]" "[]"] forceTo32Bytes_pad [OF x(2), of "[0]" "[]"]
      forceTo32Bytes_pad [OF y(2), of "[]" "pad32 x"] forceTo32Bytes_pad [OF y(2), of "[0]" "pad32 x"] by (simp_all add: R_def S_def)
  then have "extractRSFromDERSig ([0x30, of_nat (4 + length R + length S), 0x02, of_nat (length R)] @ R @ [0x02, of_nat (length S)] @ S) = Inr (take 32 rs @ pad32 y)"
    using extract_der [OF len] x(1) by simp
  moreover have "length (pad32 y) = 32" "int_decode (pad32 y) = low_value (int_decode (drop 32 rs))"
    using y(2,3) by (simp_all add: pad32_def int_decode_pad)
  ultimately show ?thesis
    using der by blast
qed

theorem der_roundtrip_witness:
  "\<exists>der s'. rsToDerSig (replicate 31 0 @ [200] @ replicate 31 0 @ [9]) = Inr der \<and> length s' = 32 \<and>
    extractRSFromDERSig der = Inr (take 32 (replicate 31 0 @ [200] @ replicate 31 0 @ [9]) @ s')"
proof -
  let ?rs = "replicate 31 0 @ [200] @ replicate 31 0 @ [9] :: bytes"
  have "int_decode (replicate 31 0 @ [9]) = 9"
    using int_decode_pad [of 31 "[9]"] int_decode_snoc(1) [of "[]" 9] by simp
  then show ?thesis
    using der_roundtrip [of ?rs] by (auto simp: SECP256K1_ORDER_def)
qed

end
