(* ===== verification/Spec2Isabelle.thy ===== *)
theory Spec2Isabelle
  imports Chain_Branches Tx_Layout Script_Ops Partial_Merkle Base64 Der_Sig
begin

text \<open>
  \<^bold>\<open>BlockSettleDB: the block database's core.\<close>

  The program (\<^verbatim>\<open>src/cppForSwig\<close>) reads the block files of a Bitcoin node, organises the block headers into
  a tree with a main chain, indexes transactions by the address their scripts pay to, and serves wallets
  that sign with keys of their own. This library models the layers everything else is built on, from the
  bytes up: readers and writers of the wire format, the layout of transactions, scripts and addresses,
  Merkle trees and the encodings of signatures and text, the copy-on-write containers shared between
  threads, and the chain of block headers.

  \<^bold>\<open>How the parts interact.\<close> Block files are byte strings (\<^verbatim>\<open>BinaryData\<close>) walked by a \<^verbatim>\<open>BinaryRefReader\<close>. A
  block's header gives the previous hash that links the tree and the difficulty bits that become a
  \<^verbatim>\<open>double\<close>; \<^verbatim>\<open>Blockchain\<close> keeps the headers in \<^verbatim>\<open>TransactionalMap\<close>s, sums the difficulties, picks the top and
  tells the database which block identifiers are on the main branch. Behind the header come transactions,
  whose inputs, outputs and witnesses are found with \<^verbatim>\<open>TxCalcLength\<close>; the output scripts are classified and
  turned into the key (\<^verbatim>\<open>scrAddr\<close>) under which the database files them, the input scripts into the address
  they spend; the hashes of the transactions make the Merkle tree.

  \<^bold>\<open>Conventions.\<close> A byte is \<^typ>\<open>8 word\<close>, \<^verbatim>\<open>uint32_t\<close> and \<^verbatim>\<open>uint64_t\<close> are words of their width, \<^verbatim>\<open>size_t\<close> is a
  natural number with the wrap at \<^verbatim>\<open>2^64\<close> written out (\<^verbatim>\<open>sz_add\<close>, \<^verbatim>\<open>sz_sub\<close>). An operation that can throw
  returns \<^typ>\<open>err + 'a\<close> (\<^verbatim>\<open>res\<close>), with one constructor per exception class; reading or writing outside a
  buffer or vector, dereferencing null or an end iterator is the value \<^const>\<open>Undefined_Behaviour\<close>, so that
  memory safety is a statement about results (\<^const>\<open>no_ub\<close>). Objects shared by pointer live in an explicit
  heap. The hash functions are third-party code and appear as arguments; where a property relies on one, it
  assumes no more than the length of the digest.

  \<^bold>\<open>Theories.\<close>

  \<^item> \<^verbatim>\<open>Btc_Prelude\<close>: the error type, the result type and its bind, sizes, reading of memory, the shared
    lemmas on lists and words and the development's collections of rewrite rules.

  \<^item> \<^verbatim>\<open>Std_Containers\<close>: \<^verbatim>\<open>std::map\<close> and \<^verbatim>\<open>std::set\<close> as lists in ascending order, with insertion, assignment,
    removal and search by a comparison. The locale of a strict order gives their laws once; it is interpreted
    on the comparison of byte strings and on \<^verbatim>\<open>uint32_t\<close>.

  \<^item> \<^verbatim>\<open>Binary_Data\<close>: \<^verbatim>\<open>BinaryData\<close> and \<^verbatim>\<open>BinaryDataRef\<close> (BinaryData.h, BinaryData.cpp): integers in either byte
    order, slices, hexadecimal text, search and comparison. The search returns the first occurrence and the
    hexadecimal text reads back to the bytes it was made from.

  \<^item> \<^verbatim>\<open>Binary_Reader\<close>: \<^verbatim>\<open>BinaryRefReader\<close> and the variable-length integers of BtcUtils. No getter but
    \<^verbatim>\<open>get_String\<close> reads outside the buffer, whatever it holds, and each keeps the reader's invariant. The
    locale \<^verbatim>\<open>codec\<close> states what a writer and a reader of one kind of field promise each other.

  \<^item> \<^verbatim>\<open>Binary_Writer\<close>: \<^verbatim>\<open>BinaryWriter\<close>, \<^verbatim>\<open>BitPacker\<close>, \<^verbatim>\<open>BitUnpacker\<close> and \<^verbatim>\<open>PackBits\<close>. The
    interpretations of \<^verbatim>\<open>codec\<close> for each kind of field give the round trip of any sequence of fields.

  \<^item> \<^verbatim>\<open>Transactional\<close>: \<^verbatim>\<open>TransactionalMap\<close> and \<^verbatim>\<open>TransactionalSet\<close> (ThreadSafeClasses.h) with a store of the objects
    published so far. They refine finite maps and sets under any sequence of writes, and what a reader holds
    never changes.

  \<^item> \<^verbatim>\<open>Ieee_Double\<close>: the binary64 arithmetic \<^verbatim>\<open>convertDiffBitsToDouble\<close> uses, rounding to nearest even.

  \<^item> \<^verbatim>\<open>Block_Chain\<close>, \<^verbatim>\<open>Chain_Tree\<close>, \<^verbatim>\<open>Chain_Organize\<close>, \<^verbatim>\<open>Chain_Growth\<close>, \<^verbatim>\<open>Chain_Branches\<close>: \<^verbatim>\<open>BlockHeader\<close> and
    \<^verbatim>\<open>Blockchain\<close> (BlockObj, Blockchain.cpp). \<^verbatim>\<open>Block_Chain\<close> has the operations; \<^verbatim>\<open>Chain_Tree\<close> the abstract tree of
    blocks with its ancestors, heights and sums, and the lemmas on \<^verbatim>\<open>traceChainDown\<close>; \<^verbatim>\<open>Chain_Organize\<close> one
    pass of \<^verbatim>\<open>organizeChain\<close>; \<^verbatim>\<open>Chain_Growth\<close> the adding of headers and reorganisation; \<^verbatim>\<open>Chain_Branches\<close> what
    the database is told about branches, and the life of a chain as a step relation with its invariant.

  \<^item> \<^verbatim>\<open>Tx_Layout\<close>: the length and the offsets of a raw transaction (BtcUtils.h), against a datatype of
    transactions with its wire format.

  \<^item> \<^verbatim>\<open>Network_Config\<close>, \<^verbatim>\<open>Script_Class\<close>, \<^verbatim>\<open>Script_Push\<close>: the prefixes of the networks, the types of output
    scripts, their addresses and the scripts built from addresses, push-only scripts and what inputs spend.

  \<^item> \<^verbatim>\<open>Op_Codes\<close>, \<^verbatim>\<open>Script_Ops\<close>: the opcode enumeration, the names of opcodes and the listing of a script.

  \<^item> \<^verbatim>\<open>Merkle_Tree\<close>, \<^verbatim>\<open>Partial_Merkle\<close>: \<^verbatim>\<open>calculateMerkleTree\<close> against the tree built level by level, and
    \<^verbatim>\<open>PartialMerkleTree\<close> (PartialMerkle.h), whose serialised form reads back to the marked transactions and root.

  \<^item> \<^verbatim>\<open>Der_Sig\<close>, \<^verbatim>\<open>Base64\<close>: signatures in DER with the low-S rule, and base64 text.

  \<^bold>\<open>Bounds and fuel.\<close> \<^const>\<open>organizeChain\<close> has an argument for the depth of its recursion; two are shown to be
  enough, because the second call rebuilds the chain from its genesis block. \<^const>\<open>walk_down\<close> has one slot per
  header of the map, the size of the two stacks of \<^verbatim>\<open>traceChainDown\<close>. Walks that follow hash links without a
  bound, and the listing of scripts, are partial functions in the option monad: None is a loop that does not
  end, and the properties show that the result is there. Buffers are shorter than \<^verbatim>\<open>2^64\<close> bytes, as any C++
  object is; a tree of headers has acyclic links, which a hash function that can be inverted could break.

  \<^bold>\<open>Not modelled.\<close> The database files and their transactions (lmdb, lmdb_wrapper, DatabaseBuilder), the scanners and the
  mempool (BlockchainScanner, ZeroConf), the sockets and servers and the remote-procedure codecs (generated
  from protobuf files), the wallets and signing (Wallets, Accounts, Assets, Signer) and the vendored
  cryptography: these are input and output, concurrency of a whole process, generated code, or third-party
  code. \<^verbatim>\<open>putBareHeaders\<close> and \<^verbatim>\<open>putNewBareHeaders\<close> of \<^verbatim>\<open>Blockchain\<close> write headers to the database. The
  difficulty sums are modelled in floating point as the code computes them; no claim is made that they equal
  the exact sums.
\<close>

end
